(* ===== verification/Prelude.thy ===== *)
theory Prelude
  imports Complex_Main "HOL-Library.Word" "HOL-Library.AList" "HOL-Library.Multiset"
    "HOL-Library.Monad_Syntax"
begin

text \<open>
  Shared vocabulary of the development: the Go scalar types the node uses, Go's maps, the
  comparison and conversion functions of \<open>math/big\<close>, the rounding of an integer to
  \<open>float64\<close>, and the generic lemmas on association lists and on overlapping finite sets that
  the component theories share.

  Conventions used by every theory.
  \<^item> A \<open>*big.Int\<close> is an \<^typ>\<open>int\<close>; a fixed-width integer is a word of its width; an address is
    a 160-bit word, a hash a 256-bit word and a byte slice a list of 8-bit words.
  \<^item> A Go map whose length or elements the code ranges over is an association list with
    distinct keys (\<open>gomap\<close>); the order of the list stands for the iteration order, which Go
    leaves unspecified, so theorems quantify over all lists.
  \<^item> A Go error value is a \<open>goError\<close>; a function that only returns an error returns
    \<^typ>\<open>'e option\<close>, with \<^const>\<open>None\<close> for \<open>nil\<close>.
  \<^item> A run-time panic (a nil dereference, an index out of range) is the value \<^const>\<open>None\<close> of
    an outer option, so that absence of panics is a statement about the model.
\<close>

section \<open>Go scalars\<close>

type_synonym address = "160 word"
type_synonym hash = "256 word"
type_synonym byte = "8 word"
type_synonym bytes = "byte list"
type_synonym uint64 = "64 word"
type_synonym uint32 = "32 word"

type_synonym ('k, 'v) gomap = "('k \<times> 'v) list"

named_theorems msg_simps \<open>projections of messages and message sets\<close>
named_theorems core_simps \<open>how the operations of the consensus core act on its fields\<close>

section \<open>Functions of the standard library\<close>

text \<open>Go's integer division truncates toward zero.\<close>

definition goDiv :: "int \<Rightarrow> int \<Rightarrow> int" where
  "goDiv a b = sgn a * sgn b * (\<bar>a\<bar> div \<bar>b\<bar>)"

lemma goDiv_nonneg: "0 \<le> a \<Longrightarrow> 0 < b \<Longrightarrow> goDiv a b = a div b"
  by (cases "a = 0") (simp_all add: goDiv_def)

text \<open>\<open>(*big.Int).Cmp\<close>, and \<open>(*big.Int).Uint64\<close>, which keeps the low 64 bits.\<close>

definition bigCmp :: "int \<Rightarrow> int \<Rightarrow> int" where
  "bigCmp x y = (if x < y then -1 else if x > y then 1 else 0)"

definition bigUint64 :: "int \<Rightarrow> uint64" where
  "bigUint64 x = word_of_int x"

lemma bigCmp_simps [simp]:
  "(bigCmp x y < 0) = (x < y)"
  "(bigCmp x y > 0) = (x > y)"
  "(bigCmp x y \<le> 0) = (x \<le> y)"
  "(bigCmp x y \<ge> 0) = (x \<ge> y)"
  "(bigCmp x y = 0) = (x = y)"
  "(bigCmp x y \<noteq> 0) = (x \<noteq> y)"
  by (auto simp: bigCmp_def)

lemma bigCmp_one_iff: "bigCmp x y = 1 \<longleftrightarrow> y < x" and bigCmp_minus_one_iff: "bigCmp x y = -1 \<longleftrightarrow> x < y"
  by (auto simp: bigCmp_def)

lemma uint_bigUint64 [simp]: "0 \<le> x \<Longrightarrow> x < 2 ^ 64 \<Longrightarrow> uint (bigUint64 x) = x"
  by (simp add: bigUint64_def uint_word_of_int take_bit_int_eq_self)

text \<open>
  The conversion of an integer to \<open>float64\<close>: values below \<open>2^53\<close> are exact, larger ones are
  rounded to the nearest multiple of the unit in the last place, ties to even.
\<close>

fun bitLen :: "nat \<Rightarrow> nat" where
  "bitLen n = (if n = 0 then 0 else Suc (bitLen (n div 2)))"

declare bitLen.simps [simp del]

definition float64_ulp :: "int \<Rightarrow> int" where
  "float64_ulp x = 2 ^ (bitLen (nat \<bar>x\<bar>) - 53)"

definition float64_of_int :: "int \<Rightarrow> int" where
  "float64_of_int x =
     (if \<bar>x\<bar> \<le> 2 ^ 53 then x
      else let u = float64_ulp x; q = x div u; r = x mod u in
           u * (if 2 * r < u \<or> 2 * r = u \<and> even q then q else q + 1))"

section \<open>Go maps\<close>

abbreviation mapGet :: "('k, 'v) gomap \<Rightarrow> 'k \<Rightarrow> 'v option" where
  "mapGet m k \<equiv> map_of m k"

abbreviation mapSet :: "'k \<Rightarrow> 'v \<Rightarrow> ('k, 'v) gomap \<Rightarrow> ('k, 'v) gomap" where
  "mapSet \<equiv> AList.update"

abbreviation mapDelete :: "'k \<Rightarrow> ('k, 'v) gomap \<Rightarrow> ('k, 'v) gomap" where
  "mapDelete \<equiv> AList.delete"

definition goMap :: "('k, 'v) gomap \<Rightarrow> bool" where
  "goMap m \<longleftrightarrow> distinct (map fst m)"

lemma goMap_empty [simp, intro]: "goMap []"
  by (simp add: goMap_def)

lemma goMap_set [simp, intro]: "goMap m \<Longrightarrow> goMap (mapSet k v m)"
  by (simp add: goMap_def distinct_update)

lemma goMap_delete [simp, intro]: "goMap m \<Longrightarrow> goMap (mapDelete k m)"
  by (simp add: goMap_def distinct_delete)

lemma goMap_filter [simp, intro]: "goMap m \<Longrightarrow> goMap (filter P m)"
  by (simp add: goMap_def distinct_map_filter)

lemma goMap_Cons [simp]: "goMap ((k, v) # m) \<longleftrightarrow> k \<notin> fst ` set m \<and> goMap m"
  by (simp add: goMap_def)

lemma mapGet_in: "goMap m \<Longrightarrow> (k, v) \<in> set m \<longleftrightarrow> mapGet m k = Some v"
  by (simp add: goMap_def map_of_eq_Some_iff)

lemma set_mapSet:
  "goMap m \<Longrightarrow> set (mapSet k v m) = insert (k, v) {(k', v'). (k', v') \<in> set m \<and> k' \<noteq> k}"
  by (induction m) (auto simp: goMap_def intro: rev_image_eqI)

lemma keys_mapSet: "fst ` set (mapSet k v m) = insert k (fst ` set m)"
  by (simp add: dom_update)

lemma length_mapSet: "length (mapSet k v m) = (if k \<in> fst ` set m then length m else Suc (length m))"
  by (induction m) auto

lemma goMap_card: "goMap m \<Longrightarrow> card (fst ` set m) = length m"
  by (metis distinct_card goMap_def length_map list.set_map)

section \<open>Overlap of finite sets\<close>

lemma card_inter_ge:
  assumes "finite E" "S \<subseteq> E" "T \<subseteq> E"
  shows "card S + card T \<le> card E + card (S \<inter> T)"
proof -
  have fin: "finite S" "finite T" using assms finite_subset by blast+
  have "card (S \<union> T) \<le> card E"
    using assms by (intro card_mono) auto
  with card_Un_Int [OF fin] show ?thesis by linarith
qed

lemma card_gt_ex_outside:
  assumes "finite B" "card B < card A"
  shows "\<exists>x \<in> A. x \<notin> B"
proof (rule ccontr)
  assume "\<not> ?thesis"
  then have "A \<subseteq> B" by blast
  then have "card A \<le> card B" by (rule card_mono [OF assms(1)])
  with assms(2) show False by simp
qed

section \<open>Errors\<close>

text \<open>
  The sentinel errors of \<open>consensus/wbft\<close>, \<open>consensus/wbft/core\<close> and
  \<open>consensus/wbft/common\<close>, under the names the source gives them. An error made on the spot
  with \<open>errors.New\<close> or \<open>fmt.Errorf\<close> is \<open>ErrorNew\<close> with its fixed text, a
  \<open>justificationError\<close> is \<open>JustificationError\<close> with its message.
\<close>

datatype goError =
    errNotFromProposer | errFutureMessage | errOldMessage | errInvalidMessage
  | errInvalidSeal | errInvalidSigner | errInvalidPreparedBlock | errExtraSealMessage
  | errInvalidExtraSealMessage | errCurrentIsNil | errFutureViewTooFar
  | ErrUnauthorizedAddress | ErrGasTipContractUnavailable | GasTipMismatchError "int option" int
  | ErrUnknownBlock | ErrInvalidBlockNumber | ErrFutureBlock | ErrUnknownAncestor
  | ErrInvalidUncleHash | ErrInvalidDifficulty | ErrInvalidTimestamp | ErrUnauthorized
  | ErrStateUnavailable | ErrBlacklistedSigner | ErrInvalidExtraDataFormat
  | ErrInvalidPreparedSeals | ErrInvalidPrevPreparedSeals | ErrEmptyPreparedSeals
  | ErrEmptyPrevPreparedSeals | ErrInvalidCommittedSeals | ErrInvalidPrevCommittedSeals
  | ErrEmptyCommittedSeals | ErrEmptyPrevCommittedSeals | ErrInvalidSeal | ErrEmptySeals
  | ErrMismatchTxhashes | ErrInvalidProposal | ErrBlacklistedHash | ErrEpochInfoIsNotNil
  | ErrNegativeBigInt | ErrFailedDecodePreprepare | ErrFailedDecodeCommit
  | ErrFailedDecodeRoundChange | ErrInvalidMessage
  | ErrorNew string | JustificationError string

end
