(* ===== verification/Validator_Set.thy ===== *)
theory Validator_Set
  imports Prelude
begin

text \<open>
  The validator set of \<open>consensus/wbft/validator\<close>: the list of validators, proposer
  selection (round robin and sticky) and the quorum size. The locale \<open>byzantine_quorums\<close>
  states what consensus needs from a quorum system; it is interpreted on \<open>QuorumSize\<close> and
  \<open>F\<close> of the code.

  \<open>F\<close> and \<open>QuorumSize\<close> compute in \<open>float64\<close>; the model uses exact rationals. For fewer than
  \<open>2^50\<close> validators the two agree: \<open>(n-1)/3\<close> is exact when it is an integer, and otherwise the
  rounding error is far below the distance \<open>1/3\<close> of \<open>n - (n-1)/3\<close> to the next integer.
\<close>

section \<open>Data\<close>

record defaultValidator =
  valAddress :: address
  valBLSPublicKey :: bytes

type_synonym ProposerPolicyId = uint64

definition RoundRobin :: ProposerPolicyId where "RoundRobin = 0"
definition Sticky :: ProposerPolicyId where "Sticky = 1"

datatype ValidatorSortByFunc = ValidatorSortByString | ValidatorSortByByte

record ProposerPolicy =
  policyId :: ProposerPolicyId
  policyBy :: ValidatorSortByFunc

definition NewProposerPolicy :: "ProposerPolicyId \<Rightarrow> ProposerPolicy" where
  "NewProposerPolicy i = \<lparr>policyId = i, policyBy = ValidatorSortByString\<rparr>"

definition Use :: "ProposerPolicy \<Rightarrow> ValidatorSortByFunc \<Rightarrow> ProposerPolicy" where
  "Use p v = p\<lparr>policyBy := v\<rparr>"

text \<open>The function stored in the \<open>selector\<close> field is one of the two proposer functions.\<close>

datatype ProposalSelector = SelRoundRobin | SelSticky

record defaultSet =
  validators :: "defaultValidator list"
  policy :: ProposerPolicy
  proposer :: "defaultValidator option"
  selector :: ProposalSelector

section \<open>Operations\<close>

definition New :: "address \<Rightarrow> bytes \<Rightarrow> defaultValidator" where
  "New addr blsPublicKey = \<lparr>valAddress = addr, valBLSPublicKey = blsPublicKey\<rparr>"

definition Size :: "defaultSet \<Rightarrow> nat" where
  "Size valSet = length (validators valSet)"

definition AddressList :: "defaultSet \<Rightarrow> address list" where
  "AddressList valSet = map valAddress (validators valSet)"

definition GetByIndex :: "defaultSet \<Rightarrow> uint64 \<Rightarrow> defaultValidator option" where
  "GetByIndex valSet i =
     (if unat i < Size valSet then Some (validators valSet ! unat i) else None)"

fun getByAddressFrom :: "int \<Rightarrow> defaultValidator list \<Rightarrow> address \<Rightarrow> int \<times> defaultValidator option" where
  "getByAddressFrom i [] addr = (-1, None)"
| "getByAddressFrom i (val # vals) addr =
     (if addr = valAddress val then (i, Some val) else getByAddressFrom (i + 1) vals addr)"

definition GetByAddress :: "defaultSet \<Rightarrow> address \<Rightarrow> int \<times> defaultValidator option" where
  "GetByAddress valSet addr = getByAddressFrom 0 (validators valSet) addr"

definition GetProposer :: "defaultSet \<Rightarrow> defaultValidator option" where
  "GetProposer valSet = proposer valSet"

text \<open>\<open>reflect.DeepEqual\<close> of two interface values, both of which may be nil.\<close>

definition IsProposer :: "defaultSet \<Rightarrow> address \<Rightarrow> bool" where
  "IsProposer valSet addr = (GetProposer valSet = snd (GetByAddress valSet addr))"

definition calcSeed :: "defaultSet \<Rightarrow> address \<Rightarrow> uint64 \<Rightarrow> uint64" where
  "calcSeed valSet prop rd =
     (let (idx, val) = GetByAddress valSet prop;
          offset = (if val \<noteq> None then idx else 0)
      in word_of_int offset + rd)"

definition emptyAddress :: "address \<Rightarrow> bool" where
  "emptyAddress addr = (addr = 0)"

definition roundRobinProposer :: "defaultSet \<Rightarrow> address \<Rightarrow> uint64 \<Rightarrow> defaultValidator option" where
  "roundRobinProposer valSet prop rd =
     (if Size valSet = 0 then None
      else let seed = (if emptyAddress prop then rd else calcSeed valSet prop rd + 1);
               pick = seed mod of_nat (Size valSet)
           in GetByIndex valSet pick)"

definition stickyProposer :: "defaultSet \<Rightarrow> address \<Rightarrow> uint64 \<Rightarrow> defaultValidator option" where
  "stickyProposer valSet prop rd =
     (if Size valSet = 0 then None
      else let seed = (if emptyAddress prop then rd else calcSeed valSet prop rd);
               pick = seed mod of_nat (Size valSet)
           in GetByIndex valSet pick)"

definition applySelector :: "ProposalSelector \<Rightarrow> defaultSet \<Rightarrow> address \<Rightarrow> uint64 \<Rightarrow> defaultValidator option" where
  "applySelector sel =
     (case sel of SelRoundRobin \<Rightarrow> roundRobinProposer | SelSticky \<Rightarrow> stickyProposer)"

definition CalcProposer :: "defaultSet \<Rightarrow> address \<Rightarrow> uint64 \<Rightarrow> defaultSet" where
  "CalcProposer valSet lastProposer rd =
     valSet\<lparr>proposer := applySelector (selector valSet) valSet lastProposer rd\<rparr>"

definition newDefaultSet :: "defaultValidator list \<Rightarrow> ProposerPolicy \<Rightarrow> defaultSet" where
  "newDefaultSet vals pol =
     \<lparr>validators = vals, policy = pol,
      proposer = (if length vals > 0 then Some (vals ! 0) else None),
      selector = (if policyId pol = Sticky then SelSticky else SelRoundRobin)\<rparr>"

text \<open>\<open>NewSet\<close> indexes \<open>blsPublicKeys\<close> with every index of \<open>addrs\<close>, and panics beyond its end.\<close>

definition NewSet :: "address list \<Rightarrow> bytes list \<Rightarrow> ProposerPolicy \<Rightarrow> defaultSet option" where
  "NewSet addrs blsPublicKeys pol =
     (if length addrs \<le> length blsPublicKeys
      then Some (newDefaultSet (map2 New addrs blsPublicKeys) pol) else None)"

definition NewSetByValidators :: "defaultValidator list \<Rightarrow> ProposerPolicy \<Rightarrow> defaultSet" where
  "NewSetByValidators vals pol = newDefaultSet vals pol"

definition AddValidator :: "defaultSet \<Rightarrow> address \<Rightarrow> bytes \<Rightarrow> bool \<times> defaultSet" where
  "AddValidator valSet addr blsPublicKey =
     (if \<exists>v \<in> set (validators valSet). valAddress v = addr then (False, valSet)
      else (True, valSet\<lparr>validators := validators valSet @ [New addr blsPublicKey]\<rparr>))"

fun removeFirst :: "address \<Rightarrow> defaultValidator list \<Rightarrow> bool \<times> defaultValidator list" where
  "removeFirst addr [] = (False, [])"
| "removeFirst addr (v # vs) =
     (if valAddress v = addr then (True, vs)
      else let (b, vs') = removeFirst addr vs in (b, v # vs'))"

definition RemoveValidator :: "defaultSet \<Rightarrow> address \<Rightarrow> bool \<times> defaultSet" where
  "RemoveValidator valSet addr =
     (let (b, vs) = removeFirst addr (validators valSet) in (b, valSet\<lparr>validators := vs\<rparr>))"

definition Copy :: "defaultSet \<Rightarrow> defaultSet" where
  "Copy valSet = NewSetByValidators (validators valSet) (policy valSet)"

definition F :: "defaultSet \<Rightarrow> rat" where
  "F valSet = of_int (int (Size valSet) - 1) / 3"

definition QuorumSize :: "defaultSet \<Rightarrow> int" where
  "QuorumSize valSet = \<lceil>of_nat (Size valSet) - F valSet\<rceil>"

text \<open>What the rest of the node relies on: no address occurs twice.\<close>

definition valSet_wf :: "defaultSet \<Rightarrow> bool" where
  "valSet_wf valSet \<longleftrightarrow> distinct (AddressList valSet)"

section \<open>Lookup\<close>

lemma getByAddressFrom_None:
  "snd (getByAddressFrom i vs a) = None \<longleftrightarrow> a \<notin> valAddress ` set vs"
  by (induction i vs a rule: getByAddressFrom.induct) auto

lemma getByAddressFrom_neg: "0 \<le> i \<Longrightarrow> fst (getByAddressFrom i vs a) < 0 \<longleftrightarrow> a \<notin> valAddress ` set vs"
  by (induction i vs a rule: getByAddressFrom.induct) auto

lemma getByAddressFrom_Some:
  "getByAddressFrom i vs a = (j, Some v) \<Longrightarrow>
     i \<le> j \<and> nat (j - i) < length vs \<and> vs ! nat (j - i) = v \<and> valAddress v = a"
proof (induction i vs a rule: getByAddressFrom.induct)
  case (2 i val vals addr)
  have "nat (j - i) - Suc 0 = nat (j - (i + 1))" by simp
  with 2 show ?case
    by (cases "addr = valAddress val") (auto simp: nth_Cons')
qed auto

lemma GetByAddress_None_iff:
  "snd (GetByAddress vs a) = None \<longleftrightarrow> a \<notin> set (AddressList vs)"
  by (simp add: GetByAddress_def AddressList_def getByAddressFrom_None)

lemma GetByAddress_neg_iff: "fst (GetByAddress vs a) < 0 \<longleftrightarrow> a \<notin> set (AddressList vs)"
  by (simp add: GetByAddress_def AddressList_def getByAddressFrom_neg)

lemma GetByAddress_SomeD:
  assumes "GetByAddress vs a = (j, Some v)"
  shows "0 \<le> j" "nat j < Size vs" "validators vs ! nat j = v" "valAddress v = a"
  using getByAddressFrom_Some [OF assms [unfolded GetByAddress_def]] by (simp_all add: Size_def)

lemma GetByAddress_snd_SomeD:
  assumes "snd (GetByAddress vs a) = Some v"
  shows "v \<in> set (validators vs)" "valAddress v = a"
proof -
  obtain j where "GetByAddress vs a = (j, Some v)" using assms by (metis prod.collapse)
  note d = GetByAddress_SomeD [OF this]
  show "v \<in> set (validators vs)" using d(2,3) nth_mem by (metis Size_def)
  show "valAddress v = a" by (rule d(4))
qed

lemma GetByAddress_nth:
  assumes "valSet_wf vs" "i < Size vs"
  shows "GetByAddress vs (valAddress (validators vs ! i)) = (int i, Some (validators vs ! i))"
proof -
  let ?a = "valAddress (validators vs ! i)"
  have "?a \<in> set (AddressList vs)"
    using assms(2) by (auto simp: AddressList_def Size_def)
  then obtain j v where jv: "GetByAddress vs ?a = (j, Some v)"
    using GetByAddress_None_iff by (metis option.exhaust prod.collapse)
  note d = GetByAddress_SomeD [OF jv]
  have "nat j = i"
    using assms d by (auto simp: valSet_wf_def AddressList_def Size_def distinct_conv_nth)
  with d jv show ?thesis by auto
qed

section \<open>Quorum systems\<close>

text \<open>What the agreement argument needs from a quorum system with a fault bound: two quorums
  overlap in more than \<open>faults\<close> members, and the correct members alone form a quorum.\<close>

locale byzantine_quorums =
  fixes members :: "'v \<Rightarrow> address set"
    and quorum :: "'v \<Rightarrow> int"
    and faults :: "'v \<Rightarrow> rat"
    and wf :: "'v \<Rightarrow> bool"
  assumes finite_members: "finite (members v)"
    and quorum_overlap: "wf v \<Longrightarrow> of_nat (card (members v)) + faults v < 2 * of_int (quorum v)"
    and quorum_available: "wf v \<Longrightarrow> of_int (quorum v) < of_nat (card (members v)) - faults v + 1"
begin

lemma quorums_intersect:
  assumes "wf v" "S \<subseteq> members v" "T \<subseteq> members v"
    and "quorum v \<le> int (card S)" "quorum v \<le> int (card T)"
  shows "faults v < of_nat (card (S \<inter> T))"
proof -
  have "card S + card T \<le> card (members v) + card (S \<inter> T)"
    using card_inter_ge [OF finite_members assms(2,3)] by linarith
  then have "int (card S) + int (card T) \<le> int (card (members v)) + int (card (S \<inter> T))"
    by linarith
  then have "2 * quorum v \<le> int (card (members v)) + int (card (S \<inter> T))"
    using assms(4,5) by linarith
  then have "(of_int (2 * quorum v) :: rat) \<le> of_int (int (card (members v)) + int (card (S \<inter> T)))"
    by (simp only: of_int_le_iff)
  then show ?thesis using quorum_overlap [OF assms(1)] by simp
qed

lemma correct_in_excess:
  assumes "S \<subseteq> members v" "B \<subseteq> members v" "of_nat (card B) \<le> faults v" "faults v < of_nat (card S)"
  shows "\<exists>a \<in> S. a \<notin> B"
proof -
  have "(of_nat (card B) :: rat) < of_nat (card S)" using assms(3,4) by linarith
  then have "card B < card S" by (simp only: of_nat_less_iff)
  then show ?thesis
    using card_mono [of B S] finite_subset [OF assms(2) finite_members] by (meson not_less subsetI)
qed

lemma correct_in_common:
  assumes "wf v" "S \<subseteq> members v" "T \<subseteq> members v"
    and "quorum v \<le> int (card S)" "quorum v \<le> int (card T)"
    and "B \<subseteq> members v" "of_nat (card B) \<le> faults v"
  shows "\<exists>a. a \<in> S \<and> a \<in> T \<and> a \<notin> B"
  using correct_in_excess [of "S \<inter> T" v B] quorums_intersect [OF assms(1-5)] assms by blast

lemma correct_form_quorum:
  assumes "wf v" "B \<subseteq> members v" "of_nat (card B) \<le> faults v"
  shows "quorum v \<le> int (card (members v - B))"
proof -
  have "card (members v - B) = card (members v) - card B" "card B \<le> card (members v)"
    using assms(2) finite_members by (auto intro: card_Diff_subset finite_subset card_mono)
  then have "(of_int (quorum v) :: rat) < of_int (int (card (members v - B)) + 1)"
    using quorum_available [OF assms(1)] assms(3) by (simp add: of_nat_diff)
  then show ?thesis by (simp only: of_int_less_iff)
qed

end

section \<open>Quorum size\<close>

lemma QuorumSize_closed: "QuorumSize vs = (2 * int (Size vs) + 3) div 3"
proof -
  let ?n = "int (Size vs)"
  have "(of_nat (Size vs) - F vs :: rat) = of_int (2 * ?n + 1) / of_int 3"
    by (simp add: F_def field_simps)
  then have "QuorumSize vs = \<lceil>(of_int (2 * ?n + 1) / of_int 3 :: rat)\<rceil>"
    by (simp only: QuorumSize_def)
  also have "\<dots> = - (- (2 * ?n + 1) div 3)" by (simp only: ceiling_divide_eq_div)
  also have "\<dots> = (2 * ?n + 3) div 3" by presburger
  finally show ?thesis .
qed

lemma QuorumSize_pos [simp]: "0 < QuorumSize vs"
  by (simp add: QuorumSize_closed)

lemma card_AddressList: "valSet_wf vs \<Longrightarrow> card (set (AddressList vs)) = Size vs"
  by (simp add: valSet_wf_def distinct_card) (simp add: AddressList_def Size_def)

interpretation wbft_quorum: byzantine_quorums "\<lambda>vs. set (AddressList vs)" QuorumSize F valSet_wf
proof
  fix vs assume wf: "valSet_wf vs"
  let ?n = "int (Size vs)"
  have "4 * ?n - 1 < 6 * QuorumSize vs" "3 * QuorumSize vs < 2 * ?n + 4"
    by (simp_all add: QuorumSize_closed)
  then have "(of_int (4 * ?n - 1) :: rat) < of_int (6 * QuorumSize vs)"
    "(of_int (3 * QuorumSize vs) :: rat) < of_int (2 * ?n + 4)"
    by (simp_all only: of_int_less_iff)
  then show "of_nat (card (set (AddressList vs))) + F vs < 2 * of_int (QuorumSize vs)"
    "of_int (QuorumSize vs) < of_nat (card (set (AddressList vs))) - F vs + 1"
    by (simp_all add: card_AddressList [OF wf] F_def field_simps)
qed simp

section \<open>Proposer selection\<close>

text \<open>Both selectors add a constant below or equal to the set's size to the round number.\<close>

definition seedOffset :: "ProposalSelector \<Rightarrow> defaultSet \<Rightarrow> address \<Rightarrow> nat" where
  "seedOffset sel vs a =
     (if emptyAddress a then 0
      else (if snd (GetByAddress vs a) \<noteq> None then nat (fst (GetByAddress vs a)) else 0)
           + (if sel = SelRoundRobin then 1 else 0))"

lemma calcSeed_eq:
  "calcSeed vs a rd =
     of_nat (if snd (GetByAddress vs a) \<noteq> None then nat (fst (GetByAddress vs a)) else 0) + rd"
proof (cases "GetByAddress vs a")
  case (Pair j ov)
  show ?thesis
  proof (cases ov)
    case (Some v)
    then have "0 \<le> j" using Pair GetByAddress_SomeD(1) by blast
    then have "(word_of_int j :: uint64) = of_nat (nat j)" by (rule word_of_int_nat)
    with Some Pair show ?thesis by (simp add: calcSeed_def)
  qed (simp add: Pair calcSeed_def)
qed

lemma applySelector_eq:
  "applySelector sel vs a rd =
     (if Size vs = 0 then None
      else GetByIndex vs ((of_nat (seedOffset sel vs a) + rd) mod of_nat (Size vs)))"
  by (cases sel)
    (auto simp: applySelector_def roundRobinProposer_def stickyProposer_def seedOffset_def
      calcSeed_eq Let_def algebra_simps)

lemma seedOffset_le:
  assumes "0 < Size vs"
  shows "seedOffset sel vs a \<le> Size vs"
proof (cases "snd (GetByAddress vs a)")
  case None
  then show ?thesis using assms by (simp add: seedOffset_def)
next
  case (Some v)
  then have "GetByAddress vs a = (fst (GetByAddress vs a), Some v)" by (metis prod.collapse)
  from GetByAddress_SomeD(2) [OF this] show ?thesis by (simp add: seedOffset_def)
qed

lemma applySelector_nth:
  assumes "0 < Size vs" "Size vs < 2 ^ 64" "seedOffset sel vs a + r < 2 ^ 64"
  shows "applySelector sel vs a (of_nat r) =
           Some (validators vs ! ((seedOffset sel vs a + r) mod Size vs))"
proof -
  have "unat ((of_nat (seedOffset sel vs a) + of_nat r :: uint64) mod of_nat (Size vs)) =
      (seedOffset sel vs a + r) mod Size vs"
    using assms(2,3) unfolding of_nat_add [symmetric] by (simp only: unat_mod unat_of_nat) simp
  then show ?thesis using assms(1) by (simp add: applySelector_eq GetByIndex_def)
qed

lemma applySelector_mem:
  assumes "0 < Size vs" "Size vs < 2 ^ 64"
  shows "\<exists>v \<in> set (validators vs). applySelector sel vs a rd = Some v"
proof -
  let ?w = "(of_nat (seedOffset sel vs a) + rd) mod (of_nat (Size vs) :: uint64)"
  have "unat ?w < Size vs" using assms by (simp add: unat_mod unat_of_nat)
  then show ?thesis using assms(1)
    by (auto simp: applySelector_eq GetByIndex_def Size_def)
qed

lemma validators_CalcProposer [simp]:
  "validators (CalcProposer vs a r) = validators vs"
  "Size (CalcProposer vs a r) = Size vs"
  "AddressList (CalcProposer vs a r) = AddressList vs"
  "QuorumSize (CalcProposer vs a r) = QuorumSize vs"
  "F (CalcProposer vs a r) = F vs"
  "GetByAddress (CalcProposer vs a r) b = GetByAddress vs b"
  "valSet_wf (CalcProposer vs a r) = valSet_wf vs"
  by (simp_all add: CalcProposer_def Size_def AddressList_def QuorumSize_def F_def GetByAddress_def
      valSet_wf_def)

lemma IsProposer_CalcProposer:
  assumes "valSet_wf vs" "0 < Size vs" "Size vs < 2 ^ 64"
  shows "IsProposer (CalcProposer vs a r) b \<longleftrightarrow>
           (\<exists>v. GetProposer (CalcProposer vs a r) = Some v \<and> valAddress v = b)"
proof -
  obtain v where v: "v \<in> set (validators vs)" "applySelector (selector vs) vs a r = Some v"
    using applySelector_mem [OF assms(2,3)] by blast
  then obtain i where i: "i < Size vs" "validators vs ! i = v" by (auto simp: in_set_conv_nth Size_def)
  have "snd (GetByAddress vs b) = Some v \<longleftrightarrow> valAddress v = b"
    using GetByAddress_nth [OF assms(1) i(1)] i(2) GetByAddress_snd_SomeD(2) by fastforce
  then show ?thesis
    using v(2) by (auto simp: IsProposer_def GetProposer_def) (auto simp: CalcProposer_def)
qed

text \<open>The rounds \<open>r0, \<dots>, r0 + n - 1\<close> reach every residue exactly once.\<close>

lemma mod_window_ex1:
  fixes n i k r0 :: nat
  assumes "i < n"
  shows "\<exists>!r. r0 \<le> r \<and> r < r0 + n \<and> (k + r) mod n = i"
proof (rule ex_ex1I)
  define d where "d = (i + n - (k + r0) mod n) mod n"
  have "(k + (r0 + d)) mod n = ((k + r0) mod n + (i + n - (k + r0) mod n)) mod n"
    by (simp only: d_def add.assoc [symmetric] mod_simps)
  also have "\<dots> = i" using assms by (simp add: le_add_diff_inverse trans_le_add2)
  finally show "\<exists>r. r0 \<le> r \<and> r < r0 + n \<and> (k + r) mod n = i"
    using assms by (intro exI [of _ "r0 + d"]) (auto simp: d_def)
next
  fix r s
  assume r: "r0 \<le> r \<and> r < r0 + n \<and> (k + r) mod n = i" and s: "r0 \<le> s \<and> s < r0 + n \<and> (k + s) mod n = i"
  have aux: "x = y" if "(k + x) mod n = (k + y) mod n" "x \<le> y" "y < x + n" for x y
  proof -
    have "n dvd (k + y) - (k + x)" using that by (intro mod_eq_dvd_iff_nat [THEN iffD1]) auto
    then have "n dvd y - x" by simp
    moreover have "y - x < n" using that by linarith
    ultimately show ?thesis using that(2) by (auto dest: dvd_imp_le)
  qed
  show "r = s" using aux [of r s] aux [of s r] r s by (cases "r \<le> s") auto
qed

section \<open>Changing the set\<close>

lemma removeFirst_absent: "a \<notin> valAddress ` set vs \<Longrightarrow> removeFirst a vs = (False, vs)"
  by (induction vs) auto

lemma removeFirst_append:
  "a \<notin> valAddress ` set vs \<Longrightarrow> valAddress v = a \<Longrightarrow> removeFirst a (vs @ v # ws) = (True, vs @ ws)"
  by (induction vs) auto

lemma removeFirst_distinct:
  "distinct (map valAddress vs) \<Longrightarrow>
     removeFirst a vs = (a \<in> valAddress ` set vs, filter (\<lambda>v. valAddress v \<noteq> a) vs)"
proof (induction vs)
  case (Cons v vs)
  then have "filter (\<lambda>x. valAddress x \<noteq> valAddress v) vs = vs"
    by (simp add: filter_id_conv) (metis image_eqI)
  with Cons show ?case by auto
qed simp

lemma RemoveValidator_wf:
  assumes "valSet_wf vs"
  shows "RemoveValidator vs a =
    (a \<in> set (AddressList vs), vs\<lparr>validators := filter (\<lambda>v. valAddress v \<noteq> a) (validators vs)\<rparr>)"
  using assms removeFirst_distinct [of "validators vs" a]
  by (simp add: RemoveValidator_def valSet_wf_def AddressList_def)

lemma AddValidator_wf: "valSet_wf vs \<Longrightarrow> valSet_wf (snd (AddValidator vs a k))"
  by (auto simp: AddValidator_def valSet_wf_def AddressList_def New_def)

section \<open>Properties\<close>

text \<open>C9. Two quorums of one validator set share a correct validator, whichever at most \<open>F\<close> of
  the validators are faulty.\<close>

theorem quorums_share_correct_validator:
  assumes "valSet_wf vs"
    and "S \<subseteq> set (AddressList vs)" "T \<subseteq> set (AddressList vs)"
    and "QuorumSize vs \<le> int (card S)" "QuorumSize vs \<le> int (card T)"
    and "B \<subseteq> set (AddressList vs)" "of_nat (card B) \<le> F vs"
  shows "\<exists>a. a \<in> S \<and> a \<in> T \<and> a \<notin> B"
  using assms by (rule wbft_quorum.correct_in_common)

text \<open>Four validators: any two sets of three share a validator other than the faulty one.\<close>

definition exampleSet :: "nat \<Rightarrow> defaultSet" where
  "exampleSet n = newDefaultSet (map (\<lambda>i. New (of_nat (i + 1)) []) [0..<n]) (NewProposerPolicy RoundRobin)"

theorem quorums_share_correct_validator_witness:
  "\<exists>a. a \<in> {1, 2, 3} \<and> a \<in> {2, 3, 4} \<and> a \<notin> {3 :: address}"
proof (rule quorums_share_correct_validator)
  show "valSet_wf (exampleSet 4)" by code_simp
  show "{1, 2, 3} \<subseteq> set (AddressList (exampleSet 4))" "{2, 3, 4} \<subseteq> set (AddressList (exampleSet 4))"
    "{3} \<subseteq> set (AddressList (exampleSet 4))"
    by code_simp+
  have n: "Size (exampleSet 4) = 4" by code_simp
  show "QuorumSize (exampleSet 4) \<le> int (card {1, 2, 3 :: address})"
    "QuorumSize (exampleSet 4) \<le> int (card {2, 3, 4 :: address})"
    by (simp_all add: QuorumSize_closed n)
  show "of_nat (card {3 :: address}) \<le> F (exampleSet 4)" by (simp add: F_def n)
qed

text \<open>C12. The quorum is two thirds of the validators rounded up, and one more when the number of
  validators is divisible by three; the correct validators always suffice for it.\<close>

theorem quorum_size_value:
  "QuorumSize vs = \<lceil>of_nat (2 * Size vs) / (3 :: rat)\<rceil> + (if 3 dvd Size vs then 1 else 0)
   \<and> (0 < Size vs \<longrightarrow> QuorumSize vs \<le> int (Size vs) - \<lfloor>F vs\<rfloor>)"
proof -
  have c: "\<lceil>of_nat (2 * Size vs) / (3 :: rat)\<rceil> = - (- int (2 * Size vs) div 3)"
    using ceiling_divide_eq_div [of "int (2 * Size vs)" 3, where 'a = rat] by simp
  have f: "\<lfloor>F vs\<rfloor> = (int (Size vs) - 1) div 3"
    using floor_divide_of_int_eq [of "int (Size vs) - 1" 3, where 'a = rat] by (simp add: F_def)
  show ?thesis unfolding c f QuorumSize_closed by presburger
qed

theorem quorum_size_value_witness:
  "QuorumSize (exampleSet 4) = 3 \<and> QuorumSize (exampleSet 6) = 5
   \<and> QuorumSize (exampleSet 4) \<le> int (Size (exampleSet 4)) - \<lfloor>F (exampleSet 4)\<rfloor>"
proof -
  have "Size (exampleSet 4) = 4" "Size (exampleSet 6) = 6" by code_simp+
  with quorum_size_value [of "exampleSet 4"] quorum_size_value [of "exampleSet 6"] show ?thesis
    by (simp add: QuorumSize_closed)
qed

text \<open>C10. Rotation: for a fixed last proposer, within any window of as many rounds as there are
  validators each validator is the proposer of exactly one round, under both policies (as long as
  round numbers stay in 64 bits), so every correct validator gets its turn.\<close>

theorem proposer_rotation:
  assumes "valSet_wf vs" "v \<in> set (validators vs)" "r0 + 2 * Size vs < 2 ^ 64"
  shows "\<exists>!r. r0 \<le> r \<and> r < r0 + Size vs \<and>
           GetProposer (CalcProposer vs lastProposer (of_nat r)) = Some v"
proof -
  obtain i where i: "i < Size vs" "validators vs ! i = v"
    using assms(2) by (auto simp: in_set_conv_nth Size_def)
  let ?k = "seedOffset (selector vs) vs lastProposer"
  have "GetProposer (CalcProposer vs lastProposer (of_nat r)) = Some v \<longleftrightarrow> (?k + r) mod Size vs = i"
    if "r < r0 + Size vs" for r
  proof -
    have "?k + r < 2 ^ 64" "0 < Size vs" "Size vs < 2 ^ 64"
      using that i seedOffset_le [of vs "selector vs" lastProposer] assms(3) by linarith+
    then have "GetProposer (CalcProposer vs lastProposer (of_nat r)) =
        Some (validators vs ! ((?k + r) mod Size vs))"
      by (simp add: GetProposer_def CalcProposer_def applySelector_nth)
    moreover have "(?k + r) mod Size vs < Size vs" using \<open>0 < Size vs\<close> by simp
    ultimately show ?thesis
      using i assms(1) distinct_map nth_eq_iff_index_eq
      by (metis AddressList_def Size_def option.inject valSet_wf_def)
  qed
  with mod_window_ex1 [OF i(1), of r0 ?k] show ?thesis by metis
qed

theorem proposer_rotation_witness:
  "\<exists>!r. 5 \<le> r \<and> r < 5 + Size (exampleSet 4) \<and>
     GetProposer (CalcProposer (exampleSet 4) 2 (of_nat r)) = Some (New 3 [])"
proof (rule proposer_rotation)
  show "valSet_wf (exampleSet 4)" by code_simp
  show "New 3 [] \<in> set (validators (exampleSet 4))" by code_simp
  have "Size (exampleSet 4) = 4" by code_simp
  then show "5 + 2 * Size (exampleSet 4) < 2 ^ 64" by simp
qed

text \<open>C11. Exactly one validator considers itself the proposer of a round: the address comparison of
  \<open>IsProposer\<close> holds for the address of a member of the set and for no other address.\<close>

theorem unique_proposer_address:
  assumes "valSet_wf vs" "0 < Size vs" "Size vs < 2 ^ 64"
  shows "\<exists>v \<in> set (validators vs). \<forall>a. IsProposer (CalcProposer vs lastProposer rd) a \<longleftrightarrow> a = valAddress v"
proof -
  obtain v where "v \<in> set (validators vs)" "GetProposer (CalcProposer vs lastProposer rd) = Some v"
    using applySelector_mem [OF assms(2,3)] by (fastforce simp: GetProposer_def CalcProposer_def)
  then show ?thesis using IsProposer_CalcProposer [OF assms] by auto
qed

theorem unique_proposer_address_witness:
  "\<exists>v \<in> set (validators (exampleSet 3)). \<forall>a. IsProposer (CalcProposer (exampleSet 3) 3 7) a \<longleftrightarrow> a = valAddress v"
proof (rule unique_proposer_address)
  have "Size (exampleSet 3) = 3" by code_simp
  then show "0 < Size (exampleSet 3)" "Size (exampleSet 3) < 2 ^ 64" by simp_all
  show "valSet_wf (exampleSet 3)" by code_simp
qed



end
