(* ===== verification/Prque.thy ===== *)
theory Prque
  imports Prelude
begin

text \<open>
  The priority queue of \<open>common/prque\<close>: a binary heap (\<open>container/heap\<close> of the Go library)
  over a stack that grows in blocks of 4096 slots. The stack is modelled with its blocks, its
  \<open>active\<close> slice as the index of the block it aliases, and its \<open>size\<close>, \<open>capacity\<close> and \<open>offset\<close>
  counters. A nil slot is \<open>None\<close>; a panic (index out of range, nil dereference) is \<open>None\<close> of the
  result. Consensus creates its queues without an index callback, so \<open>setIndex\<close> is nil here.

  The stack refines a plain list (\<open>items\<close>), the heap operations refine list functions, and the
  queue implements the contract \<open>priority_queue\<close>, over which clients are proved.
\<close>

section \<open>The block stack\<close>

record ('p, 'v) item =
  value_of :: 'v
  priority :: 'p

record ('p, 'v) sstack =
  size_of :: int
  capacity :: int
  offset :: int
  blocks :: "('p, 'v) item option list list"
  active :: nat

definition blockSize :: nat where "blockSize = 4096"

definition newBlock :: "('p, 'v) item option list" where
  "newBlock = replicate blockSize None"

definition newSstack :: "('p, 'v) sstack" where
  "newSstack = \<lparr>size_of = 0, capacity = int blockSize, offset = 0, blocks = [newBlock], active = 0\<rparr>"

text \<open>Writing \<open>active[offset]\<close>: the slice aliases a block, so the block changes.\<close>

definition setActive :: "('p, 'v) sstack \<Rightarrow> ('p, 'v) item option \<Rightarrow> ('p, 'v) sstack option" where
  "setActive s x =
     (if active s < length (blocks s) \<and> 0 \<le> offset s \<and> nat (offset s) < length (blocks s ! active s)
      then Some (s\<lparr>blocks := (blocks s)[active s := (blocks s ! active s)[nat (offset s) := x]]\<rparr>)
      else None)"

definition getActive :: "('p, 'v) sstack \<Rightarrow> ('p, 'v) item option option" where
  "getActive s =
     (if active s < length (blocks s) \<and> 0 \<le> offset s \<and> nat (offset s) < length (blocks s ! active s)
      then Some (blocks s ! active s ! nat (offset s)) else None)"

text \<open>\<open>active = blocks[k]\<close> panics when \<open>k\<close> is out of range.\<close>

definition activate :: "int \<Rightarrow> ('p, 'v) sstack \<Rightarrow> ('p, 'v) sstack option" where
  "activate k s = (if 0 \<le> k \<and> nat k < length (blocks s) then Some (s\<lparr>active := nat k\<rparr>) else None)"

text \<open>The first part of \<open>Push\<close> makes \<open>active[offset]\<close> a free slot.\<close>

definition makeRoom :: "('p, 'v) sstack \<Rightarrow> ('p, 'v) sstack option" where
  "makeRoom s =
     (if size_of s = capacity s
      then Some (s\<lparr>active := length (blocks s), blocks := blocks s @ [newBlock],
                   capacity := capacity s + int blockSize, offset := 0\<rparr>)
      else if offset s = int blockSize
      then do { s \<leftarrow> activate (goDiv (size_of s) (int blockSize)) s; Some (s\<lparr>offset := 0\<rparr>) }
      else Some s)"

definition sstack_Push :: "('p, 'v) sstack \<Rightarrow> ('p, 'v) item \<Rightarrow> ('p, 'v) sstack option" where
  "sstack_Push s x = do {
     s \<leftarrow> makeRoom s;
     s \<leftarrow> setActive s (Some x);
     Some (s\<lparr>offset := offset s + 1, size_of := size_of s + 1\<rparr>) }"

text \<open>The first part of \<open>Pop\<close> makes \<open>active[offset]\<close> the last element.\<close>

definition stepBack :: "('p, 'v) sstack \<Rightarrow> ('p, 'v) sstack option" where
  "stepBack s =
     (let s = s\<lparr>size_of := size_of s - 1, offset := offset s - 1\<rparr> in
      if offset s < 0
      then activate (goDiv (size_of s) (int blockSize)) (s\<lparr>offset := int blockSize - 1\<rparr>)
      else Some s)"

definition sstack_Pop :: "('p, 'v) sstack \<Rightarrow> (('p, 'v) item option \<times> ('p, 'v) sstack) option" where
  "sstack_Pop s = do {
     s \<leftarrow> stepBack s;
     res \<leftarrow> getActive s;
     s \<leftarrow> setActive s None;
     Some (res, s) }"

definition Len :: "('p, 'v) sstack \<Rightarrow> int" where
  "Len s = size_of s"

text \<open>\<open>blocks[i/blockSize][i%blockSize]\<close>, for a non-negative index.\<close>

definition slot :: "('p, 'v) sstack \<Rightarrow> nat \<Rightarrow> ('p, 'v) item option option" where
  "slot s i =
     (if i div blockSize < length (blocks s) \<and> i mod blockSize < length (blocks s ! (i div blockSize))
      then Some (blocks s ! (i div blockSize) ! (i mod blockSize)) else None)"

definition setSlot :: "('p, 'v) sstack \<Rightarrow> nat \<Rightarrow> ('p, 'v) item option \<Rightarrow> ('p, 'v) sstack" where
  "setSlot s i x =
     s\<lparr>blocks := (blocks s)[i div blockSize := (blocks s ! (i div blockSize))[i mod blockSize := x]]\<rparr>"

definition Less :: "('p::linorder, 'v) sstack \<Rightarrow> nat \<Rightarrow> nat \<Rightarrow> bool option" where
  "Less s i j = do {
     a \<leftarrow> slot s i; a \<leftarrow> a;
     b \<leftarrow> slot s j; b \<leftarrow> b;
     Some (priority b < priority a) }"

definition Swap :: "('p, 'v) sstack \<Rightarrow> nat \<Rightarrow> nat \<Rightarrow> ('p, 'v) sstack option" where
  "Swap s i j = do {
     a \<leftarrow> slot s j;
     b \<leftarrow> slot s i;
     Some (setSlot (setSlot s i a) j b) }"

section \<open>The heap operations\<close>

function up :: "('p::linorder, 'v) sstack \<Rightarrow> nat \<Rightarrow> ('p, 'v) sstack option" where
  "up s j =
     (let i = (j - 1) div 2 in
      if i = j then Some s
      else do {
        lt \<leftarrow> Less s j i;
        if \<not> lt then Some s else do { s \<leftarrow> Swap s i j; up s i } })"
  by pat_completeness auto
termination by (relation "measure snd") auto

text \<open>The result also says whether the element moved. The overflow test \<open>j1 < 0\<close> of the source
  concerns \<open>2^62\<close> elements and is left out.\<close>

function down :: "('p::linorder, 'v) sstack \<Rightarrow> nat \<Rightarrow> nat \<Rightarrow> nat \<Rightarrow> (bool \<times> ('p, 'v) sstack) option" where
  "down s i0 i n =
     (let j1 = 2 * i + 1; j2 = j1 + 1 in
      if n \<le> j1 then Some (i0 < i, s)
      else do {
        right \<leftarrow> (if j2 < n then Less s j2 j1 else Some False);
        let j = (if j2 < n \<and> right then j2 else j1);
        lt \<leftarrow> Less s j i;
        if \<not> lt then Some (i0 < i, s) else do { s \<leftarrow> Swap s i j; down s i0 j n } })"
  by pat_completeness auto
termination by (relation "measure (\<lambda>(s, i0, i, n). n - i)") auto

declare up.simps [simp del] down.simps [simp del]

definition heap_Push :: "('p::linorder, 'v) sstack \<Rightarrow> ('p, 'v) item \<Rightarrow> ('p, 'v) sstack option" where
  "heap_Push s x = do {
     s \<leftarrow> sstack_Push s x;
     up s (nat (Len s - 1)) }"

text \<open>On an empty heap \<open>Swap(0, -1)\<close> panics.\<close>

definition heap_Pop :: "('p::linorder, 'v) sstack \<Rightarrow> (('p, 'v) item option \<times> ('p, 'v) sstack) option" where
  "heap_Pop s = (let n = Len s - 1 in
     if n < 0 then None
     else do {
       s \<leftarrow> Swap s 0 (nat n);
       (_, s) \<leftarrow> down s 0 0 (nat n);
       sstack_Pop s })"

text \<open>For an index outside the heap \<open>Swap\<close> panics or swaps a slot beyond the elements; callers
  only pass indexes of elements.\<close>

definition heap_Remove :: "('p::linorder, 'v) sstack \<Rightarrow> nat \<Rightarrow> (('p, 'v) item option \<times> ('p, 'v) sstack) option" where
  "heap_Remove s i = (let n = Len s - 1 in
     if n < 0 then None
     else do {
       s \<leftarrow> (if nat n \<noteq> i
            then do {
              s \<leftarrow> Swap s i (nat n);
              (moved, s) \<leftarrow> down s i i (nat n);
              if \<not> moved then up s i else Some s }
            else Some s);
       sstack_Pop s })"

section \<open>The queue\<close>

record ('p, 'v) Prque =
  cont :: "('p, 'v) sstack"

definition NewPrque :: "('p, 'v) Prque" where
  "NewPrque = \<lparr>cont = newSstack\<rparr>"

definition Push :: "('p::linorder, 'v) Prque \<Rightarrow> 'v \<Rightarrow> 'p \<Rightarrow> ('p, 'v) Prque option" where
  "Push q data p = do {
     s \<leftarrow> heap_Push (cont q) \<lparr>value_of = data, priority = p\<rparr>;
     Some (q\<lparr>cont := s\<rparr>) }"

definition Peek :: "('p, 'v) Prque \<Rightarrow> ('v \<times> 'p) option" where
  "Peek q = do {
     x \<leftarrow> slot (cont q) 0; x \<leftarrow> x;
     Some (value_of x, priority x) }"

definition Pop :: "('p::linorder, 'v) Prque \<Rightarrow> (('v \<times> 'p) \<times> ('p, 'v) Prque) option" where
  "Pop q = do {
     (x, s) \<leftarrow> heap_Pop (cont q); x \<leftarrow> x;
     Some ((value_of x, priority x), q\<lparr>cont := s\<rparr>) }"

definition PopItem :: "('p::linorder, 'v) Prque \<Rightarrow> ('v \<times> ('p, 'v) Prque) option" where
  "PopItem q = do {
     (x, s) \<leftarrow> heap_Pop (cont q); x \<leftarrow> x;
     Some (value_of x, q\<lparr>cont := s\<rparr>) }"

definition Remove :: "('p::linorder, 'v) Prque \<Rightarrow> nat \<Rightarrow> ('v \<times> ('p, 'v) Prque) option" where
  "Remove q i = do {
     (x, s) \<leftarrow> heap_Remove (cont q) i; x \<leftarrow> x;
     Some (value_of x, q\<lparr>cont := s\<rparr>) }"

definition Empty :: "('p, 'v) Prque \<Rightarrow> bool" where
  "Empty q = (Len (cont q) = 0)"

definition PrqueSize :: "('p, 'v) Prque \<Rightarrow> int" where
  "PrqueSize q = Len (cont q)"

definition Reset :: "('p, 'v) Prque \<Rightarrow> ('p, 'v) Prque" where
  "Reset q = NewPrque"

section \<open>The stack refines a list\<close>

lemma blockSize_pos [simp]: "0 < blockSize" "int blockSize \<noteq> 0"
  by (simp_all add: blockSize_def)

lemma blockSize_ge: "Suc 0 \<le> blockSize"
  by (simp add: blockSize_def)

lemma length_newBlock [simp]: "length newBlock = blockSize"
  by (simp add: newBlock_def)

lemma concat_nth:
  assumes "\<forall>b \<in> set bs. length b = B" "0 < B" "i < length bs * B"
  shows "concat bs ! i = bs ! (i div B) ! (i mod B)"
  using assms
proof (induction bs arbitrary: i)
  case (Cons b bs)
  show ?case
  proof (cases "i < B")
    case False
    then have "i div B = Suc ((i - B) div B)" "i mod B = (i - B) mod B"
      using Cons.prems(2) by (simp_all add: le_div_geq le_mod_geq)
    with False Cons show ?thesis by (simp add: nth_append)
  qed (use Cons.prems in \<open>simp add: nth_append\<close>)
qed simp

lemma length_concat_blocks:
  "\<forall>b \<in> set bs. length b = B \<Longrightarrow> length (concat bs) = length bs * B"
  by (induction bs) auto

lemma concat_update:
  assumes "\<forall>b \<in> set bs. length b = B" "0 < B" "i < length bs * B"
  shows "concat (bs[i div B := (bs ! (i div B))[i mod B := x]]) = (concat bs)[i := x]"
proof (rule nth_equalityI)
  have i: "i div B < length bs" using assms(3) by (simp add: less_mult_imp_div_less)
  let ?bs = "bs[i div B := (bs ! (i div B))[i mod B := x]]"
  have all: "\<forall>b \<in> set ?bs. length b = B"
    using assms(1) i by (metis in_set_conv_nth length_list_update nth_list_update_eq nth_list_update_neq)
  show len: "length (concat ?bs) = length ((concat bs)[i := x])"
    by (simp add: length_concat_blocks [OF all] length_concat_blocks [OF assms(1)])
  fix k assume "k < length (concat ?bs)"
  then have k: "k < length bs * B" unfolding length_concat_blocks [OF all] by simp
  have lhs: "concat ?bs ! k = ?bs ! (k div B) ! (k mod B)"
    using concat_nth [OF all assms(2), of k] k by simp
  have rhs: "concat bs ! k = bs ! (k div B) ! (k mod B)" by (rule concat_nth [OF assms(1,2) k])
  have im: "i mod B < length (bs ! (i div B))" using assms(1,2) i by simp
  show "concat ?bs ! k = (concat bs)[i := x] ! k"
  proof (cases "k = i")
    case True
    with i im k show ?thesis unfolding lhs by (simp add: length_concat_blocks [OF assms(1)])
  next
    case False
    then have "k div B \<noteq> i div B \<or> k mod B \<noteq> i mod B" by (metis div_mult_mod_eq)
    with False i show ?thesis unfolding lhs by (auto simp: rhs nth_list_update)
  qed
qed

text \<open>The representation invariant, and the list of elements the stack stands for.\<close>

definition flat :: "('p, 'v) sstack \<Rightarrow> ('p, 'v) item option list" where
  "flat s = concat (blocks s)"

definition items :: "('p, 'v) sstack \<Rightarrow> ('p, 'v) item list" where
  "items s = map the (take (nat (size_of s)) (flat s))"

definition sstack_inv :: "('p, 'v) sstack \<Rightarrow> bool" where
  "sstack_inv s \<longleftrightarrow>
     (\<forall>b \<in> set (blocks s). length b = blockSize) \<and>
     capacity s = int (length (blocks s) * blockSize) \<and>
     active s < length (blocks s) \<and>
     0 \<le> offset s \<and> offset s \<le> int blockSize \<and>
     size_of s = int (active s * blockSize) + offset s \<and>
     (\<forall>i < nat (size_of s). flat s ! i \<noteq> None)"

lemma sstack_invD:
  assumes "sstack_inv s"
  shows "\<forall>b \<in> set (blocks s). length b = blockSize"
    and "capacity s = int (length (blocks s) * blockSize)"
    and "active s < length (blocks s)" "0 \<le> offset s" "offset s \<le> int blockSize"
    and "size_of s = int (active s * blockSize) + offset s"
    and "i < nat (size_of s) \<Longrightarrow> flat s ! i \<noteq> None"
    and "length (flat s) = length (blocks s) * blockSize"
    and "nat (size_of s) \<le> length (flat s)" "0 \<le> size_of s"
proof -
  show "nat (size_of s) \<le> length (flat s)"
  proof -
    have "active s * blockSize + blockSize \<le> length (blocks s) * blockSize"
      using assms by (metis Suc_leI add.commute mult_Suc mult_le_mono1 sstack_inv_def)
    then have "int (active s * blockSize) + int blockSize \<le> int (length (blocks s) * blockSize)"
      by (metis of_nat_add of_nat_le_iff)
    moreover have "length (flat s) = length (blocks s) * blockSize"
      using assms by (simp add: sstack_inv_def flat_def length_concat_blocks)
    moreover have "size_of s \<le> int (active s * blockSize) + int blockSize"
      using assms by (simp add: sstack_inv_def)
    ultimately have "size_of s \<le> int (length (flat s))" by (simp only:)
    then show ?thesis by simp
  qed
qed (use assms in \<open>simp_all add: sstack_inv_def flat_def length_concat_blocks\<close>)

lemma length_items: "sstack_inv s \<Longrightarrow> length (items s) = nat (size_of s)"
  using sstack_invD(9) [of s] by (simp add: items_def)

lemma items_nth: "sstack_inv s \<Longrightarrow> i < nat (size_of s) \<Longrightarrow> items s ! i = the (flat s ! i)"
  using sstack_invD(9) [of s] by (simp add: items_def)

lemma newSstack_inv [simp]: "sstack_inv newSstack" "items newSstack = []"
  by (simp_all add: sstack_inv_def items_def newSstack_def)

lemma slot_flat:
  assumes "sstack_inv s" "i < length (flat s)"
  shows "slot s i = Some (flat s ! i)"
proof -
  have "i div blockSize < length (blocks s)"
    using assms sstack_invD(8) [OF assms(1)] by (simp add: less_mult_imp_div_less)
  with assms show ?thesis
    using sstack_invD(1,8) [OF assms(1)] concat_nth [OF sstack_invD(1) [OF assms(1)] blockSize_pos(1)]
    by (simp add: slot_def flat_def)
qed

lemma slot_item:
  assumes "sstack_inv s" "i < length (items s)"
  shows "slot s i = Some (Some (items s ! i))"
proof -
  have "i < nat (size_of s)" using assms by (simp add: length_items)
  then show ?thesis
    using assms sstack_invD(7,9) [OF assms(1)] by (auto simp: slot_flat items_nth)
qed

lemma setSlot_flat:
  assumes "sstack_inv s" "i < length (flat s)"
  shows "flat (setSlot s i x) = (flat s)[i := x]"
  using assms concat_update [OF sstack_invD(1) [OF assms(1)] blockSize_pos(1)] sstack_invD(8) [OF assms(1)]
  by (simp add: setSlot_def flat_def)

lemma setSlot_fields [simp]:
  "size_of (setSlot s i x) = size_of s" "capacity (setSlot s i x) = capacity s"
  "offset (setSlot s i x) = offset s" "active (setSlot s i x) = active s"
  "length (blocks (setSlot s i x)) = length (blocks s)"
  by (simp_all add: setSlot_def)

lemma setSlot_blocks:
  assumes "sstack_inv s" "i < length (flat s)" "b \<in> set (blocks (setSlot s i x))"
  shows "length b = blockSize"
proof -
  have "i div blockSize < length (blocks s)"
    using assms sstack_invD(8) [OF assms(1)] by (simp add: less_mult_imp_div_less)
  then have "length (blocks s ! (i div blockSize)) = blockSize" using sstack_invD(1) [OF assms(1)] by simp
  moreover have "b = (blocks s ! (i div blockSize))[i mod blockSize := x] \<or> b \<in> set (blocks s)"
    using assms(3) set_update_subset_insert by (fastforce simp: setSlot_def)
  ultimately show ?thesis using sstack_invD(1) [OF assms(1)] by auto
qed

lemma setSlot_inv:
  assumes "sstack_inv s" "i < length (flat s)" "x \<noteq> None \<or> nat (size_of s) \<le> i"
  shows "sstack_inv (setSlot s i x)"
proof -
  have "flat (setSlot s i x) ! k \<noteq> None" if "k < nat (size_of s)" for k
    using that assms sstack_invD(7) [OF assms(1) that]
    by (cases "k = i") (auto simp: setSlot_flat)
  then show ?thesis
    using assms setSlot_blocks [OF assms(1,2), where x = x] by (simp add: sstack_inv_def)
qed

lemma items_setSlot:
  assumes "sstack_inv s" "i < length (items s)"
  shows "sstack_inv (setSlot s i (Some x))" "items (setSlot s i (Some x)) = (items s)[i := x]"
proof -
  have i: "i < length (flat s)" using assms sstack_invD(9) [OF assms(1)] by (simp add: length_items)
  show "sstack_inv (setSlot s i (Some x))" using assms(1) i by (simp add: setSlot_inv)
  show "items (setSlot s i (Some x)) = (items s)[i := x]"
    by (simp add: items_def setSlot_flat [OF assms(1) i] take_update_swap map_update)
qed

definition swapL :: "'a list \<Rightarrow> nat \<Rightarrow> nat \<Rightarrow> 'a list" where
  "swapL xs i j = xs[i := xs ! j, j := xs ! i]"

lemma length_swapL [simp]: "length (swapL xs i j) = length xs"
  by (simp add: swapL_def)

lemma swapL_nth:
  "i < length xs \<Longrightarrow> j < length xs \<Longrightarrow> k < length xs \<Longrightarrow>
     swapL xs i j ! k = (if k = i then xs ! j else if k = j then xs ! i else xs ! k)"
  by (auto simp: swapL_def nth_list_update)

lemma mset_swapL [simp]: "i < length xs \<Longrightarrow> j < length xs \<Longrightarrow> mset (swapL xs i j) = mset xs"
  by (simp add: swapL_def mset_swap)

lemma Less_items:
  "sstack_inv s \<Longrightarrow> i < length (items s) \<Longrightarrow> j < length (items s) \<Longrightarrow>
     Less s i j = Some (priority (items s ! j) < priority (items s ! i))"
  by (simp add: Less_def slot_item)

lemma Swap_items:
  assumes "sstack_inv s" "i < length (items s)" "j < length (items s)"
  obtains s' where "Swap s i j = Some s'" "sstack_inv s'" "items s' = swapL (items s) i j"
proof
  let ?s = "setSlot s i (Some (items s ! j))"
  show "Swap s i j = Some (setSlot ?s j (Some (items s ! i)))"
    using assms by (simp add: Swap_def slot_item)
  note 1 = items_setSlot [OF assms(1,2), of "items s ! j"]
  then have "j < length (items ?s)" using assms(3) by simp
  note 2 = items_setSlot [OF 1(1) this, of "items s ! i"]
  show "sstack_inv (setSlot ?s j (Some (items s ! i)))" by (rule 2(1))
  show "items (setSlot ?s j (Some (items s ! i))) = swapL (items s) i j"
    unfolding 2(2) 1(2) swapL_def by (rule refl)
qed

lemma active_slot:
  assumes "sstack_inv s" "offset s < int blockSize"
  shows "nat (size_of s) < length (flat s)"
    and "setActive s x = Some (setSlot s (nat (size_of s)) x)"
    and "getActive s = Some (flat s ! nat (size_of s))"
proof -
  note d = sstack_invD [OF assms(1)]
  have n: "nat (size_of s) = active s * blockSize + nat (offset s)" "nat (offset s) < blockSize"
    using d(4,6) assms(2) by (simp_all add: nat_add_distrib nat_mult_distrib)
  then have dm: "nat (size_of s) div blockSize = active s" "nat (size_of s) mod blockSize = nat (offset s)"
    by simp_all
  have "active s * blockSize + blockSize \<le> length (blocks s) * blockSize"
    using d(3) by (metis Suc_leI add.commute mult_Suc mult_le_mono1)
  then show l: "nat (size_of s) < length (flat s)" using n d(8) by linarith
  have len: "length (blocks s ! active s) = blockSize" using d(1,3) by simp
  show "setActive s x = Some (setSlot s (nat (size_of s)) x)"
    using d(3,4) n(2) len by (simp add: setActive_def setSlot_def dm)
  show "getActive s = Some (flat s ! nat (size_of s))"
    using d(3,4) n(2) len concat_nth [OF d(1) blockSize_pos(1), of "nat (size_of s)"] l d(8)
    by (simp add: getActive_def dm flat_def)
qed

lemma goDiv_blocks: "0 \<le> a \<Longrightarrow> goDiv a (int blockSize) = int (nat a div blockSize)"
  by (simp add: goDiv_nonneg zdiv_int)

lemma makeRoom_grow:
  assumes "sstack_inv s" "size_of s = capacity s"
  shows "\<exists>s'. makeRoom s = Some s' \<and> sstack_inv s' \<and> offset s' < int blockSize \<and>
           size_of s' = size_of s \<and> items s' = items s"
proof -
  note d = sstack_invD [OF assms(1)]
  let ?s = "s\<lparr>active := length (blocks s), blocks := blocks s @ [newBlock],
              capacity := capacity s + int blockSize, offset := 0\<rparr>"
  have "flat ?s = flat s @ newBlock" by (simp add: flat_def)
  then have f: "take (nat (size_of s)) (flat ?s) = take (nat (size_of s)) (flat s)"
    "\<And>i. i < nat (size_of s) \<Longrightarrow> flat ?s ! i = flat s ! i"
    using d(9) by (simp_all add: nth_append)
  have "sstack_inv ?s"
    using d f(2) assms(2) unfolding sstack_inv_def [of ?s] by (auto simp: algebra_simps)
  with f(1) assms(2) show ?thesis by (simp add: makeRoom_def items_def)
qed

lemma makeRoom_next:
  assumes "sstack_inv s" "size_of s \<noteq> capacity s" "offset s = int blockSize"
  shows "\<exists>s'. makeRoom s = Some s' \<and> sstack_inv s' \<and> offset s' < int blockSize \<and>
           size_of s' = size_of s \<and> items s' = items s"
proof -
  note d = sstack_invD [OF assms(1)]
  have n: "nat (size_of s) = Suc (active s) * blockSize"
    using d(6) assms(3) by (simp add: nat_add_distrib nat_mult_distrib)
  then have "nat (size_of s) div blockSize = Suc (active s)" by simp
  moreover have "size_of s = int (Suc (active s) * blockSize)" using d(6) assms(3) by simp
  then have "Suc (active s) \<noteq> length (blocks s)" using d(2) assms(2) by metis
  then have "Suc (active s) < length (blocks s)" using d(3) by simp
  ultimately have m: "makeRoom s = Some (s\<lparr>active := Suc (active s), offset := 0\<rparr>)"
    using assms(2,3) d(10) by (simp add: makeRoom_def activate_def goDiv_blocks del: mult_Suc)
  have "sstack_inv (s\<lparr>active := Suc (active s), offset := 0\<rparr>)"
    using assms(1,3) \<open>Suc (active s) < length (blocks s)\<close>
    by (simp add: sstack_inv_def flat_def algebra_simps)
  then show ?thesis unfolding m by (simp add: items_def flat_def)
qed

lemma makeRoom_ok:
  assumes "sstack_inv s"
  shows "\<exists>s'. makeRoom s = Some s' \<and> sstack_inv s' \<and> offset s' < int blockSize \<and>
           size_of s' = size_of s \<and> items s' = items s"
  using makeRoom_grow [OF assms] makeRoom_next [OF assms] sstack_invD(5) [OF assms] assms
  by (cases "size_of s = capacity s"; cases "offset s = int blockSize") (auto simp: makeRoom_def)

lemma sstack_Push_items:
  assumes "sstack_inv s"
  obtains s' where "sstack_Push s x = Some s'" "sstack_inv s'" "items s' = items s @ [x]"
proof -
  obtain r where r: "makeRoom s = Some r" "sstack_inv r" "offset r < int blockSize"
      "size_of r = size_of s" "items r = items s"
    using makeRoom_ok [OF assms] by blast
  note d = sstack_invD [OF r(2)]
  note a = active_slot [OF r(2,3)]
  let ?n = "nat (size_of r)"
  let ?r = "setSlot r ?n (Some x)"
  let ?s' = "?r\<lparr>offset := offset r + 1, size_of := size_of r + 1\<rparr>"
  have f: "flat ?s' = (flat r)[?n := Some x]"
    using setSlot_flat [OF r(2) a(1)] by (simp add: flat_def)
  have n: "nat (size_of r + 1) = Suc ?n" using d(10) by simp
  have inv: "sstack_inv ?s'"
  proof -
    have "flat ?s' ! k \<noteq> None" if "k < Suc ?n" for k
      unfolding f using that a(1) d(7) [of k] by (cases "k = ?n") auto
    then show ?thesis
      using setSlot_inv [OF r(2) a(1), of "Some x"] r(3) n by (simp add: sstack_inv_def)
  qed
  have "items ?s' = items r @ [x]"
    using a(1) by (simp add: items_def n take_Suc_conv_app_nth f [simplified])
  moreover have "sstack_Push s x = Some ?s'" by (simp add: sstack_Push_def r(1) a(2))
  ultimately show thesis using that inv r(5) by simp
qed

lemma stepBack_items:
  assumes "sstack_inv s" "items s \<noteq> []"
  shows "\<exists>r. stepBack s = Some r \<and> sstack_inv r \<and> offset r < int blockSize \<and>
           size_of r = size_of s - 1 \<and> flat r = flat s"
proof (cases "offset s = 0")
  case False
  then have "0 \<le> offset s - 1" using sstack_invD(4) [OF assms(1)] by simp
  moreover from this have "sstack_inv (s\<lparr>size_of := size_of s - 1, offset := offset s - 1\<rparr>)"
    using assms(1) by (simp add: sstack_inv_def flat_def)
  ultimately show ?thesis using sstack_invD(5) [OF assms(1)] by (simp add: stepBack_def flat_def)
next
  case o: True
  note d = sstack_invD [OF assms(1)]
  have pos: "0 < size_of s" using assms(2) length_items [OF assms(1)] by (cases "0 < size_of s") auto
  with o d(6) obtain k where k: "active s = Suc k" by (cases "active s") auto
  have sz: "nat (size_of s) = Suc k * blockSize"
    using d(6) o k by (simp only: add_0_right nat_int)
  have "nat (size_of s - 1) = nat (size_of s) - 1" by simp
  also have "\<dots> = k * blockSize + (blockSize - 1)" unfolding sz mult_Suc using blockSize_pos(1) by linarith
  finally have "nat (size_of s - 1) div blockSize = k + (blockSize - 1) div blockSize"
    by (metis blockSize_pos(1) div_mult_self3 less_irrefl)
  then have "nat (size_of s - 1) div blockSize = k" using blockSize_pos(1) by simp
  then have e: "goDiv (size_of s - 1) (int blockSize) = int k"
    using pos by (simp add: goDiv_blocks)
  let ?r = "s\<lparr>size_of := size_of s - 1, offset := int blockSize - 1, active := k\<rparr>"
  have "sstack_inv ?r"
    using assms(1) k o blockSize_ge unfolding sstack_inv_def flat_def by (simp add: algebra_simps)
  moreover have "stepBack s = Some ?r"
    using o d(3) k by (simp add: stepBack_def e activate_def)
  ultimately show ?thesis by (auto simp: flat_def)
qed

lemma sstack_Pop_items:
  assumes "sstack_inv s" "items s \<noteq> []"
  obtains s' where "sstack_Pop s = Some (Some (last (items s)), s')" "sstack_inv s'"
    "items s' = butlast (items s)"
proof -
  obtain r where r: "stepBack s = Some r" "sstack_inv r" "offset r < int blockSize"
    "size_of r = size_of s - 1" "flat r = flat s"
    using stepBack_items [OF assms] by blast
  note a = active_slot [OF r(2,3)]
  let ?n = "nat (size_of r)"
  have n: "nat (size_of s) = Suc ?n"
    using r(4) assms(2) length_items [OF assms(1)] by (cases "0 < size_of s") auto
  have "flat s ! ?n = Some (last (items s))"
    using sstack_invD(7) [OF assms(1), of ?n] items_nth [OF assms(1), of ?n] n length_items [OF assms(1)] assms(2)
    by (auto simp: last_conv_nth)
  then have "sstack_Pop s = Some (Some (last (items s)), setSlot r ?n None)"
    using r(1) by (simp add: sstack_Pop_def a(2,3) r(5))
  moreover have "sstack_inv (setSlot r ?n None)" by (rule setSlot_inv [OF r(2) a(1)]) simp
  moreover have "items (setSlot r ?n None) = butlast (items s)"
    using a(1) n by (simp add: items_def setSlot_flat [OF r(2) a(1)] r(5) take_Suc_conv_app_nth)
  ultimately show thesis using that by blast
qed

section \<open>Heaps on lists\<close>

text \<open>The list functions that \<open>up\<close> and \<open>down\<close> implement, over a key function.\<close>

definition parent :: "nat \<Rightarrow> nat" where "parent j = (j - 1) div 2"

lemma parent_less [simp]: "0 < c \<Longrightarrow> parent c < c"
  by (auto simp: parent_def)

lemma parent_self [simp]: "parent c = c \<longleftrightarrow> c = 0"
  by (auto simp: parent_def)

lemma parent_child: "0 < c \<Longrightarrow> parent c = i \<longleftrightarrow> c = 2 * i + 1 \<or> c = 2 * i + 2"
  by (auto simp: parent_def)

function upL :: "('a \<Rightarrow> 'p::linorder) \<Rightarrow> 'a list \<Rightarrow> nat \<Rightarrow> 'a list" where
  "upL k xs j =
     (if parent j = j \<or> \<not> k (xs ! parent j) < k (xs ! j) then xs
      else upL k (swapL xs (parent j) j) (parent j))"
  by pat_completeness auto
termination by (relation "measure (\<lambda>(k, xs, j). j)") (auto simp: parent_def)

definition largerChild :: "('a \<Rightarrow> 'p::linorder) \<Rightarrow> 'a list \<Rightarrow> nat \<Rightarrow> nat \<Rightarrow> nat" where
  "largerChild k xs i n =
     (if 2 * i + 2 < n \<and> k (xs ! (2 * i + 1)) < k (xs ! (2 * i + 2)) then 2 * i + 2 else 2 * i + 1)"

function downL :: "('a \<Rightarrow> 'p::linorder) \<Rightarrow> 'a list \<Rightarrow> nat \<Rightarrow> nat \<Rightarrow> 'a list" where
  "downL k xs i n =
     (if n \<le> 2 * i + 1 \<or> \<not> k (xs ! i) < k (xs ! largerChild k xs i n) then xs
      else downL k (swapL xs i (largerChild k xs i n)) (largerChild k xs i n) n)"
  by pat_completeness auto
termination by (relation "measure (\<lambda>(k, xs, i, n). n - i)") (auto simp: largerChild_def)

declare upL.simps [simp del] downL.simps [simp del]

text \<open>The first \<open>n\<close> elements are a heap; a heap except for the edge above \<open>j\<close>; a heap except for
  the edges below \<open>i\<close>.\<close>

definition heap :: "('a \<Rightarrow> 'p::linorder) \<Rightarrow> 'a list \<Rightarrow> nat \<Rightarrow> bool" where
  "heap k xs n \<longleftrightarrow> (\<forall>c. 0 < c \<longrightarrow> c < n \<longrightarrow> k (xs ! c) \<le> k (xs ! parent c))"

definition heapUp :: "('a \<Rightarrow> 'p::linorder) \<Rightarrow> 'a list \<Rightarrow> nat \<Rightarrow> nat \<Rightarrow> bool" where
  "heapUp k xs n j \<longleftrightarrow>
     (\<forall>c. 0 < c \<longrightarrow> c < n \<longrightarrow> c \<noteq> j \<longrightarrow> k (xs ! c) \<le> k (xs ! parent c)) \<and>
     (\<forall>c. 0 < c \<longrightarrow> c < n \<longrightarrow> parent c = j \<longrightarrow> 0 < j \<longrightarrow> k (xs ! c) \<le> k (xs ! parent j))"

definition heapDown :: "('a \<Rightarrow> 'p::linorder) \<Rightarrow> 'a list \<Rightarrow> nat \<Rightarrow> nat \<Rightarrow> bool" where
  "heapDown k xs n i \<longleftrightarrow>
     (\<forall>c. 0 < c \<longrightarrow> c < n \<longrightarrow> parent c \<noteq> i \<longrightarrow> k (xs ! c) \<le> k (xs ! parent c)) \<and>
     (\<forall>c. 0 < c \<longrightarrow> c < n \<longrightarrow> parent c = i \<longrightarrow> 0 < i \<longrightarrow> k (xs ! c) \<le> k (xs ! parent i))"

lemma heap_root:
  "heap k xs n \<Longrightarrow> c < n \<Longrightarrow> k (xs ! c) \<le> k (xs ! 0)"
proof (induction c rule: less_induct)
  case (less c)
  show ?case
  proof (cases "c = 0")
    case False
    then have "k (xs ! c) \<le> k (xs ! parent c)" using less.prems by (simp add: heap_def)
    also have "\<dots> \<le> k (xs ! 0)" using less.IH [of "parent c"] less.prems False parent_less [of c]
      by (meson less_trans neq0_conv)
    finally show ?thesis .
  qed simp
qed

lemma length_upL [simp]: "length (upL k xs j) = length xs"
  by (induction k xs j rule: upL.induct) (subst upL.simps, auto)

lemma length_downL [simp]: "length (downL k xs i n) = length xs"
  by (induction k xs i n rule: downL.induct) (subst downL.simps, auto)

lemma mset_upL: "j < length xs \<Longrightarrow> mset (upL k xs j) = mset xs"
proof (induction k xs j rule: upL.induct)
  case (1 k xs j)
  have "parent j \<le> j" by (simp add: parent_def)
  with 1 show ?case by (subst upL.simps) auto
qed

lemma largerChild_bounds:
  "2 * i + 1 < n \<Longrightarrow> i < largerChild k xs i n" "2 * i + 1 < n \<Longrightarrow> largerChild k xs i n < n"
  "parent (largerChild k xs i n) = i"
  by (auto simp: largerChild_def parent_def)

lemma mset_downL: "i < length xs \<Longrightarrow> n \<le> length xs \<Longrightarrow> mset (downL k xs i n) = mset xs"
proof (induction k xs i n rule: downL.induct)
  case (1 k xs i n)
  then show ?case using largerChild_bounds(2) [of i n k xs]
    by (subst downL.simps) auto
qed

lemma downL_above: "n \<le> length xs \<Longrightarrow> n \<le> c \<Longrightarrow> i < n \<Longrightarrow> downL k xs i n ! c = xs ! c"
proof (induction k xs i n rule: downL.induct)
  case (1 k xs i n)
  show ?case
  proof (cases "n \<le> 2 * i + 1 \<or> \<not> k (xs ! i) < k (xs ! largerChild k xs i n)")
    case False
    then have b: "largerChild k xs i n < n" using largerChild_bounds(2) [of i n k xs] by simp
    then have "swapL xs i (largerChild k xs i n) ! c = xs ! c"
      using 1 by (auto simp: swapL_def)
    with 1 False b show ?thesis by (subst downL.simps) simp
  qed (subst downL.simps, simp)
qed

lemma heapUp_step:
  assumes "heapUp k xs n j" "0 < j" "j < n" "n \<le> length xs" "k (xs ! parent j) < k (xs ! j)"
  shows "heapUp k (swapL xs (parent j) j) n (parent j)"
proof -
  let ?p = "parent j" and ?ys = "swapL xs (parent j) j"
  have p: "?p < j" "?p < length xs" "j < length xs" using assms(2-4) parent_less [of j] by linarith+
  have ys: "?ys ! c = (if c = ?p then xs ! j else if c = j then xs ! ?p else xs ! c)"
    if "c < n" for c using that p assms(4) by (intro swapL_nth) auto
  have h: "k (xs ! c) \<le> k (xs ! parent c)" if "0 < c" "c < n" "c \<noteq> j" for c
    using assms(1) that by (simp add: heapUp_def)
  have ch: "k (xs ! c) \<le> k (xs ! ?p)" if "0 < c" "c < n" "parent c = j" for c
    using assms(1,2) that by (simp add: heapUp_def)
  have "k (?ys ! c) \<le> k (?ys ! parent c)" if c: "0 < c" "c < n" "c \<noteq> ?p" for c
  proof -
    have q: "parent c < c" "parent c < n" using c parent_less [of c] by linarith+
    consider "c = j" | "c \<noteq> j" "parent c = j" | "c \<noteq> j" "parent c = ?p" | "c \<noteq> j" "parent c \<noteq> j" "parent c \<noteq> ?p"
      by blast
    then show ?thesis
    proof cases
      case 1
      with p(1) assms(3,5) show ?thesis by (simp add: ys)
    next
      case 2
      with ch [of c] c p(1) assms(3) show ?thesis by (simp add: ys)
    next
      case 3
      then have "k (xs ! c) \<le> k (xs ! ?p)" using h [of c] c by simp
      with 3 c q assms(5) show ?thesis by (auto simp: ys)
    next
      case 4
      with h [of c] c q show ?thesis by (simp add: ys)
    qed
  qed
  moreover have "k (?ys ! c) \<le> k (?ys ! parent ?p)"
    if c: "0 < c" "c < n" "parent c = ?p" "0 < ?p" for c
  proof -
    have pp: "parent ?p < ?p" "parent ?p < n" "?p < n"
      using c p(1) assms(3) parent_less [of ?p] by linarith+
    have 1: "k (xs ! ?p) \<le> k (xs ! parent ?p)" using h [of ?p] pp c(4) p(1) by simp
    have 2: "k (xs ! c) \<le> k (xs ! ?p)" if "c \<noteq> j" using h [of c] that c by simp
    have "c \<noteq> ?p" using c parent_less [of c] by auto
    then show ?thesis
    proof (cases "c = j")
      case True
      with pp p(1) 1 assms(3) show ?thesis by (simp add: ys)
    next
      case False
      with pp p(1) 1 2 \<open>c \<noteq> ?p\<close> show ?thesis by (auto simp: ys c(2))
    qed
  qed
  ultimately show ?thesis unfolding heapUp_def by blast
qed

lemma heap_upL:
  "heapUp k xs n j \<Longrightarrow> j < n \<Longrightarrow> n \<le> length xs \<Longrightarrow> heap k (upL k xs j) n"
proof (induction k xs j rule: upL.induct)
  case (1 k xs j)
  show ?case
  proof (cases "parent j = j \<or> \<not> k (xs ! parent j) < k (xs ! j)")
    case True
    then have "j = 0 \<or> k (xs ! j) \<le> k (xs ! parent j)" by (auto simp: not_less)
    with 1(2) have "heap k xs n" by (auto simp: heap_def heapUp_def)
    with True show ?thesis by (subst upL.simps) simp
  next
    case False
    then have "0 < j" by (cases j) auto
    with heapUp_step [OF 1(2) _ 1(3,4)] False have "heapUp k (swapL xs (parent j) j) n (parent j)" by simp
    moreover have "parent j < n" using parent_less [OF \<open>0 < j\<close>] 1(3) by linarith
    ultimately show ?thesis using False 1(1) [OF False] 1(3,4) by (subst upL.simps) simp
  qed
qed

lemma heapDown_step:
  assumes "heapDown k xs n i" "2 * i + 1 < n" "n \<le> length xs"
  defines "m \<equiv> largerChild k xs i n"
  assumes "k (xs ! i) < k (xs ! m)"
  shows "heapDown k (swapL xs i m) n m"
proof -
  let ?ys = "swapL xs i m"
  have m: "i < m" "m < n" "parent m = i"
    using largerChild_bounds(1,2) [OF assms(2), of k xs] largerChild_bounds(3) by (simp_all add: m_def)
  have ys: "?ys ! c = (if c = i then xs ! m else if c = m then xs ! i else xs ! c)" if "c < n" for c
    using that m assms(3) by (intro swapL_nth) auto
  have h: "k (xs ! c) \<le> k (xs ! parent c)" if "0 < c" "c < n" "parent c \<noteq> i" for c
    using assms(1) that by (simp add: heapDown_def)
  have max: "k (xs ! c) \<le> k (xs ! m)" if "0 < c" "c < n" "parent c = i" for c
    using that parent_child [of c i] by (auto simp: m_def largerChild_def)
  have above: "k (xs ! m) \<le> k (xs ! parent i)" if "0 < i"
    using assms(1) m that by (simp add: heapDown_def)
  have "k (?ys ! c) \<le> k (?ys ! parent c)" if c: "0 < c" "c < n" "parent c \<noteq> m" for c
  proof -
    have q: "parent c < c" "parent c < n" using c parent_less [of c] by linarith+
    consider "c = i" | "c = m" | "c \<noteq> i" "c \<noteq> m" "parent c = i" | "c \<noteq> i" "c \<noteq> m" "parent c \<noteq> i" by blast
    then show ?thesis
    proof cases
      case 1
      with above c q m(1) show ?thesis by (simp add: ys)
    next
      case 2
      with m assms(5) q show ?thesis by (simp add: ys less_imp_le)
    next
      case 3
      with max [of c] c q show ?thesis by (simp add: ys)
    next
      case 4
      with h [of c] c q show ?thesis by (simp add: ys)
    qed
  qed
  moreover have "k (?ys ! c) \<le> k (?ys ! parent m)" if c: "0 < c" "c < n" "parent c = m" for c
  proof -
    have "c \<noteq> i" "c \<noteq> m" "parent c \<noteq> i" using c m(1) parent_less [of c] by linarith+
    with h [of c] c m show ?thesis by (simp add: ys)
  qed
  ultimately show ?thesis unfolding heapDown_def by blast
qed

lemma heapDown_stop:
  assumes "heapDown k xs n i" "n \<le> 2 * i + 1 \<or> \<not> k (xs ! i) < k (xs ! largerChild k xs i n)"
  shows "heap k xs n"
  unfolding heap_def
proof (intro allI impI)
  fix c assume c: "0 < c" "c < n"
  show "k (xs ! c) \<le> k (xs ! parent c)"
  proof (cases "parent c = i")
    case True
    then have "c = 2 * i + 1 \<or> c = 2 * i + 2" using parent_child c(1) by blast
    then show ?thesis using assms(2) c True by (auto simp: largerChild_def not_less split: if_splits)
  qed (use assms(1) c in \<open>simp add: heapDown_def\<close>)
qed

lemma heap_downL:
  "heapDown k xs n i \<Longrightarrow> n \<le> length xs \<Longrightarrow> heap k (downL k xs i n) n"
proof (induction k xs i n rule: downL.induct)
  case (1 k xs i n)
  show ?case
  proof (cases "n \<le> 2 * i + 1 \<or> \<not> k (xs ! i) < k (xs ! largerChild k xs i n)")
    case True
    with heapDown_stop [OF 1(2)] show ?thesis by (subst downL.simps) simp
  next
    case False
    then have "heapDown k (swapL xs i (largerChild k xs i n)) n (largerChild k xs i n)"
      using heapDown_step [OF 1(2) _ 1(3)] by simp
    with False 1(1) [OF False] 1(3) show ?thesis by (subst downL.simps) simp
  qed
qed

section \<open>The heap operations refine the list functions\<close>

lemma up_unfold:
  "up s j =
     (if parent j = j then Some s
      else do {
        lt \<leftarrow> Less s j (parent j);
        if \<not> lt then Some s else do { s \<leftarrow> Swap s (parent j) j; up s (parent j) } })"
  by (subst up.simps) (simp only: Let_def parent_def)

lemma up_items:
  assumes "sstack_inv s" "j < length (items s)"
  shows "\<exists>s'. up s j = Some s' \<and> sstack_inv s' \<and> items s' = upL priority (items s) j"
  using assms
proof (induction j arbitrary: s rule: less_induct)
  case (less j)
  let ?xs = "items s"
  show ?case
  proof (cases "parent j = j \<or> \<not> priority (?xs ! parent j) < priority (?xs ! j)")
    case True
    have "parent j < length ?xs" using less.prems parent_less [of j] by (cases "j = 0") (auto simp: parent_def)
    with True less.prems show ?thesis
      by (subst up_unfold, subst upL.simps) (auto simp: Less_items)
  next
    case False
    then have p: "parent j < j" using parent_less by (metis neq0_conv parent_self)
    obtain s' where s': "Swap s (parent j) j = Some s'" "sstack_inv s'" "items s' = swapL ?xs (parent j) j"
      using Swap_items [OF less.prems(1), of "parent j" j] less.prems(2) p by auto
    have "parent j < length (items s')" using less.prems(2) p by (simp add: s'(3))
    from less.IH [OF p s'(2) this] obtain s'' where
      s'': "up s' (parent j) = Some s''" "sstack_inv s''" "items s'' = upL priority (items s') (parent j)"
      by blast
    have "Less s j (parent j) = Some True"
      using Less_items [OF less.prems(1,2), of "parent j"] less.prems(2) p False by simp
    with False s'(1) s''(1) have "up s j = Some s''" by (subst up_unfold) simp
    moreover have "upL priority ?xs j = upL priority (items s') (parent j)"
      using False by (subst upL.simps) (simp add: s'(3))
    ultimately show ?thesis using s'' by simp
  qed
qed

lemma down_items:
  assumes "sstack_inv s" "i < n" "n \<le> length (items s)"
  shows "\<exists>b s'. down s i0 i n = Some (b, s') \<and> sstack_inv s' \<and> items s' = downL priority (items s) i n"
  using assms
proof (induction "n - i" arbitrary: i s rule: less_induct)
  case less
  let ?xs = "items s" and ?m = "largerChild priority (items s) i n"
  show ?case
  proof (cases "n \<le> 2 * i + 1")
    case True
    with less.prems show ?thesis by (subst down.simps, subst downL.simps) simp
  next
    case inside: False
    then have m: "i < ?m" "?m < n" using largerChild_bounds(1,2) [of i n priority ?xs] by auto
    have right: "(if 2 * i + 1 + 1 < n then Less s (2 * i + 1 + 1) (2 * i + 1) else Some False) =
        Some (2 * i + 2 < n \<and> priority (?xs ! (2 * i + 1)) < priority (?xs ! (2 * i + 2)))"
      using less.prems inside by (simp add: Less_items)
    have body: "down s i0 i n =
       (if \<not> priority (?xs ! i) < priority (?xs ! ?m) then Some (i0 < i, s)
        else do { s \<leftarrow> Swap s i ?m; down s i0 ?m n })"
      using inside less.prems m
      by (subst down.simps) (simp add: Let_def right [simplified] Less_items largerChild_def)
    show ?thesis
    proof (cases "priority (?xs ! i) < priority (?xs ! ?m)")
      case True
      obtain s' where s': "Swap s i ?m = Some s'" "sstack_inv s'" "items s' = swapL ?xs i ?m"
        using Swap_items [of s i ?m] less.prems m by auto
      have "\<exists>b s''. down s' i0 ?m n = Some (b, s'') \<and> sstack_inv s'' \<and>
          items s'' = downL priority (swapL ?xs i ?m) ?m n"
        using less.hyps [of ?m s'] m s'(2) less.prems by (simp add: s'(3))
      with True inside s'(1) show ?thesis by (subst downL.simps) (simp add: body)
    next
      case False
      with less.prems show ?thesis by (subst downL.simps) (simp add: body)
    qed
  qed
qed

section \<open>The queue implements the contract\<close>

text \<open>What a client may rely on; a panic of \<open>push\<close> or \<open>pop\<close> is \<open>None\<close>.\<close>

locale priority_queue =
  fixes empty :: 'q
    and push :: "'q \<Rightarrow> 'v \<Rightarrow> 'p::linorder \<Rightarrow> 'q option"
    and pop :: "'q \<Rightarrow> (('v \<times> 'p) \<times> 'q) option"
    and qsize :: "'q \<Rightarrow> int"
    and contents :: "'q \<Rightarrow> ('v \<times> 'p) multiset"
    and invar :: "'q \<Rightarrow> bool"
  assumes invar_empty: "invar empty"
    and contents_empty: "contents empty = {#}"
    and push_ok: "invar q \<Longrightarrow>
      \<exists>q'. push q v p = Some q' \<and> invar q' \<and> contents q' = add_mset (v, p) (contents q)"
    and pop_ok: "invar q \<Longrightarrow> contents q \<noteq> {#} \<Longrightarrow>
      \<exists>x q'. pop q = Some (x, q') \<and> invar q' \<and> contents q = add_mset x (contents q') \<and>
             (\<forall>y \<in># contents q. snd y \<le> snd x)"
    and pop_empty: "invar q \<Longrightarrow> contents q = {#} \<Longrightarrow> pop q = None"
    and qsize_ok: "invar q \<Longrightarrow> qsize q = int (size (contents q))"

text \<open>Pushing a list of entries, and popping \<open>n\<close> times.\<close>

fun pushAll :: "('q \<Rightarrow> 'v \<Rightarrow> 'p \<Rightarrow> 'q option) \<Rightarrow> 'q \<Rightarrow> ('v \<times> 'p) list \<Rightarrow> 'q option" where
  "pushAll push q [] = Some q"
| "pushAll push q ((v, p) # xs) = do { q \<leftarrow> push q v p; pushAll push q xs }"

fun popN :: "('q \<Rightarrow> ('x \<times> 'q) option) \<Rightarrow> nat \<Rightarrow> 'q \<Rightarrow> ('x list \<times> 'q) option" where
  "popN pop 0 q = Some ([], q)"
| "popN pop (Suc n) q = do { (x, q) \<leftarrow> pop q; (xs, q) \<leftarrow> popN pop n q; Some (x # xs, q) }"

context priority_queue
begin

lemma pushAll_ok:
  "invar q \<Longrightarrow> \<exists>q'. pushAll push q xs = Some q' \<and> invar q' \<and> contents q' = contents q + mset xs"
proof (induction xs arbitrary: q)
  case (Cons x xs)
  obtain v p where x: "x = (v, p)" by (cases x)
  obtain q1 where q1: "push q v p = Some q1" "invar q1" "contents q1 = add_mset (v, p) (contents q)"
    using push_ok [OF Cons.prems] by blast
  with Cons.IH [OF q1(2)] x show ?case by auto
qed simp

lemma popN_sorted:
  "invar q \<Longrightarrow> n = size (contents q) \<Longrightarrow>
     \<exists>xs q'. popN pop n q = Some (xs, q') \<and> invar q' \<and> contents q' = {#} \<and> mset xs = contents q \<and>
            sorted_wrt (\<ge>) (map snd xs)"
proof (induction n arbitrary: q)
  case (Suc n)
  then obtain x q1 where x: "pop q = Some (x, q1)" "invar q1" "contents q = add_mset x (contents q1)"
      "\<forall>y \<in># contents q. snd y \<le> snd x"
    using pop_ok by (metis size_empty nat.distinct(1))
  then obtain xs q' where xs: "popN pop n q1 = Some (xs, q')" "invar q'" "contents q' = {#}"
      "mset xs = contents q1" "sorted_wrt (\<ge>) (map snd xs)"
    using Suc by fastforce
  have "set xs = set_mset (contents q1)" using xs(4) by (metis set_mset_mset)
  with x xs show ?case by auto
qed simp

lemma heap_sort:
  "\<exists>q ys q'. pushAll push empty xs = Some q \<and> popN pop (length xs) q = Some (ys, q') \<and>
     contents q' = {#} \<and> mset ys = mset xs \<and> sorted_wrt (\<ge>) (map snd ys)"
proof -
  obtain q where q: "pushAll push empty xs = Some q" "invar q" "contents q = mset xs"
    using pushAll_ok [OF invar_empty, of xs] contents_empty by auto
  then show ?thesis using popN_sorted [OF q(2), of "length xs"] by fastforce
qed

end

definition contents :: "('p, 'v) Prque \<Rightarrow> ('v \<times> 'p) multiset" where
  "contents q = {# (value_of x, priority x). x \<in># mset (items (cont q)) #}"

definition prque_inv :: "('p::linorder, 'v) Prque \<Rightarrow> bool" where
  "prque_inv q \<longleftrightarrow> sstack_inv (cont q) \<and> heap priority (items (cont q)) (length (items (cont q)))"

lemma Len_items: "sstack_inv s \<Longrightarrow> Len s = int (length (items s))"
  using sstack_invD(10) by (simp add: Len_def length_items)

lemma heap_Push_items:
  assumes "sstack_inv s" "heap priority (items s) (length (items s))"
  shows "\<exists>s'. heap_Push s x = Some s' \<and> sstack_inv s' \<and>
           heap priority (items s') (length (items s')) \<and> mset (items s') = add_mset x (mset (items s))"
proof -
  obtain s1 where s1: "sstack_Push s x = Some s1" "sstack_inv s1" "items s1 = items s @ [x]"
    using sstack_Push_items [OF assms(1)] by blast
  let ?n = "length (items s)"
  obtain s2 where s2: "up s1 ?n = Some s2" "sstack_inv s2" "items s2 = upL priority (items s1) ?n"
    using up_items [OF s1(2), of ?n] by (auto simp: s1(3))
  have "heapUp priority (items s1) (Suc ?n) ?n"
  proof -
    have p: "parent c < ?n" if "0 < c" "c < Suc ?n" for c using that parent_less [of c] by linarith
    then have "parent c \<noteq> ?n" if "0 < c" "c < Suc ?n" for c using that by (metis less_irrefl)
    with p show ?thesis
      using assms(2) unfolding heapUp_def heap_def s1(3) by (auto simp: nth_append less_Suc_eq)
  qed
  then have "heap priority (items s2) (length (items s2))"
    unfolding s2(3) using heap_upL [of priority "items s1" "Suc ?n" ?n] by (simp add: s1(3))
  moreover have "mset (items s2) = add_mset x (mset (items s))"
    unfolding s2(3) by (simp add: mset_upL s1(3))
  moreover have "heap_Push s x = Some s2"
    using s1(1) s2(1) Len_items [OF s1(2)] by (simp add: heap_Push_def s1(3))
  ultimately show ?thesis using s2(2) by blast
qed

lemma heap_Pop_items:
  assumes "sstack_inv s" "heap priority (items s) (length (items s))" "items s \<noteq> []"
  shows "\<exists>s'. heap_Pop s = Some (Some (items s ! 0), s') \<and> sstack_inv s' \<and>
           heap priority (items s') (length (items s')) \<and>
           mset (items s) = add_mset (items s ! 0) (mset (items s'))"
proof -
  let ?xs = "items s"
  obtain n where n: "length ?xs = Suc n" using assms(3) by (cases "items s") auto
  obtain s1 where s1: "Swap s 0 n = Some s1" "sstack_inv s1" "items s1 = swapL ?xs 0 n"
    using Swap_items [OF assms(1), of 0 n] n by auto
  have "\<exists>b s2. down s1 0 0 n = Some (b, s2) \<and> sstack_inv s2 \<and> items s2 = downL priority (items s1) 0 n"
  proof (cases "n = 0")
    case True
    then show ?thesis using s1(2) by (subst down.simps, subst downL.simps) auto
  qed (use down_items [OF s1(2), of 0 n 0] n in \<open>simp add: s1(3)\<close>)
  then obtain b s2 where s2: "down s1 0 0 n = Some (b, s2)" "sstack_inv s2"
    "items s2 = downL priority (swapL ?xs 0 n) 0 n"
    using s1(3) by auto
  have len: "length (items s2) = Suc n" by (simp add: s2(3) n)
  then have ne: "items s2 \<noteq> []" by auto
  obtain s3 where s3: "sstack_Pop s2 = Some (Some (last (items s2)), s3)" "sstack_inv s3"
      "items s3 = butlast (items s2)"
    using sstack_Pop_items [OF s2(2) ne] by blast
  have nth: "swapL ?xs 0 n ! c = (if c = 0 then ?xs ! n else if c = n then ?xs ! 0 else ?xs ! c)"
    if "c < Suc n" for c using that n by (intro swapL_nth) auto
  have "heapDown priority (swapL ?xs 0 n) n 0"
    unfolding heapDown_def
  proof (intro conjI allI impI)
    fix c assume c: "0 < c" "c < n" "parent c \<noteq> 0"
    have "parent c < n" using c(2) parent_less [OF c(1)] by linarith
    then show "priority (swapL ?xs 0 n ! c) \<le> priority (swapL ?xs 0 n ! parent c)"
      using c n assms(2) by (simp add: nth heap_def)
  qed simp
  then have h: "heap priority (items s2) n" unfolding s2(3) by (intro heap_downL) (auto simp: n)
  have "items s2 ! n = ?xs ! 0"
  proof (cases "n = 0")
    case True
    then show ?thesis by (subst s2(3), subst downL.simps) (simp add: swapL_def)
  next
    case False
    then show ?thesis
      unfolding s2(3) using n downL_above [of n "swapL ?xs 0 n" n 0 priority] by (simp add: nth)
  qed
  then have last: "last (items s2) = ?xs ! 0" using len ne by (simp add: last_conv_nth)
  have "mset (items s2) = mset ?xs" unfolding s2(3) using n by (subst mset_downL) auto
  moreover have "items s2 = items s3 @ [?xs ! 0]" using ne last s3(3) by (metis append_butlast_last_id)
  ultimately have "mset ?xs = add_mset (?xs ! 0) (mset (items s3))" by simp
  moreover have "heap priority (items s3) (length (items s3))"
    using h len unfolding s3(3) heap_def by (auto simp: nth_butlast less_trans [OF parent_less])
  moreover have "heap_Pop s = Some (Some (?xs ! 0), s3)"
    using s1(1) s2(1) s3(1) last Len_items [OF assms(1)] n by (simp add: heap_Pop_def)
  ultimately show ?thesis using s3(2) by blast
qed

lemma contents_empty_iff: "contents q = {#} \<longleftrightarrow> items (cont q) = []"
  by (simp add: contents_def)

lemma Push_contents:
  assumes "prque_inv q"
  shows "\<exists>q'. Push q v p = Some q' \<and> prque_inv q' \<and> contents q' = add_mset (v, p) (contents q)"
  using heap_Push_items [of "cont q" "\<lparr>value_of = v, priority = p\<rparr>"] assms
  by (auto simp: prque_inv_def Push_def contents_def)

lemma Pop_contents:
  assumes "prque_inv q" "contents q \<noteq> {#}"
  shows "\<exists>x q'. Pop q = Some (x, q') \<and> prque_inv q' \<and> contents q = add_mset x (contents q') \<and>
           (\<forall>y \<in># contents q. snd y \<le> snd x)"
proof -
  let ?s = "cont q"
  have inv: "sstack_inv ?s" "heap priority (items ?s) (length (items ?s))" and ne: "items ?s \<noteq> []"
    using assms by (simp_all add: prque_inv_def contents_empty_iff)
  obtain s' where s': "heap_Pop ?s = Some (Some (items ?s ! 0), s')" "sstack_inv s'"
      "heap priority (items s') (length (items s'))"
      "mset (items ?s) = add_mset (items ?s ! 0) (mset (items s'))"
    using heap_Pop_items [OF inv ne] by blast
  have "priority x \<le> priority (items ?s ! 0)" if "x \<in> set (items ?s)" for x
    using that heap_root [OF inv(2)] by (metis in_set_conv_nth)
  moreover have "set (items s') \<subseteq> set (items ?s)"
    using s'(4) by (metis set_mset_add_mset_insert set_mset_mset subset_insertI)
  ultimately show ?thesis using s' by (auto simp: Pop_def prque_inv_def contents_def)
qed

lemma Pop_empty: "prque_inv q \<Longrightarrow> contents q = {#} \<Longrightarrow> Pop q = None"
  by (simp add: Pop_def heap_Pop_def prque_inv_def Len_items contents_empty_iff)

lemma PrqueSize_contents: "prque_inv q \<Longrightarrow> PrqueSize q = int (size (contents q))"
  by (simp add: PrqueSize_def prque_inv_def Len_items contents_def)

lemma Empty_iff: "prque_inv q \<Longrightarrow> Empty q \<longleftrightarrow> contents q = {#}"
  by (simp add: Empty_def prque_inv_def Len_items contents_empty_iff)

interpretation prq: priority_queue NewPrque Push Pop PrqueSize contents prque_inv
proof unfold_locales
  show "prque_inv NewPrque" "contents NewPrque = {#}"
    by (simp_all add: NewPrque_def prque_inv_def contents_def heap_def)
  fix q :: "('p::linorder, 'v) Prque" and v p assume q: "prque_inv q"
  show "\<exists>q'. Push q v p = Some q' \<and> prque_inv q' \<and> contents q' = add_mset (v, p) (contents q)"
    using q by (rule Push_contents)
  show "PrqueSize q = int (size (contents q))" using q by (rule PrqueSize_contents)
  show "Pop q = None" if "contents q = {#}" using q that by (rule Pop_empty)
  show "\<exists>x q'. Pop q = Some (x, q') \<and> prque_inv q' \<and> contents q = add_mset x (contents q') \<and>
      (\<forall>y \<in># contents q. snd y \<le> snd x)" if "contents q \<noteq> {#}"
    using q that by (rule Pop_contents)
qed

section \<open>Properties\<close>

text \<open>C17. The queue hands out what was pushed, highest priority first: pushing any list of entries
  never panics, and popping as often returns a permutation of the list in non-increasing priority and
  leaves the queue empty.\<close>

theorem prque_priority_order:
  "\<exists>q ys q'. pushAll Push NewPrque xs = Some q \<and> popN Pop (length xs) q = Some (ys, q') \<and>
     contents q' = {#} \<and> mset ys = mset xs \<and> sorted_wrt (\<ge>) (map snd ys)"
  by (rule prq.heap_sort)

end
