(* ===== verification/Wbft_Config.thy ===== *)
theory Wbft_Config
  imports Validator_Set
begin

text \<open>
  Views (\<open>consensus/wbft/types.go\<close>) and the configuration: the parameters of the chain
  configuration (\<open>params/config_wbft.go\<close>), how the node builds its \<open>wbft.Config\<close> from them
  (\<open>eth/ethconfig\<close>), and \<open>GetConfig\<close>, which applies the transitions that are active at a
  block. A nil pointer is \<open>None\<close>; calling \<open>Cmp\<close> on a nil block number panics (\<open>None\<close> of the
  result).
\<close>

section \<open>Views\<close>

record View =
  vRound :: int
  vSequence :: int

definition View_Cmp :: "View \<Rightarrow> View \<Rightarrow> int" where
  "View_Cmp v y =
     (if bigCmp (vSequence v) (vSequence y) \<noteq> 0 then bigCmp (vSequence v) (vSequence y)
      else if bigCmp (vRound v) (vRound y) \<noteq> 0 then bigCmp (vRound v) (vRound y)
      else 0)"

lemma View_Cmp_neg: "View_Cmp v y < 0 \<longleftrightarrow>
    vSequence v < vSequence y \<or> vSequence v = vSequence y \<and> vRound v < vRound y"
  by (auto simp: View_Cmp_def bigCmp_def)

lemma View_Cmp_pos: "View_Cmp v y > 0 \<longleftrightarrow>
    vSequence v > vSequence y \<or> vSequence v = vSequence y \<and> vRound v > vRound y"
  by (auto simp: View_Cmp_def bigCmp_def)

lemma View_Cmp_zero: "View_Cmp v y = 0 \<longleftrightarrow> vSequence v = vSequence y \<and> vRound v = vRound y"
  by (auto simp: View_Cmp_def bigCmp_def)

lemma View_Cmp_le: "View_Cmp v y \<le> 0 \<longleftrightarrow>
    vSequence v < vSequence y \<or> vSequence v = vSequence y \<and> vRound v \<le> vRound y"
  by (auto simp: View_Cmp_def bigCmp_def)

lemmas View_Cmp_simps = View_Cmp_neg View_Cmp_pos View_Cmp_zero View_Cmp_le

section \<open>Chain configuration\<close>

record WBFTConfig =
  RequestTimeoutSeconds :: uint64
  BlockPeriodSeconds :: uint64
  EpochLength :: uint64
  wAllowedFutureBlockTime :: uint64
  wProposerPolicy :: "uint64 option"
  wMaxRequestTimeoutSeconds :: "uint64 option"

record Transition =
  tBlock :: "int option"
  tConfig :: WBFTConfig

record SystemContract =
  scAddress :: address
  scVersion :: string
  scParams :: "(string, string) gomap"

record SystemContracts =
  GovValidator :: "SystemContract option"
  NativeCoinAdapter :: "SystemContract option"
  GovMinter :: "SystemContract option"
  GovMasterMinter :: "SystemContract option"
  GovCouncil :: "SystemContract option"

record Upgrade =
  uBlock :: int
  uSystemContracts :: SystemContracts

record WBFTInit =
  initValidators :: "address list"
  initBLSPublicKeys :: "string list"

record AnzeonConfig =
  azWBFT :: "WBFTConfig option"
  azInit :: "WBFTInit option"
  azSystemContracts :: "SystemContracts option"

text \<open>\<open>CheckSystemContractVersions\<close> is a function variable that another package sets; it is the
  first argument.\<close>

definition CheckValidity ::
  "(SystemContracts \<Rightarrow> goError option) \<Rightarrow> AnzeonConfig option \<Rightarrow> goError option" where
  "CheckValidity checkVersions oc =
    (case oc of None \<Rightarrow> Some (ErrorNew ''anzeon: missing anzeon section'')
     | Some c \<Rightarrow>
    (case azInit c of None \<Rightarrow> Some (ErrorNew ''anzeon: missing init section'')
     | Some i \<Rightarrow>
       if length (initBLSPublicKeys i) = 0 then Some (ErrorNew ''anzeon.init: missing blsPublicKeys field'')
       else if length (initValidators i) = 0 then Some (ErrorNew ''anzeon.init: missing validators'')
       else if length (initValidators i) \<noteq> length (initBLSPublicKeys i)
       then Some (ErrorNew ''anzeon.init: mismatched lengths'')
       else
    (case azSystemContracts c of None \<Rightarrow> Some (ErrorNew ''anzeon: missing systemContracts section'')
     | Some sc \<Rightarrow>
       if GovValidator sc = None then Some (ErrorNew ''anzeon.systemContracts: missing govValidator'')
       else if NativeCoinAdapter sc = None
       then Some (ErrorNew ''anzeon.systemContracts: missing NativeCoinAdapter'')
       else if GovMasterMinter sc = None
       then Some (ErrorNew ''anzeon.systemContracts: missing GovMasterMinter'')
       else if GovMinter sc = None then Some (ErrorNew ''anzeon.systemContracts: missing GovMinter'')
       else if GovCouncil sc = None then Some (ErrorNew ''anzeon.systemContracts: missing GovCouncil'')
       else
    (case checkVersions sc of Some err \<Rightarrow> Some (ErrorNew ''anzeon.systemContracts'')
     | None \<Rightarrow>
    (case azWBFT c of None \<Rightarrow> Some (ErrorNew ''anzeon: missing wBFT section'')
     | Some w \<Rightarrow>
       if RequestTimeoutSeconds w = 0
       then Some (ErrorNew ''anzeon.wBFT: requestTimeoutSeconds must be greater than 0'')
       else if BlockPeriodSeconds w = 0
       then Some (ErrorNew ''anzeon.wBFT: blockPeriodSeconds must be greater than 0'')
       else if EpochLength w \<le> 1
       then Some (ErrorNew ''anzeon.wBFT: epochLength must be greater than or equal to 2'')
       else None)))))"

section \<open>Engine configuration\<close>

record Config =
  RequestTimeout :: uint64
  BlockPeriod :: uint64
  cfgProposerPolicy :: "ProposerPolicy option"
  Epoch :: uint64
  AllowedFutureBlockTime :: uint64
  MaxRequestTimeoutSeconds :: uint64
  Transitions :: "Transition list"
  SystemContractUpgrades :: "Upgrade list"

definition zeroConfig :: Config where
  "zeroConfig = \<lparr>RequestTimeout = 0, BlockPeriod = 0, cfgProposerPolicy = None, Epoch = 0,
     AllowedFutureBlockTime = 0, MaxRequestTimeoutSeconds = 0, Transitions = [],
     SystemContractUpgrades = []\<rparr>"

definition DefaultConfig :: Config where
  "DefaultConfig = zeroConfig\<lparr>RequestTimeout := 1000, BlockPeriod := 1,
     cfgProposerPolicy := Some (NewProposerPolicy RoundRobin), Epoch := 10\<rparr>"

text \<open>The callback of \<open>GetConfig\<close> applied to one transition.\<close>

definition applyTransition :: "Transition \<Rightarrow> Config \<Rightarrow> Config" where
  "applyTransition t c =
    (let w = tConfig t;
         c = (if RequestTimeoutSeconds w \<noteq> 0
              then c\<lparr>RequestTimeout := RequestTimeoutSeconds w * 1000\<rparr> else c);
         c = (if BlockPeriodSeconds w \<noteq> 0 then c\<lparr>BlockPeriod := BlockPeriodSeconds w\<rparr> else c);
         c = (if EpochLength w \<noteq> 0 then c\<lparr>Epoch := EpochLength w\<rparr> else c);
         c = (case wProposerPolicy w of None \<Rightarrow> c
              | Some p \<Rightarrow> c\<lparr>cfgProposerPolicy := Some (NewProposerPolicy p)\<rparr>);
         c = (case wMaxRequestTimeoutSeconds w of None \<Rightarrow> c
              | Some m \<Rightarrow> c\<lparr>MaxRequestTimeoutSeconds := m\<rparr>)
     in c)"

fun getTransitionValue :: "Transition list \<Rightarrow> int \<Rightarrow> (Transition \<Rightarrow> 'a \<Rightarrow> 'a) \<Rightarrow> 'a \<Rightarrow> 'a option" where
  "getTransitionValue [] num callback a = Some a"
| "getTransitionValue (t # ts) num callback a =
     (case tBlock t of None \<Rightarrow> None
      | Some b \<Rightarrow> if bigCmp b num \<le> 0 then getTransitionValue ts num callback (callback t a) else Some a)"

text \<open>A nil block number (\<open>None\<close>) leaves the configuration as it is.\<close>

definition GetConfig :: "Config \<Rightarrow> int option \<Rightarrow> Config option" where
  "GetConfig c blockNumber =
     (case blockNumber of None \<Rightarrow> Some c
      | Some num \<Rightarrow> getTransitionValue (Transitions c) num applyTransition c)"

definition applyUpgrade :: "Upgrade \<Rightarrow> SystemContracts \<Rightarrow> SystemContracts" where
  "applyUpgrade u gc =
    (let s = uSystemContracts u;
         gc = (if GovValidator s \<noteq> None then gc\<lparr>GovValidator := GovValidator s\<rparr> else gc);
         gc = (if NativeCoinAdapter s \<noteq> None then gc\<lparr>NativeCoinAdapter := NativeCoinAdapter s\<rparr> else gc);
         gc = (if GovMinter s \<noteq> None then gc\<lparr>GovMinter := GovMinter s\<rparr> else gc);
         gc = (if GovMasterMinter s \<noteq> None then gc\<lparr>GovMasterMinter := GovMasterMinter s\<rparr> else gc);
         gc = (if GovCouncil s \<noteq> None then gc\<lparr>GovCouncil := GovCouncil s\<rparr> else gc)
     in gc)"

fun getSystemContractsValue :: "Upgrade list \<Rightarrow> int \<Rightarrow> SystemContracts \<Rightarrow> SystemContracts" where
  "getSystemContractsValue [] num gc = gc"
| "getSystemContractsValue (u # us) num gc =
     (if bigCmp (uBlock u) num \<le> 0 then getSystemContractsValue us num (applyUpgrade u gc) else gc)"

definition noContracts :: SystemContracts where
  "noContracts = \<lparr>GovValidator = None, NativeCoinAdapter = None, GovMinter = None,
     GovMasterMinter = None, GovCouncil = None\<rparr>"

definition GetSystemContracts :: "Config \<Rightarrow> int option \<Rightarrow> SystemContracts \<Rightarrow> SystemContracts" where
  "GetSystemContracts c blockNumber anzeonContracts =
     (if length (SystemContractUpgrades c) > 0
      then (case blockNumber of None \<Rightarrow> noContracts
            | Some num \<Rightarrow> getSystemContractsValue (SystemContractUpgrades c) num noContracts)
      else anzeonContracts)"

text \<open>\<open>sort.Slice\<close> puts transitions without a block number last; the order of equal elements is
  not specified by the library, here it is the stable one. The map of hard fork blocks is always
  empty, so the function never fails.\<close>

definition transitionLess :: "Transition \<Rightarrow> Transition \<Rightarrow> bool" where
  "transitionLess a b =
     (case tBlock a of None \<Rightarrow> False
      | Some x \<Rightarrow> (case tBlock b of None \<Rightarrow> True | Some y \<Rightarrow> bigCmp x y < 0))"

fun insertTransition :: "Transition \<Rightarrow> Transition list \<Rightarrow> Transition list" where
  "insertTransition t [] = [t]"
| "insertTransition t (u # us) = (if transitionLess u t then u # insertTransition t us else t # u # us)"

definition sortTransitions :: "Transition list \<Rightarrow> Transition list" where
  "sortTransitions ts = foldr insertTransition ts []"

definition SetConfigFromChainConfig ::
  "Config \<Rightarrow> WBFTConfig \<Rightarrow> SystemContracts \<Rightarrow> Transition list \<Rightarrow> Upgrade list \<Rightarrow> Config" where
  "SetConfigFromChainConfig cfg w anzeonContracts chainTransitions upgrades =
    (let cfg = (if RequestTimeoutSeconds w \<noteq> 0
                then cfg\<lparr>RequestTimeout := RequestTimeoutSeconds w * 1000\<rparr> else cfg);
         cfg = (if BlockPeriodSeconds w \<noteq> 0 then cfg\<lparr>BlockPeriod := BlockPeriodSeconds w\<rparr> else cfg);
         cfg = (if EpochLength w \<noteq> 0 then cfg\<lparr>Epoch := EpochLength w\<rparr> else cfg);
         cfg = (if wAllowedFutureBlockTime w \<noteq> 0
                then cfg\<lparr>AllowedFutureBlockTime := wAllowedFutureBlockTime w\<rparr> else cfg);
         cfg = (case wProposerPolicy w of None \<Rightarrow> cfg
                | Some p \<Rightarrow> cfg\<lparr>cfgProposerPolicy := Some (NewProposerPolicy p)\<rparr>);
         cfg = (case wMaxRequestTimeoutSeconds w of None \<Rightarrow> cfg
                | Some m \<Rightarrow> cfg\<lparr>MaxRequestTimeoutSeconds := m\<rparr>);
         cfg = cfg\<lparr>Transitions := sortTransitions (Transitions cfg @ chainTransitions)\<rparr>;
         cfg = cfg\<lparr>SystemContractUpgrades := SystemContractUpgrades cfg
                  @ [\<lparr>uBlock = 0, uSystemContracts = anzeonContracts\<rparr>] @ upgrades\<rparr>
     in cfg)"

section \<open>Transitions take effect in block order\<close>

definition transitionActive :: "int \<Rightarrow> Transition \<Rightarrow> bool" where
  "transitionActive num t = (case tBlock t of None \<Rightarrow> False | Some b \<Rightarrow> b \<le> num)"

lemma mset_insertTransition [simp]: "mset (insertTransition t ts) = add_mset t (mset ts)"
  by (induction ts) auto

lemma mset_sortTransitions [simp]: "mset (sortTransitions ts) = mset ts"
  unfolding sortTransitions_def by (induction ts) auto

lemma set_sortTransitions [simp]: "set (sortTransitions ts) = set ts"
  by (metis mset_sortTransitions set_mset_mset)

lemma set_insertTransition [simp]: "set (insertTransition t ts) = insert t (set ts)"
  by (metis mset_insertTransition set_mset_add_mset_insert set_mset_mset)

lemma transitionLess_order:
  "\<not> transitionLess b a \<Longrightarrow> \<not> transitionLess c b \<Longrightarrow> \<not> transitionLess c a"
  "transitionLess a b \<Longrightarrow> \<not> transitionLess b a"
  by (auto simp: transitionLess_def split: option.splits)

lemma sorted_insertTransition:
  "sorted_wrt (\<lambda>a b. \<not> transitionLess b a) ts \<Longrightarrow> sorted_wrt (\<lambda>a b. \<not> transitionLess b a) (insertTransition t ts)"
proof (induction ts)
  case (Cons u us)
  show ?case
  proof (cases "transitionLess u t")
    case True
    with Cons show ?thesis by (auto dest: transitionLess_order(2))
  next
    case False
    with Cons show ?thesis using transitionLess_order(1) [OF False] by auto
  qed
qed simp

lemma sorted_sortTransitions: "sorted_wrt (\<lambda>a b. \<not> transitionLess b a) (sortTransitions ts)"
  unfolding sortTransitions_def by (induction ts) (auto intro: sorted_insertTransition)

lemma getTransitionValue_sorted:
  assumes "sorted_wrt (\<lambda>a b. \<not> transitionLess b a) ts" "\<forall>t \<in> set ts. tBlock t \<noteq> None"
  shows "getTransitionValue ts num f a = Some (fold f (filter (transitionActive num) ts) a)"
  using assms
proof (induction ts arbitrary: a)
  case (Cons t ts)
  then obtain b where b: "tBlock t = Some b" by auto
  show ?case
  proof (cases "b \<le> num")
    case False
    have "\<not> transitionActive num u" if "u \<in> set ts" for u
      using Cons.prems that b False
      by (fastforce simp: transitionActive_def transitionLess_def split: option.splits)
    then have "filter (transitionActive num) (t # ts) = []"
      using b False by (simp add: filter_empty_conv transitionActive_def)
    with b False show ?thesis by simp
  qed (use Cons b in \<open>simp add: transitionActive_def\<close>)
qed simp

lemma Transitions_SetConfig [simp]:
  "Transitions (SetConfigFromChainConfig cfg w sc ts us) = sortTransitions (Transitions cfg @ ts)"
  by (simp add: SetConfigFromChainConfig_def Let_def split: option.split)

lemma fields_SetConfig:
  "RequestTimeout (SetConfigFromChainConfig cfg w sc ts us) =
     (if RequestTimeoutSeconds w \<noteq> 0 then RequestTimeoutSeconds w * 1000 else RequestTimeout cfg)"
  "BlockPeriod (SetConfigFromChainConfig cfg w sc ts us) =
     (if BlockPeriodSeconds w \<noteq> 0 then BlockPeriodSeconds w else BlockPeriod cfg)"
  "Epoch (SetConfigFromChainConfig cfg w sc ts us) =
     (if EpochLength w \<noteq> 0 then EpochLength w else Epoch cfg)"
  by (simp_all add: SetConfigFromChainConfig_def Let_def split: option.split)

section \<open>Properties\<close>


definition exampleWBFT :: WBFTConfig where
  "exampleWBFT = \<lparr>RequestTimeoutSeconds = 2, BlockPeriodSeconds = 1, EpochLength = 10,
     wAllowedFutureBlockTime = 0, wProposerPolicy = Some 0, wMaxRequestTimeoutSeconds = None\<rparr>"

definition exampleTransitions :: "Transition list" where
  "exampleTransitions =
     [\<lparr>tBlock = Some 50, tConfig = exampleWBFT\<lparr>EpochLength := 20\<rparr>\<rparr>,
      \<lparr>tBlock = Some 30, tConfig = exampleWBFT\<lparr>EpochLength := 15\<rparr>\<rparr>]"



definition exampleContract :: SystemContract where
  "exampleContract = \<lparr>scAddress = 4096, scVersion = ''v1'', scParams = []\<rparr>"

definition exampleAnzeon :: AnzeonConfig where
  "exampleAnzeon = \<lparr>azWBFT = Some exampleWBFT,
     azInit = Some \<lparr>initValidators = [1], initBLSPublicKeys = [''0x00'']\<rparr>,
     azSystemContracts = Some \<lparr>GovValidator = Some exampleContract,
       NativeCoinAdapter = Some exampleContract, GovMinter = Some exampleContract,
       GovMasterMinter = Some exampleContract, GovCouncil = Some exampleContract\<rparr>\<rparr>"


end
