(* ===== verification/Rlp.thy ===== *)
theory Rlp
  imports Prelude
begin

unbundle bit_operations_syntax

text \<open>
  RLP, the serialisation of package \<open>rlp\<close>. A value is a tree of byte strings and lists; the
  reflective writers of the package reduce every Go value to such a tree. Modelled are the integer
  and header encoders and the size computations of \<open>encode.go\<close>, the two-phase list buffer of
  \<open>encbuffer.go\<close>, and the splitting functions and the iterator of \<open>raw.go\<close> and \<open>iterator.go\<close>.
  The buffer is shown to produce the recursive reference encoding \<open>encodeItem\<close>, and splitting to
  invert it.
\<close>

datatype item = Str bytes | Lst "item list"

datatype Kind = KByte | KString | KList

datatype rlpError =
    ErrUnexpectedEOF | ErrCanonSize | ErrCanonInt | ErrValueTooLarge
  | ErrExpectedString | ErrExpectedList | ErrUintOverflow

section \<open>Integers and headers\<close>

text \<open>\<open>byte(i >> k)\<close>.\<close>

definition byteAt :: "uint64 \<Rightarrow> nat \<Rightarrow> byte" where
  "byteAt i k = ucast (drop_bit k i)"

definition putint :: "uint64 \<Rightarrow> bytes" where
  "putint i =
    (if i < 2 ^ 8 then [byteAt i 0]
     else if i < 2 ^ 16 then [byteAt i 8, byteAt i 0]
     else if i < 2 ^ 24 then [byteAt i 16, byteAt i 8, byteAt i 0]
     else if i < 2 ^ 32 then [byteAt i 24, byteAt i 16, byteAt i 8, byteAt i 0]
     else if i < 2 ^ 40 then [byteAt i 32, byteAt i 24, byteAt i 16, byteAt i 8, byteAt i 0]
     else if i < 2 ^ 48
     then [byteAt i 40, byteAt i 32, byteAt i 24, byteAt i 16, byteAt i 8, byteAt i 0]
     else if i < 2 ^ 56
     then [byteAt i 48, byteAt i 40, byteAt i 32, byteAt i 24, byteAt i 16, byteAt i 8, byteAt i 0]
     else [byteAt i 56, byteAt i 48, byteAt i 40, byteAt i 32, byteAt i 24, byteAt i 16, byteAt i 8,
           byteAt i 0])"

lemma unat_shift: "unat (drop_bit k i) = unat i div 2 ^ k"
  unfolding unat_drop_bit_eq by (rule drop_bit_eq_div)

function intsize :: "uint64 \<Rightarrow> nat" where
  "intsize i = (let i' = drop_bit 8 i in if i' = 0 then 1 else 1 + intsize i')"
  by pat_completeness auto
termination
proof (relation "measure unat")
  fix i i' :: uint64 assume i': "i' = drop_bit 8 i" "i' \<noteq> 0"
  then have "unat i' = unat i div 256" using unat_shift [of 8 i] by simp
  moreover have "0 < unat i'" using i'(2) by (simp add: unat_gt_0)
  ultimately show "(i', i) \<in> measure unat" by auto
qed simp

declare intsize.simps [simp del]

definition headsize :: "uint64 \<Rightarrow> nat" where
  "headsize n = (if n < 56 then 1 else 1 + intsize n)"

definition puthead :: "byte \<Rightarrow> byte \<Rightarrow> uint64 \<Rightarrow> bytes" where
  "puthead smalltag largetag n =
     (if n < 56 then [smalltag + ucast n]
      else let enc = putint n in (largetag + of_nat (length enc)) # enc)"

definition encodeStringHeader :: "uint64 \<Rightarrow> bytes" where
  "encodeStringHeader n =
     (if n < 56 then [0x80 + ucast n]
      else let enc = putint n in (0xB7 + of_nat (length enc)) # enc)"

definition writeBytes :: "bytes \<Rightarrow> bytes" where
  "writeBytes b =
     (if length b = 1 \<and> b ! 0 \<le> 0x7F then [b ! 0]
      else encodeStringHeader (of_nat (length b)) @ b)"

definition writeUint64 :: "uint64 \<Rightarrow> bytes" where
  "writeUint64 i =
     (if i = 0 then [0x80]
      else if i < 128 then [ucast i]
      else let s = putint i in (0x80 + of_nat (length s)) # s)"

definition AppendUint64 :: "bytes \<Rightarrow> uint64 \<Rightarrow> bytes" where
  "AppendUint64 b i =
     (if i = 0 then b @ [0x80]
      else if i < 128 then b @ [byteAt i 0]
      else if i < 2 ^ 8 then b @ [0x81, byteAt i 0]
      else if i < 2 ^ 16 then b @ [0x82, byteAt i 8, byteAt i 0]
      else if i < 2 ^ 24 then b @ [0x83, byteAt i 16, byteAt i 8, byteAt i 0]
      else if i < 2 ^ 32 then b @ [0x84, byteAt i 24, byteAt i 16, byteAt i 8, byteAt i 0]
      else if i < 2 ^ 40 then b @ [0x85, byteAt i 32, byteAt i 24, byteAt i 16, byteAt i 8, byteAt i 0]
      else if i < 2 ^ 48
      then b @ [0x86, byteAt i 40, byteAt i 32, byteAt i 24, byteAt i 16, byteAt i 8, byteAt i 0]
      else if i < 2 ^ 56
      then b @ [0x87, byteAt i 48, byteAt i 40, byteAt i 32, byteAt i 24, byteAt i 16, byteAt i 8,
                byteAt i 0]
      else b @ [0x88, byteAt i 56, byteAt i 48, byteAt i 40, byteAt i 32, byteAt i 24, byteAt i 16,
                byteAt i 8, byteAt i 0])"

text \<open>The big-endian bytes of a number, most significant first and without leading zeros;
  \<open>big.Int.Bits\<close> lists the same digits in machine words.\<close>

function be :: "nat \<Rightarrow> bytes" where
  "be n = (if n < 256 then [of_nat n] else be (n div 256) @ [of_nat (n mod 256)])"
  by pat_completeness auto
termination by (relation "measure id") auto

declare be.simps [simp del]

text \<open>\<open>BitLen\<close> rounded up to whole bytes is the length of the big-endian form.\<close>

definition writeBigInt :: "int \<Rightarrow> bytes" where
  "writeBigInt i =
     (if bitLen (nat i) \<le> 64 then writeUint64 (bigUint64 i)
      else let b = be (nat i) in encodeStringHeader (of_nat (length b)) @ b)"

text \<open>\<open>writeBigIntPtr\<close>: nil is written like zero, a negative number is an error.\<close>

definition writeBigIntPtr :: "int option \<Rightarrow> goError + bytes" where
  "writeBigIntPtr p =
     (case p of None \<Rightarrow> Inr [0x80]
      | Some i \<Rightarrow> if i < 0 then Inl ErrNegativeBigInt else Inr (writeBigInt i))"

definition StringSize :: "bytes \<Rightarrow> nat" where
  "StringSize s =
     (if length s = 0 then 1
      else if length s = 1 then (if s ! 0 \<le> 0x7f then 1 else 2)
      else headsize (of_nat (length s)) + length s)"

definition ListSize :: "nat \<Rightarrow> nat" where
  "ListSize contentSize = headsize (of_nat contentSize) + contentSize"

definition IntSize :: "uint64 \<Rightarrow> nat" where
  "IntSize x = (if x < 0x80 then 1 else 1 + intsize x)"

section \<open>The list buffer\<close>

record listhead =
  lhOffset :: nat
  lhSize :: nat

record encBuffer =
  bufStr :: bytes
  lheads :: "listhead list"
  lhsize :: nat

definition emptyBuffer :: encBuffer where
  "emptyBuffer = \<lparr>bufStr = [], lheads = [], lhsize = 0\<rparr>"

definition listhead_encode :: "listhead \<Rightarrow> bytes" where
  "listhead_encode h = puthead 0xC0 0xF7 (of_nat (lhSize h))"

definition bufSize :: "encBuffer \<Rightarrow> nat" where
  "bufSize buf = length (bufStr buf) + lhsize buf"

definition bufList :: "encBuffer \<Rightarrow> nat \<times> encBuffer" where
  "bufList buf =
     (let buf' = buf\<lparr>lheads := lheads buf @ [\<lparr>lhOffset = length (bufStr buf), lhSize = lhsize buf\<rparr>]\<rparr>
      in (length (lheads buf') - 1, buf'))"

definition bufListEnd :: "encBuffer \<Rightarrow> nat \<Rightarrow> encBuffer" where
  "bufListEnd buf index =
     (let lh = lheads buf ! index;
          lh' = lh\<lparr>lhSize := bufSize buf - lhOffset lh - lhSize lh\<rparr>;
          buf' = buf\<lparr>lheads := (lheads buf)[index := lh']\<rparr>
      in if lhSize lh' < 56 then buf'\<lparr>lhsize := lhsize buf + 1\<rparr>
         else buf'\<lparr>lhsize := lhsize buf + (1 + intsize (of_nat (lhSize lh')))\<rparr>)"

fun copyToFrom :: "nat \<Rightarrow> bytes \<Rightarrow> listhead list \<Rightarrow> bytes" where
  "copyToFrom strpos str [] = drop strpos str"
| "copyToFrom strpos str (h # hs) =
     take (lhOffset h - strpos) (drop strpos str) @ listhead_encode h
       @ copyToFrom (strpos + length (take (lhOffset h - strpos) (drop strpos str))) str hs"

definition makeBytes :: "encBuffer \<Rightarrow> bytes" where
  "makeBytes buf = copyToFrom 0 (bufStr buf) (lheads buf)"

text \<open>The writer of a value: strings are appended to the string data; an empty slice appends its
  one-byte encoding, any other list opens a header, writes its elements and closes the header.\<close>

fun writeItem :: "item \<Rightarrow> encBuffer \<Rightarrow> encBuffer"
  and writeItems :: "item list \<Rightarrow> encBuffer \<Rightarrow> encBuffer" where
  "writeItem (Str b) buf = buf\<lparr>bufStr := bufStr buf @ writeBytes b\<rparr>"
| "writeItem (Lst xs) buf =
     (if xs = [] then buf\<lparr>bufStr := bufStr buf @ [0xC0]\<rparr>
      else let (i, buf) = bufList buf in bufListEnd (writeItems xs buf) i)"
| "writeItems [] buf = buf"
| "writeItems (x # xs) buf = writeItems xs (writeItem x buf)"

definition EncodeToBytes :: "item \<Rightarrow> bytes" where
  "EncodeToBytes x = makeBytes (writeItem x emptyBuffer)"

section \<open>Splitting\<close>

definition readBE :: "bytes \<Rightarrow> uint64" where
  "readBE bs = foldl (\<lambda>s b. push_bit 8 s OR ucast b) 0 bs"

text \<open>\<open>slen\<close> is between 1 and 8 in every call.\<close>

definition readSize :: "bytes \<Rightarrow> nat \<Rightarrow> rlpError + uint64" where
  "readSize b slen =
     (if slen > length b then Inl ErrUnexpectedEOF
      else let s = readBE (take slen b) in
        if s < 56 \<or> b ! 0 = 0 then Inl ErrCanonSize else Inr s)"

definition readKind :: "bytes \<Rightarrow> rlpError + (Kind \<times> nat \<times> nat)" where
  "readKind buf =
     (if length buf = 0 then Inl ErrUnexpectedEOF
      else let b = buf ! 0;
               header =
                 (if b < 0x80 then Inr (KByte, 0, 1)
                  else if b < 0xB8
                  then (if unat (b - 0x80) = 1 \<and> length buf > 1 \<and> buf ! 1 < 128 then Inl ErrCanonSize
                        else Inr (KString, 1, unat (b - 0x80)))
                  else if b < 0xC0
                  then (case readSize (drop 1 buf) (unat (b - 0xB7)) of Inl e \<Rightarrow> Inl e
                        | Inr s \<Rightarrow> Inr (KString, unat (b - 0xB7) + 1, unat s))
                  else if b < 0xF8 then Inr (KList, 1, unat (b - 0xC0))
                  else (case readSize (drop 1 buf) (unat (b - 0xF7)) of Inl e \<Rightarrow> Inl e
                        | Inr s \<Rightarrow> Inr (KList, unat (b - 0xF7) + 1, unat s)))
           in case header of Inl e \<Rightarrow> Inl e
              | Inr (k, tagsize, contentsize) \<Rightarrow>
                  if contentsize > length buf - tagsize then Inl ErrValueTooLarge
                  else Inr (k, tagsize, contentsize))"

definition Split :: "bytes \<Rightarrow> rlpError + (Kind \<times> bytes \<times> bytes)" where
  "Split b =
     (case readKind b of Inl e \<Rightarrow> Inl e
      | Inr (k, ts, cs) \<Rightarrow> Inr (k, take cs (drop ts b), drop (ts + cs) b))"

definition SplitString :: "bytes \<Rightarrow> rlpError + (bytes \<times> bytes)" where
  "SplitString b =
     (case Split b of Inl e \<Rightarrow> Inl e
      | Inr (k, content, rest) \<Rightarrow>
          if k = KList then Inl ErrExpectedString else Inr (content, rest))"

definition SplitUint64 :: "bytes \<Rightarrow> rlpError + (uint64 \<times> bytes)" where
  "SplitUint64 b =
     (case SplitString b of Inl e \<Rightarrow> Inl e
      | Inr (content, rest) \<Rightarrow>
          if length content = 0 then Inr (0, rest)
          else if length content = 1
          then (if content ! 0 = 0 then Inl ErrCanonInt else Inr (ucast (content ! 0), rest))
          else if length content > 8 then Inl ErrUintOverflow
          else (case readSize content (length content) of Inl _ \<Rightarrow> Inl ErrCanonInt
                | Inr x \<Rightarrow> Inr (x, rest)))"

definition SplitList :: "bytes \<Rightarrow> rlpError + (bytes \<times> bytes)" where
  "SplitList b =
     (case Split b of Inl e \<Rightarrow> Inl e
      | Inr (k, content, rest) \<Rightarrow>
          if k \<noteq> KList then Inl ErrExpectedList else Inr (content, rest))"

lemma readKind_shrinks:
  assumes "readKind b = Inr (k, ts, cs)"
  shows "b \<noteq> []" "ts + cs \<le> length b" "0 < ts + cs" "k \<noteq> KByte \<Longrightarrow> 0 < ts"
proof -
  obtain x xs where b: "b = x # xs" using assms by (cases b) (auto simp: readKind_def)
  have "ts + cs \<le> length b \<and> 0 < ts + cs \<and> (k \<noteq> KByte \<longrightarrow> 0 < ts)"
    using assms unfolding b readKind_def Let_def readSize_def
    by (auto split: if_splits sum.splits)
  with b show "b \<noteq> []" "ts + cs \<le> length b" "0 < ts + cs" "k \<noteq> KByte \<Longrightarrow> 0 < ts" by auto
qed

text \<open>\<open>CountValues\<close> and the iterator walk over the values of a byte string.\<close>

function CountValuesFrom :: "nat \<Rightarrow> bytes \<Rightarrow> nat \<times> rlpError option" where
  "CountValuesFrom i b =
     (if length b > 0
      then (case readKind b of Inl e \<Rightarrow> (i + 1, Some e)
            | Inr (k, tagsize, sz) \<Rightarrow> CountValuesFrom (i + 1) (drop (tagsize + sz) b))
      else (i, None))"
  by pat_completeness auto
termination by (relation "measure (\<lambda>(i, b). length b)") (auto dest: readKind_shrinks)

declare CountValuesFrom.simps [simp del]

definition CountValues :: "bytes \<Rightarrow> nat \<times> rlpError option" where
  "CountValues b = CountValuesFrom 0 b"

record Iterator =
  itData :: bytes
  itNext :: "bytes option"
  itOffset :: nat
  itErr :: "rlpError option"

definition newIterator :: "bytes \<Rightarrow> nat \<Rightarrow> Iterator" where
  "newIterator data initialOffset = \<lparr>itData = data, itNext = None, itOffset = initialOffset, itErr = None\<rparr>"

definition NewListIterator :: "bytes \<Rightarrow> rlpError + Iterator" where
  "NewListIterator data =
     (case readKind data of Inl e \<Rightarrow> Inl e
      | Inr (k, t, c) \<Rightarrow>
          if k \<noteq> KList then Inl ErrExpectedList else Inr (newIterator (take c (drop t data)) t))"

definition Iterator_Next :: "Iterator \<Rightarrow> bool \<times> Iterator" where
  "Iterator_Next it =
     (if length (itData it) = 0 then (False, it)
      else case readKind (itData it) of
        Inl e \<Rightarrow> (True, it\<lparr>itNext := None, itErr := Some e, itData := []\<rparr>)
      | Inr (k, t, c) \<Rightarrow>
          (True, it\<lparr>itNext := Some (take (t + c) (itData it)), itData := drop (t + c) (itData it),
                    itOffset := itOffset it + (t + c), itErr := None\<rparr>))"

section \<open>Numbers in big-endian form\<close>

lemma unat_byte: "unat (b :: byte) < 256"
  using unsigned_less [where w = b and ?'a = nat] by simp

lemma unat_uint64: "unat (i :: uint64) < 18446744073709551616"
  using unsigned_less [where w = i and ?'a = nat] by simp

definition beVal :: "bytes \<Rightarrow> nat" where
  "beVal bs = foldl (\<lambda>s b. s * 256 + unat b) 0 bs"

lemma beVal_snoc [simp]: "beVal (bs @ [b]) = beVal bs * 256 + unat b"
  by (simp add: beVal_def)

lemma beVal_Nil [simp]: "beVal [] = 0"
  by (simp add: beVal_def)

lemma beVal_be [simp]: "beVal (be n) = n"
proof (induction n rule: be.induct)
  case (1 n)
  show ?case
  proof (cases "n < 256")
    case True
    then show ?thesis by (subst be.simps) (simp add: beVal_def unat_of_nat)
  next
    case False
    with 1 show ?thesis by (subst be.simps) (simp add: unat_of_nat)
  qed
qed

lemma be_not_Nil [simp]: "be n \<noteq> []"
  by (subst be.simps) simp

lemma hd_be: "0 < n \<Longrightarrow> be n ! 0 \<noteq> 0"
proof (induction n rule: be.induct)
  case (1 n)
  show ?case
  proof (cases "n < 256")
    case True
    then have "unat (of_nat n :: byte) = n" by (simp add: unat_of_nat)
    with 1(2) have "(of_nat n :: byte) \<noteq> 0" by (metis unat_0 less_irrefl)
    with True show ?thesis by (subst be.simps) simp
  next
    case False
    with 1 have "be (n div 256) ! 0 \<noteq> 0" by simp
    with False show ?thesis by (subst be.simps) (simp add: nth_append)
  qed
qed

lemma length_be: "n < 256 ^ k \<Longrightarrow> 0 < k \<Longrightarrow> length (be n) \<le> k"
proof (induction k arbitrary: n)
  case (Suc k)
  show ?case
  proof (cases "n < 256")
    case False
    then have "0 < k" using Suc.prems by (cases k) auto
    moreover have "n div 256 < 256 ^ k" using Suc.prems by (simp add: less_mult_imp_div_less mult.commute)
    ultimately have "length (be (n div 256)) \<le> k" using Suc.IH by simp
    with False show ?thesis by (subst be.simps) simp
  qed (subst be.simps, simp)
qed simp

lemma length_be_unat: "length (be (unat (i :: uint64))) \<le> 8"
  by (rule length_be) (use unat_uint64 [of i] in simp_all)

lemma byte_of_nat_mod: "(of_nat (n mod 256) :: byte) = of_nat n"
  by (rule word_unat_eq_iff [THEN iffD2]) (simp add: unat_of_nat)

lemma byteAt_nat: "byteAt i k = of_nat (unat i div 2 ^ k)"
  unfolding byteAt_def unat_shift [symmetric] by (simp add: of_nat_unat)

lemma be_digit: "256 \<le> n \<Longrightarrow> be n = be (n div 256) @ [of_nat n]"
  by (subst be.simps) (simp add: byte_of_nat_mod)

lemma be_last: "n < 256 \<Longrightarrow> be n = [of_nat n]"
  by (subst be.simps) simp

lemma putint_be: "putint i = be (unat i)"
proof -
  have "unat i div 72057594037927936 < 256"
    using unat_uint64 [of i] by (intro less_mult_imp_div_less) simp
  then show ?thesis
    unfolding putint_def byteAt_nat word_less_nat_alt
    by (simp add: be_digit be_last div_mult2_eq [symmetric] not_less)
qed

lemma intsize_be: "intsize i = length (be (unat i))"
proof (induction i rule: intsize.induct)
  case (1 i)
  have e: "unat (drop_bit 8 i) = unat i div 256" using unat_shift [of 8 i] by simp
  show ?case
  proof (cases "drop_bit 8 i = 0")
    case True
    then have "unat i div 256 = 0" using e by simp
    then have "unat i < 256" by (simp add: div_eq_0_iff)
    with True show ?thesis by (subst intsize.simps) (simp add: be_last)
  next
    case False
    then have "0 < unat i div 256" using e unat_gt_0 by metis
    then have "256 \<le> unat i" by (simp add: div_greater_zero_iff)
    with False 1 e show ?thesis by (subst intsize.simps) (simp add: be_digit Let_def)
  qed
qed

lemma readBE_step: "(push_bit 8 s OR ucast (b :: byte) :: uint64) = s * 256 + ucast b"
proof -
  have "push_bit 8 s AND (ucast b :: uint64) = 0"
    by (rule bit_word_eqI) (auto simp: bit_simps dest: bit_imp_le_length)
  then have "push_bit 8 s OR (ucast b :: uint64) = push_bit 8 s + ucast b"
    by (simp add: disjunctive_add_eq_or)
  then show ?thesis by (simp add: push_bit_eq_mult)
qed

lemma beVal_less: "beVal bs < 256 ^ length bs"
proof (induction bs rule: rev_induct)
  case (snoc b bs)
  have "unat b < 256" by (rule unat_byte)
  then show ?case using snoc by simp
qed simp

lemma readBE_of_nat: "readBE bs = of_nat (beVal bs)"
  unfolding readBE_def
proof (induction bs rule: rev_induct)
  case (snoc b bs)
  then show ?case by (simp add: readBE_step of_nat_unat)
qed simp

lemma readBE_be: "readBE (be (unat i)) = i"
  by (simp add: readBE_of_nat)

section \<open>The reference encoding\<close>

fun encodeItem :: "item \<Rightarrow> bytes" where
  "encodeItem (Str b) = writeBytes b"
| "encodeItem (Lst xs) =
     (let content = concat (map encodeItem xs) in puthead 0xC0 0xF7 (of_nat (length content)) @ content)"

definition encodeItems :: "item list \<Rightarrow> bytes" where
  "encodeItems xs = concat (map encodeItem xs)"

lemma encodeItems_simps [simp]:
  "encodeItems [] = []" "encodeItems (x # xs) = encodeItem x @ encodeItems xs"
  by (simp_all add: encodeItems_def)

lemma encodeItem_Lst: "encodeItem (Lst xs) = puthead 0xC0 0xF7 (of_nat (length (encodeItems xs))) @ encodeItems xs"
  by (simp add: encodeItems_def Let_def)

declare encodeItem.simps(2) [simp del] encodeItem_Lst [simp]

lemma length_puthead: "length (puthead s l n) = headsize n"
  by (simp add: puthead_def headsize_def putint_be intsize_be Let_def)

text \<open>The buffer keeps string data and list headers apart; \<open>itemStr\<close> and \<open>itemHeads\<close> say what a
  value contributes to each.\<close>

fun itemStr :: "item \<Rightarrow> bytes" where
  "itemStr (Str b) = writeBytes b"
| "itemStr (Lst xs) = (if xs = [] then [0xC0] else concat (map itemStr xs))"

fun itemHeads :: "nat \<Rightarrow> item \<Rightarrow> listhead list"
  and itemsHeads :: "nat \<Rightarrow> item list \<Rightarrow> listhead list" where
  "itemHeads off (Str b) = []"
| "itemHeads off (Lst xs) =
     (if xs = [] then []
      else \<lparr>lhOffset = off, lhSize = length (encodeItems xs)\<rparr> # itemsHeads off xs)"
| "itemsHeads off [] = []"
| "itemsHeads off (x # xs) = itemHeads off x @ itemsHeads (off + length (itemStr x)) xs"

definition itemsStr :: "item list \<Rightarrow> bytes" where
  "itemsStr xs = concat (map itemStr xs)"

lemma itemsStr_simps [simp]: "itemsStr [] = []" "itemsStr (x # xs) = itemStr x @ itemsStr xs"
  by (simp_all add: itemsStr_def)

definition headsLen :: "listhead list \<Rightarrow> nat" where
  "headsLen hs = sum_list (map (\<lambda>h. length (listhead_encode h)) hs)"

lemma headsLen_simps [simp]:
  "headsLen [] = 0" "headsLen (h # hs) = length (listhead_encode h) + headsLen hs"
  "headsLen (hs @ gs) = headsLen hs + headsLen gs"
  by (simp_all add: headsLen_def)

lemma puthead_empty: "puthead 0xC0 0xF7 0 = [0xC0]"
  by (simp add: puthead_def)

lemma length_encodeItem:
  "length (encodeItem x) = length (itemStr x) + headsLen (itemHeads off x)"
  "length (encodeItems xs) = length (itemsStr xs) + headsLen (itemsHeads off xs)"
proof (induction off x and off xs rule: itemHeads_itemsHeads.induct)
  case (2 off xs)
  then show ?case
    by (cases "xs = []")
      (simp_all add: encodeItem_Lst puthead_empty listhead_encode_def itemsStr_def [symmetric])
qed simp_all

lemma writeItem_effect:
  "length (encodeItem x) < 2 ^ 64 \<Longrightarrow>
   writeItem x buf = \<lparr>bufStr = bufStr buf @ itemStr x,
     lheads = lheads buf @ itemHeads (length (bufStr buf)) x,
     lhsize = lhsize buf + headsLen (itemHeads (length (bufStr buf)) x)\<rparr>"
  "length (encodeItems xs) < 2 ^ 64 \<Longrightarrow>
   writeItems xs buf = \<lparr>bufStr = bufStr buf @ itemsStr xs,
     lheads = lheads buf @ itemsHeads (length (bufStr buf)) xs,
     lhsize = lhsize buf + headsLen (itemsHeads (length (bufStr buf)) xs)\<rparr>"
proof (induction x buf and xs buf rule: writeItem_writeItems.induct)
  case (2 xs buf)
  show ?case
  proof (cases "xs = []")
    case False
    let ?off = "length (bufStr buf)"
    let ?h = "\<lparr>lhOffset = ?off, lhSize = lhsize buf\<rparr>"
    let ?b1 = "buf\<lparr>lheads := lheads buf @ [?h]\<rparr>"
    have lt: "length (encodeItems xs) < 2 ^ 64" using 2(2) by (simp add: encodeItem_Lst)
    then have w: "writeItems xs ?b1 = \<lparr>bufStr = bufStr buf @ itemsStr xs,
        lheads = lheads buf @ ?h # itemsHeads ?off xs,
        lhsize = lhsize buf + headsLen (itemsHeads ?off xs)\<rparr>"
      using 2(1) [OF False, of _ "length (lheads buf)" ?b1] by (simp add: bufList_def)
    have n: "bufSize (writeItems xs ?b1) - ?off - lhsize buf = length (encodeItems xs)"
      by (simp add: w bufSize_def length_encodeItem(2) [of xs ?off])
    have "(of_nat (length (encodeItems xs)) :: uint64) < 56 \<longleftrightarrow> length (encodeItems xs) < 56"
      using lt by (simp add: word_less_nat_alt unat_of_nat)
    then have l: "length (listhead_encode \<lparr>lhOffset = ?off, lhSize = length (encodeItems xs)\<rparr>) =
        (if length (encodeItems xs) < 56 then 1 else 1 + intsize (of_nat (length (encodeItems xs))))"
      by (simp add: listhead_encode_def length_puthead headsize_def)
    show ?thesis
      using False n
      by (simp add: bufList_def bufListEnd_def Let_def w l itemsStr_def [symmetric] add.assoc)
  qed simp
qed simp_all

lemma copy_skip:
  assumes "p \<le> q" "q \<le> length str" "\<forall>h \<in> set hs. q \<le> lhOffset h"
  shows "copyToFrom p str hs = take (q - p) (drop p str) @ copyToFrom q str hs"
proof -
  have split: "take (o' - p) (drop p str) = take (q - p) (drop p str) @ take (o' - q) (drop q str)"
    if "q \<le> o'" for o'
    using take_add [of "q - p" "o' - q" "drop p str"] that assms(1) by simp
  show ?thesis
  proof (cases hs)
    case Nil
    then show ?thesis
      using append_take_drop_id [of "q - p" "drop p str"] assms(1) by simp
  next
    case (Cons h gs)
    then have "q \<le> lhOffset h" using assms(3) by simp
    moreover from this have "p + length (take (lhOffset h - p) (drop p str)) =
        q + length (take (lhOffset h - q) (drop q str))"
      using assms(1,2) by simp
    ultimately show ?thesis unfolding Cons using split [of "lhOffset h"]
      by (simp only: copyToFrom.simps append_assoc)
  qed
qed

lemma heads_above:
  "\<forall>h \<in> set (itemHeads off x). off \<le> lhOffset h"
  "\<forall>h \<in> set (itemsHeads off xs). off \<le> lhOffset h"
  by (induction off x and off xs rule: itemHeads_itemsHeads.induct) (auto intro: le_trans [OF le_add1])

lemma copy_item:
  "off = length s \<Longrightarrow> str = s @ itemStr x @ t \<Longrightarrow> \<forall>h \<in> set hs. off + length (itemStr x) \<le> lhOffset h \<Longrightarrow>
     copyToFrom off str (itemHeads off x @ hs) = encodeItem x @ copyToFrom (off + length (itemStr x)) str hs"
  "off = length s \<Longrightarrow> str = s @ itemsStr xs @ t \<Longrightarrow> \<forall>h \<in> set hs. off + length (itemsStr xs) \<le> lhOffset h \<Longrightarrow>
     copyToFrom off str (itemsHeads off xs @ hs) = encodeItems xs @ copyToFrom (off + length (itemsStr xs)) str hs"
proof (induction off x and off xs arbitrary: s t hs and s t hs rule: itemHeads_itemsHeads.induct)
  case (1 off b)
  then show ?case using copy_skip [of off "off + length (writeBytes b)" str hs] by simp
next
  case (2 off xs)
  show ?case
  proof (cases "xs = []")
    case True
    with 2 show ?thesis using copy_skip [of off "off + 1" str hs] by (simp add: puthead_empty)
  next
    case False
    then have "itemStr (Lst xs) = itemsStr xs" by (simp add: itemsStr_def)
    with False 2 show ?thesis by (simp add: listhead_encode_def)
  qed
next
  case (4 off x xs)
  have "\<forall>h \<in> set (itemsHeads (off + length (itemStr x)) xs @ hs). off + length (itemStr x) \<le> lhOffset h"
    using heads_above(2) [of "off + length (itemStr x)" xs] 4(5) by fastforce
  from 4(1) [OF 4(3) _ this, of "itemsStr xs @ t"] 4(2) [of "s @ itemStr x" t hs] 4(3-5)
  show ?case by (simp add: add.assoc)
qed simp

lemma EncodeToBytes_eq:
  assumes "length (encodeItem x) < 2 ^ 64"
  shows "EncodeToBytes x = encodeItem x"
  using copy_item(1) [of 0 "[]" "itemStr x" x "[]" "[]"]
  by (simp add: EncodeToBytes_def makeBytes_def emptyBuffer_def writeItem_effect(1) [OF assms])

section \<open>Splitting inverts encoding\<close>

lemma readKind_small:
  assumes "n < 56"
  shows "n \<le> length r \<Longrightarrow> \<not> (n = 1 \<and> r ! 0 < 128) \<Longrightarrow> readKind ((0x80 + of_nat n) # r) = Inr (KString, 1, n)"
    and "n \<le> length r \<Longrightarrow> readKind ((0xC0 + of_nat n) # r) = Inr (KList, 1, n)"
proof -
  have u: "unat (0x80 + of_nat n :: byte) = 128 + n" "unat (0xC0 + of_nat n :: byte) = 192 + n"
    using assms by (simp_all add: unat_word_ariths unat_of_nat)
  show "readKind ((0x80 + of_nat n) # r) = Inr (KString, 1, n)"
    if "n \<le> length r" "\<not> (n = 1 \<and> r ! 0 < 128)"
    using that assms u(1) by (auto simp: readKind_def Let_def word_less_nat_alt unat_of_nat)
  show "readKind ((0xC0 + of_nat n) # r) = Inr (KList, 1, n)" if "n \<le> length r"
    using that assms u(2) by (auto simp: readKind_def Let_def word_less_nat_alt unat_of_nat)
qed

lemma readSize_be:
  assumes "56 \<le> n" "n < 2 ^ 64"
  shows "readSize (be n @ r) (length (be n)) = Inr (of_nat n)"
proof -
  have u: "unat (of_nat n :: uint64) = n" using assms(2) by (simp add: unat_of_nat)
  have "readBE (be n) = of_nat n" using readBE_be [of "of_nat n"] u by simp
  moreover have "\<not> (of_nat n :: uint64) < 56" using assms(1) u by (simp add: word_less_nat_alt)
  moreover have "(be n @ r) ! 0 \<noteq> 0" using hd_be [of n] assms(1) by (simp add: nth_append)
  ultimately show ?thesis by (simp add: readSize_def)
qed

lemma readKind_large:
  assumes "56 \<le> n" "n < 2 ^ 64" "n \<le> length r"
  shows "readKind ((0xB7 + of_nat (length (be n))) # be n @ r) = Inr (KString, length (be n) + 1, n)"
    and "readKind ((0xF7 + of_nat (length (be n))) # be n @ r) = Inr (KList, length (be n) + 1, n)"
proof -
  let ?k = "length (be n)"
  have "0 < ?k" by simp
  then have k: "1 \<le> ?k" by linarith
  moreover have "?k \<le> 8" by (rule length_be) (use assms(2) in simp_all)
  note k = calculation this
  have u: "unat (0xB7 + of_nat ?k :: byte) = 183 + ?k" "unat (0xF7 + of_nat ?k :: byte) = 247 + ?k"
    using k by (simp_all add: unat_word_ariths unat_of_nat)
  have n: "unat (of_nat n :: uint64) = n" using assms(2) by (simp add: unat_of_nat)
  have d: "(0xB7 + of_nat ?k :: byte) - 0xB7 = of_nat ?k" "(0xF7 + of_nat ?k :: byte) - 0xF7 = of_nat ?k" by simp_all
  have uk: "unat (of_nat ?k :: byte) = ?k" using k by (simp add: unat_of_nat)
  show "readKind ((0xB7 + of_nat ?k) # be n @ r) = Inr (KString, ?k + 1, n)"
    using k u(1) assms(3) readSize_be [OF assms(1,2), of r] n
    by (simp add: readKind_def Let_def word_less_nat_alt d uk del: add_diff_cancel_left')
  show "readKind ((0xF7 + of_nat ?k) # be n @ r) = Inr (KList, ?k + 1, n)"
    using k u(2) assms(3) readSize_be [OF assms(1,2), of r] n
    by (simp add: readKind_def Let_def word_less_nat_alt d uk del: add_diff_cancel_left')
qed

lemma encodeStringHeader_cases:
  assumes "n < 2 ^ 64"
  shows "encodeStringHeader (of_nat n) =
    (if n < 56 then [0x80 + of_nat n] else (0xB7 + of_nat (length (be n))) # be n)"
    and "puthead 0xC0 0xF7 (of_nat n) =
    (if n < 56 then [0xC0 + of_nat n] else (0xF7 + of_nat (length (be n))) # be n)"
proof -
  have u: "unat (of_nat n :: uint64) = n" using assms by (simp add: unat_of_nat)
  then have "(ucast (of_nat n :: uint64) :: byte) = of_nat n" by (metis of_nat_unat)
  with u show "encodeStringHeader (of_nat n) =
    (if n < 56 then [0x80 + of_nat n] else (0xB7 + of_nat (length (be n))) # be n)"
    and "puthead 0xC0 0xF7 (of_nat n) =
    (if n < 56 then [0xC0 + of_nat n] else (0xF7 + of_nat (length (be n))) # be n)"
    by (simp_all add: encodeStringHeader_def puthead_def word_less_nat_alt putint_be Let_def)
qed

lemma Split_Str:
  assumes "length b < 2 ^ 64"
  shows "\<exists>k. k \<noteq> KList \<and> Split (writeBytes b @ r) = Inr (k, b, r)"
proof -
  note h = encodeStringHeader_cases(1) [OF assms]
  consider x where "b = [x]" "x < 128" | "length b < 56" "\<not> (length b = 1 \<and> b ! 0 < 128)" | "56 \<le> length b"
    by (cases "length b < 56"; cases "length b = 1 \<and> b ! 0 < 128") (auto simp: length_Suc_conv)
  then show ?thesis
  proof cases
    case 1
    then have "x \<le> 127" by (simp add: word_le_nat_alt word_less_nat_alt)
    with 1 show ?thesis by (simp add: writeBytes_def Split_def readKind_def)
  next
    case 2
    then have w: "writeBytes b = (0x80 + of_nat (length b)) # b"
      by (auto simp: writeBytes_def h word_le_nat_alt word_less_nat_alt)
    have "\<not> (length b = 1 \<and> (b @ r) ! 0 < 128)" using 2(2) by (auto simp: nth_append)
    with 2(1) readKind_small(1) [of "length b" "b @ r"] show ?thesis by (simp add: w Split_def)
  next
    case 3
    then have w: "writeBytes b = (0xB7 + of_nat (length (be (length b)))) # be (length b) @ b"
      by (auto simp: writeBytes_def h)
    from readKind_large(1) [OF 3 assms, of "b @ r"] show ?thesis by (simp add: w Split_def)
  qed
qed

lemma Split_Lst:
  assumes "length c < 2 ^ 64"
  shows "Split (puthead 0xC0 0xF7 (of_nat (length c)) @ c @ r) = Inr (KList, c, r)"
proof (cases "length c < 56")
  case True
  with readKind_small(2) [of "length c" "c @ r"] show ?thesis
    by (simp add: encodeStringHeader_cases(2) [OF assms] Split_def)
next
  case False
  then have "56 \<le> length c" by simp
  from readKind_large(2) [OF this assms, of "c @ r"] False show ?thesis
    by (simp add: encodeStringHeader_cases(2) [OF assms] Split_def)
qed

text \<open>Reading all values of a byte string by splitting, lists recursively.\<close>

lemma Split_shrinks:
  assumes "Split b = Inr (k, c, r)"
  shows "length r < length b" "k = KList \<Longrightarrow> length c < length b"
proof -
  obtain ts cs where r: "readKind b = Inr (k, ts, cs)" "c = take cs (drop ts b)" "r = drop (ts + cs) b"
    using assms by (auto simp: Split_def split: sum.splits)
  note d = readKind_shrinks [OF r(1)]
  show "length r < length b" using d r(3) by simp
  show "length c < length b" if "k = KList" using d that r(2) by simp
qed

function decodeItems :: "bytes \<Rightarrow> item list option" where
  "decodeItems b =
     (if b = [] then Some []
      else case Split b of Inl _ \<Rightarrow> None
      | Inr (k, content, rest) \<Rightarrow> do {
          x \<leftarrow> (if k = KList then do { xs \<leftarrow> decodeItems content; Some (Lst xs) } else Some (Str content));
          xs \<leftarrow> decodeItems rest;
          Some (x # xs) })"
  by pat_completeness auto
termination by (relation "measure length") (auto dest: Split_shrinks)

declare decodeItems.simps [simp del]

lemma encodeItem_not_Nil [simp]: "encodeItem x \<noteq> []"
  by (cases x) (simp_all add: writeBytes_def encodeStringHeader_def puthead_def Let_def)

lemma decode_encode_item:
  "length (encodeItem x) < 2 ^ 64 \<Longrightarrow>
     decodeItems (encodeItem x @ r) = map_option ((#) x) (decodeItems r)"
proof (induction x arbitrary: r)
  case (Str b)
  then have "length b < 2 ^ 64" by (simp add: writeBytes_def split: if_splits)
  from Split_Str [OF this, of r] obtain k where
    k: "k \<noteq> KList" "Split (encodeItem (Str b) @ r) = Inr (k, b, r)" by auto
  have "encodeItem (Str b) @ r \<noteq> []" by (simp del: encodeItem.simps)
  then have "decodeItems (encodeItem (Str b) @ r) = do { xs \<leftarrow> decodeItems r; Some (Str b # xs) }"
    using k by (subst decodeItems.simps) (simp del: encodeItem.simps)
  then show ?case by (cases "decodeItems r") (simp_all del: encodeItem.simps)
next
  case (Lst xs)
  have all: "decodeItems (encodeItems ys) = Some ys"
    if "set ys \<subseteq> set xs" "length (encodeItems ys) < 2 ^ 64" for ys
    using that
  proof (induction ys)
    case Nil
    show ?case by (subst decodeItems.simps) simp
  next
    case (Cons y ys)
    then show ?case using Lst.IH [of y "encodeItems ys"] by simp
  qed
  have "length (encodeItems xs) < 2 ^ 64" using Lst.prems by simp
  then have "Split (encodeItem (Lst xs) @ r) = Inr (KList, encodeItems xs, r)"
    "decodeItems (encodeItems xs) = Some xs"
    using Split_Lst [of "encodeItems xs" r] all by simp_all
  moreover have "encodeItem (Lst xs) @ r \<noteq> []" by (simp del: encodeItem_Lst)
  ultimately have "decodeItems (encodeItem (Lst xs) @ r) = do { ys \<leftarrow> decodeItems r; Some (Lst xs # ys) }"
    by (subst decodeItems.simps) (simp del: encodeItem_Lst)
  then show ?case by (cases "decodeItems r") (simp_all del: encodeItem_Lst)
qed

lemma decodeItems_Nil [simp]: "decodeItems [] = Some []"
  by (subst decodeItems.simps) simp

lemma encodeItem_inj:
  assumes "encodeItem x = encodeItem y" "length (encodeItem x) < 2 ^ 64"
  shows "x = y"
  using decode_encode_item [of x "[]"] decode_encode_item [of y "[]"] assms by simp

section \<open>Integers as items\<close>

definition intItem :: "int \<Rightarrow> item" where
  "intItem i = Str (if i = 0 then [] else be (nat i))"

definition uintItem :: "uint64 \<Rightarrow> item" where
  "uintItem i = intItem (uint i)"

lemma bitLen_le_64: "bitLen n \<le> k \<longleftrightarrow> n < 2 ^ k"
proof (induction n arbitrary: k rule: bitLen.induct)
  case (1 n)
  show ?case
  proof (cases "n = 0")
    case False
    show ?thesis
    proof (cases k)
      case 0
      with False show ?thesis by (subst bitLen.simps) simp
    next
      case (Suc m)
      have "n div 2 < 2 ^ m \<longleftrightarrow> n < 2 ^ Suc m" by (auto simp: div_less_iff_less_mult mult.commute)
      with False Suc 1 [OF False] show ?thesis by (subst bitLen.simps) simp
    qed
  qed (subst bitLen.simps, simp)
qed

lemma uintItem_Str: "uintItem i = Str (if i = 0 then [] else be (unat i))"
  by (simp add: uintItem_def intItem_def uint_0_iff)

lemma unat_ucast_byte:
  "unat i < 256 \<Longrightarrow> unat (ucast (i :: uint64) :: byte) = unat i"
  using unat_of_nat [where ?'a = 8, of "unat i"] by (simp add: of_nat_unat)

lemma ucast_ucast_byte:
  assumes "unat (i :: uint64) < 256"
  shows "(ucast (ucast i :: byte) :: uint64) = i"
  using of_nat_unat [of "ucast i :: byte", where ?'a = "64 word"] unat_ucast_byte [OF assms]
  by (simp add: of_nat_unat)

lemma writeUint64_item: "encodeItem (uintItem i) = writeUint64 i"
proof -
  let ?n = "unat i"
  note u = unat_ucast_byte [of i]
  consider "i = 0" | "0 < ?n" "?n < 128" | "128 \<le> ?n" "?n < 256" | "256 \<le> ?n"
    by (metis unat_gt_0 not_less)
  then show ?thesis
  proof cases
    case 1
    then show ?thesis by (simp add: uintItem_Str writeUint64_def writeBytes_def encodeStringHeader_def)
  next
    case 2
    then have "(ucast i :: byte) \<le> 0x7F" by (simp add: word_le_nat_alt u)
    moreover have "i \<noteq> 0" "i < 128" using 2 by (auto simp: word_less_nat_alt)
    ultimately show ?thesis
      using 2 be_last [of ?n] by (simp add: uintItem_Str writeUint64_def writeBytes_def)
  next
    case 3
    then have "\<not> (ucast i :: byte) \<le> 0x7F" by (simp add: word_le_nat_alt u)
    moreover have "i \<noteq> 0" "\<not> i < 128" using 3 by (auto simp: word_less_nat_alt)
    ultimately show ?thesis
      using 3 be_last [of ?n]
      by (simp add: uintItem_Str writeUint64_def writeBytes_def putint_be encodeStringHeader_def Let_def)
  next
    case 4
    then have l: "length (be ?n) \<noteq> 1" by (simp add: be_digit)
    have "length (be ?n) \<le> 8" by (rule length_be_unat)
    then have "encodeStringHeader (of_nat (length (be ?n))) = [0x80 + of_nat (length (be ?n))]"
      using encodeStringHeader_cases(1) [of "length (be ?n)"] by simp
    moreover have "i \<noteq> 0" "\<not> i < 128" using 4 by (auto simp: word_less_nat_alt)
    ultimately show ?thesis
      using l by (simp add: uintItem_Str writeUint64_def writeBytes_def putint_be Let_def)
  qed
qed

lemma writeBigInt_item:
  assumes "0 \<le> i"
  shows "encodeItem (intItem i) = writeBigInt i"
proof (cases "nat i < 2 ^ 64")
  case True
  then have "intItem i = uintItem (bigUint64 i)" using assms by (simp add: uintItem_def)
  with True show ?thesis by (simp add: writeUint64_item writeBigInt_def bitLen_le_64)
next
  case False
  then have "256 \<le> nat i" by simp
  then have "length (be (nat i)) \<noteq> 1" by (simp add: be_digit)
  moreover have "i \<noteq> 0" using False by auto
  ultimately show ?thesis using False by (simp add: intItem_def writeBigInt_def bitLen_le_64 writeBytes_def Let_def)
qed

lemma intItem_inj: "0 \<le> i \<Longrightarrow> 0 \<le> j \<Longrightarrow> intItem i = intItem j \<longleftrightarrow> i = j"
proof
  assume ij: "0 \<le> i" "0 \<le> j" "intItem i = intItem j"
  have "beVal (if k = 0 then [] else be (nat k)) = nat k" if "0 \<le> k" for k by simp
  from this [OF ij(1)] this [OF ij(2)] have "nat i = nat j" using ij(3) by (simp only: intItem_def item.inject)
  with ij show "i = j" by simp
qed simp

lemma uintItem_inj: "uintItem i = uintItem j \<longleftrightarrow> i = j"
  by (simp add: uintItem_def intItem_inj word_uint_eq_iff)

section \<open>Properties\<close>

text \<open>C21. The two-phase encoder, which collects string data and list headers separately and merges
  them at the end, produces the recursive encoding of every value, and splitting the result reads
  the value back.\<close>

theorem rlp_round_trip:
  assumes "length (encodeItem x) < 2 ^ 64"
  shows "EncodeToBytes x = encodeItem x \<and> decodeItems (EncodeToBytes x) = Some [x]"
  using EncodeToBytes_eq [OF assms] decode_encode_item [OF assms, of "[]"] by simp

definition exampleItem :: item where
  "exampleItem = Lst [Str [1], Lst [], Lst [Str (replicate 60 7), Str []]]"

theorem rlp_round_trip_witness:
  "decodeItems (EncodeToBytes exampleItem) = Some [exampleItem]"
proof -
  have "length (encodeItem exampleItem) < 2 ^ 64"
    by (simp add: exampleItem_def length_puthead writeBytes_def encodeStringHeader_def putint_be
        headsize_def be_last intsize_be Let_def word_less_nat_alt)
  from rlp_round_trip [OF this] show ?thesis by (rule conjunct2)
qed

text \<open>C22. Unsigned integers: appending to a byte slice writes the same bytes as the buffer writer,
  \<open>SplitUint64\<close> reads them back and leaves the rest, and \<open>IntSize\<close> is their length.\<close>

theorem uint64_round_trip:
  "AppendUint64 b i = b @ writeUint64 i \<and> SplitUint64 (writeUint64 i @ r) = Inr (i, r)
   \<and> IntSize i = length (writeUint64 i)"
proof (intro conjI)
  show "AppendUint64 b i = b @ writeUint64 i"
    by (simp add: AppendUint64_def writeUint64_def putint_def Let_def byteAt_def)
next
  show "IntSize i = length (writeUint64 i)"
    by (auto simp: IntSize_def writeUint64_def intsize_be putint_be Let_def)
next
  let ?b = "if i = 0 then [] else be (unat i)"
  have w: "writeUint64 i = writeBytes ?b"
    using writeUint64_item [of i] by (simp add: uintItem_Str split: if_splits)
  have l: "length ?b \<le> 8" using length_be_unat [of i] by simp
  then obtain k where k: "k \<noteq> KList" "Split (writeUint64 i @ r) = Inr (k, ?b, r)"
    using Split_Str [of ?b r] unfolding w by fastforce
  have s: "SplitString (writeUint64 i @ r) = Inr (?b, r)" using k by (simp add: SplitString_def)
  consider "i = 0" | "i \<noteq> 0" "unat i < 256" | "256 \<le> unat i" by linarith
  then show "SplitUint64 (writeUint64 i @ r) = Inr (i, r)"
  proof cases
    case 2
    then have b: "be (unat i) = [ucast i]" using be_last [of "unat i"] by (simp add: of_nat_unat)
    moreover have "(ucast (ucast i :: byte) :: uint64) = i" using 2 by (intro ucast_ucast_byte)
    moreover have "(ucast i :: byte) \<noteq> 0" using hd_be [of "unat i"] b 2(1) by (simp add: unat_gt_0)
    ultimately show ?thesis using 2 s by (simp add: SplitUint64_def)
  next
    case 3
    then have "length (be (unat i)) \<noteq> 1" "i \<noteq> 0" by (auto simp: be_digit)
    moreover have "readSize (be (unat i)) (length (be (unat i))) = Inr i"
      using readSize_be [of "unat i" "[]"] 3 unat_uint64 [of i] by simp
    ultimately show ?thesis using s l by (simp add: SplitUint64_def)
  qed (use s in \<open>simp add: SplitUint64_def\<close>)
qed

end
