(* ===== verification/Block_Types.thy ===== *)
theory Block_Types
  imports Rlp
begin

text \<open>
  Headers, the WBFT extra data they carry and the bitmap of sealers (\<open>core/types/istanbul.go\<close>,
  \<open>core/types/block.go\<close>). Encoders map a value to the RLP tree that its \<open>EncodeRLP\<close> method
  writes; decoders read the tree back and fail (\<open>None\<close>) where the typed decoder reports an error.
  Keccak-256 belongs to a third-party package and is the parameter \<open>keccak\<close>.
\<close>

section \<open>Typed values as RLP trees\<close>

text \<open>The \<open>n\<close> bytes of a fixed-size byte array, most significant first.\<close>

definition wordBytes :: "nat \<Rightarrow> 'a::len word \<Rightarrow> bytes" where
  "wordBytes n w = map (\<lambda>i. ucast (drop_bit (8 * (n - 1 - i)) w)) [0..<n]"

definition hashItem :: "hash \<Rightarrow> item" where "hashItem h = Str (wordBytes 32 h)"
definition addressItem :: "address \<Rightarrow> item" where "addressItem a = Str (wordBytes 20 a)"

definition uint32Item :: "uint32 \<Rightarrow> item" where "uint32Item i = uintItem (ucast i)"

definition bigIntPtrItem :: "int option \<Rightarrow> item" where
  "bigIntPtrItem p = (case p of None \<Rightarrow> Str [] | Some i \<Rightarrow> intItem i)"

fun decBytes :: "item \<Rightarrow> bytes option" where
  "decBytes (Str b) = Some b"
| "decBytes (Lst xs) = None"

fun decList :: "(item \<Rightarrow> 'a option) \<Rightarrow> item \<Rightarrow> 'a list option" where
  "decList dec (Str b) = None"
| "decList dec (Lst xs) = those (map dec xs)"

definition decBigInt :: "item \<Rightarrow> int option" where
  "decBigInt x = do {
     b \<leftarrow> decBytes x;
     if b \<noteq> [] \<and> b ! 0 = 0 then None else Some (int (beVal b)) }"

definition decUint :: "nat \<Rightarrow> item \<Rightarrow> nat option" where
  "decUint maxBytes x = do {
     b \<leftarrow> decBytes x;
     if length b > maxBytes \<or> (b \<noteq> [] \<and> b ! 0 = 0) then None else Some (beVal b) }"

definition decByteArray :: "nat \<Rightarrow> item \<Rightarrow> nat option" where
  "decByteArray n x = do {
     b \<leftarrow> decBytes x;
     if length b = n then Some (beVal b) else None }"

text \<open>A pointer field tagged \<open>nil\<close> to a struct: an empty list is the nil pointer, an empty string
  an error.\<close>

definition decNilPtr :: "(item \<Rightarrow> 'a option) \<Rightarrow> item \<Rightarrow> 'a option option" where
  "decNilPtr dec x =
     (if x = Lst [] then Some None
      else if x = Str [] then None
      else map_option Some (dec x))"

section \<open>Sealer sets\<close>

type_synonym SealerSet = bytes

definition SetSealer :: "SealerSet \<Rightarrow> uint32 \<Rightarrow> SealerSet" where
  "SetSealer s index =
    (let byteIndex = unat (index div 8);
         s = (if length s \<le> byteIndex then s @ replicate (byteIndex + 1 - length s) 0 else s)
     in s[byteIndex := s ! byteIndex OR push_bit (unat (index mod 8)) 1])"

definition ClearSealer :: "SealerSet \<Rightarrow> uint32 \<Rightarrow> SealerSet" where
  "ClearSealer s index =
    (let byteIndex = unat (index div 8)
     in if byteIndex < length s
        then s[byteIndex := s ! byteIndex AND NOT (push_bit (unat (index mod 8)) 1)] else s)"

definition IsSealer :: "SealerSet \<Rightarrow> uint32 \<Rightarrow> bool" where
  "IsSealer s index =
    (let byteIndex = unat (index div 8)
     in if byteIndex \<ge> length s then False
        else s ! byteIndex AND push_bit (unat (index mod 8)) 1 \<noteq> 0)"

definition GetSealers :: "SealerSet \<Rightarrow> uint32 list" where
  "GetSealers s =
     concat (map (\<lambda>byteIndex.
       map (\<lambda>bitOffset. of_nat (byteIndex * 8 + bitOffset))
         (filter (\<lambda>bitOffset. s ! byteIndex AND push_bit bitOffset 1 \<noteq> 0) [0..<8]))
       [0..<length s])"

section \<open>Extra data\<close>

record WBFTAggregatedSeal =
  Sealers :: SealerSet
  Signature :: bytes

record Candidate =
  Addr :: address
  Diligence :: uint64

record EpochInfo =
  Candidates :: "Candidate list"
  eiValidators :: "uint32 list"
  BLSPublicKeys :: "bytes list"

record WBFTExtra =
  VanityData :: bytes
  RandaoReveal :: bytes
  PrevRound :: uint32
  PrevPreparedSeal :: "WBFTAggregatedSeal option"
  PrevCommittedSeal :: "WBFTAggregatedSeal option"
  exRound :: uint32
  PreparedSeal :: "WBFTAggregatedSeal option"
  CommittedSeal :: "WBFTAggregatedSeal option"
  GasTip :: "int option"
  exEpochInfo :: "EpochInfo option"

definition DiligenceDenominator :: uint64 where "DiligenceDenominator = 1000000"
definition DefaultDiligence :: uint64 where "DefaultDiligence = 2 * DiligenceDenominator * 95 div 100"
definition IstanbulExtraVanity :: nat where "IstanbulExtraVanity = 32"
definition IstanbulExtraSeal :: nat where "IstanbulExtraSeal = 96"

definition GetCandidates :: "EpochInfo option \<Rightarrow> address list" where
  "GetCandidates ei = (case ei of None \<Rightarrow> [] | Some e \<Rightarrow> map Addr (Candidates e))"

fun findCandidateFrom :: "uint32 \<Rightarrow> Candidate list \<Rightarrow> address \<Rightarrow> uint32 \<times> Candidate option" where
  "findCandidateFrom i [] addr = (i, None)"
| "findCandidateFrom i (c # cs) addr =
     (if Addr c = addr then (i, Some c) else findCandidateFrom (i + 1) cs addr)"

definition FindValidatorByAddress :: "EpochInfo option \<Rightarrow> address \<Rightarrow> uint32 \<times> Candidate option" where
  "FindValidatorByAddress ei addr =
     (case ei of None \<Rightarrow> (0, None) | Some e \<Rightarrow> findCandidateFrom 0 (Candidates e) addr)"

definition GetCandidate :: "EpochInfo option \<Rightarrow> uint32 \<Rightarrow> address" where
  "GetCandidate ei index =
     (case ei of None \<Rightarrow> 0
      | Some e \<Rightarrow> if unat index \<ge> length (Candidates e) then 0 else Addr (Candidates e ! unat index))"

definition EpochInfo_GetValidators :: "EpochInfo option \<Rightarrow> address list" where
  "EpochInfo_GetValidators ei =
     (case ei of None \<Rightarrow> [] | Some e \<Rightarrow> map (GetCandidate ei) (eiValidators e))"

definition GetValidatorIndexMap :: "EpochInfo \<Rightarrow> (address, uint32) gomap" where
  "GetValidatorIndexMap e = foldl (\<lambda>m idx. mapSet (GetCandidate (Some e) idx) idx m) [] (eiValidators e)"

section \<open>Encoding and decoding the extra data\<close>

definition sealItem :: "WBFTAggregatedSeal \<Rightarrow> item" where
  "sealItem s = Lst [Str (Sealers s), Str (Signature s)]"

definition ptrItem :: "('a \<Rightarrow> item) \<Rightarrow> 'a option \<Rightarrow> item" where
  "ptrItem f p = (case p of None \<Rightarrow> Lst [] | Some x \<Rightarrow> f x)"

definition candidateItem :: "Candidate \<Rightarrow> item" where
  "candidateItem c = Lst [addressItem (Addr c), uintItem (Diligence c)]"

definition epochItem :: "EpochInfo \<Rightarrow> item" where
  "epochItem e = Lst [Lst (map candidateItem (Candidates e)), Lst (map uint32Item (eiValidators e)),
     Lst (map Str (BLSPublicKeys e))]"

definition extraItem :: "WBFTExtra \<Rightarrow> item" where
  "extraItem x = Lst [Str (VanityData x), Str (RandaoReveal x), uint32Item (PrevRound x),
     ptrItem sealItem (PrevPreparedSeal x), ptrItem sealItem (PrevCommittedSeal x),
     uint32Item (exRound x), ptrItem sealItem (PreparedSeal x), ptrItem sealItem (CommittedSeal x),
     bigIntPtrItem (GasTip x), ptrItem epochItem (exEpochInfo x)]"

fun decSeal :: "item \<Rightarrow> WBFTAggregatedSeal option" where
  "decSeal (Lst [s, g]) = do {
     s \<leftarrow> decBytes s; g \<leftarrow> decBytes g; Some \<lparr>Sealers = s, Signature = g\<rparr> }"
| "decSeal x = None"

fun decCandidate :: "item \<Rightarrow> Candidate option" where
  "decCandidate (Lst [a, d]) = do {
     a \<leftarrow> decByteArray 20 a; d \<leftarrow> decUint 8 d; Some \<lparr>Addr = of_nat a, Diligence = of_nat d\<rparr> }"
| "decCandidate x = None"

fun decEpoch :: "item \<Rightarrow> EpochInfo option" where
  "decEpoch (Lst [c, v, b]) = do {
     c \<leftarrow> decList decCandidate c; v \<leftarrow> decList (decUint 4) v; b \<leftarrow> decList decBytes b;
     Some \<lparr>Candidates = c, eiValidators = map of_nat v, BLSPublicKeys = b\<rparr> }"
| "decEpoch x = None"

text \<open>The decoder of a \<open>*big.Int\<close> field ignores the tag \<open>nil\<close>: an empty string is zero.\<close>

fun decExtra :: "item \<Rightarrow> WBFTExtra option" where
  "decExtra (Lst [v, rr, pr, pps, pcs, r, ps, cs, gt, ei]) = do {
     v \<leftarrow> decBytes v; rr \<leftarrow> decBytes rr; pr \<leftarrow> decUint 4 pr;
     pps \<leftarrow> decNilPtr decSeal pps; pcs \<leftarrow> decNilPtr decSeal pcs;
     r \<leftarrow> decUint 4 r; ps \<leftarrow> decNilPtr decSeal ps; cs \<leftarrow> decNilPtr decSeal cs;
     gt \<leftarrow> decBigInt gt; ei \<leftarrow> decNilPtr decEpoch ei;
     Some \<lparr>VanityData = v, RandaoReveal = rr, PrevRound = of_nat pr, PrevPreparedSeal = pps,
       PrevCommittedSeal = pcs, exRound = of_nat r, PreparedSeal = ps, CommittedSeal = cs,
       GasTip = Some gt, exEpochInfo = ei\<rparr> }"
| "decExtra x = None"

text \<open>\<open>rlp.DecodeBytes\<close>: exactly one value.\<close>

definition DecodeBytes :: "(item \<Rightarrow> 'a option) \<Rightarrow> bytes \<Rightarrow> 'a option" where
  "DecodeBytes dec b =
     (case decodeItems b of Some [x] \<Rightarrow> dec x | _ \<Rightarrow> None)"

section \<open>Headers\<close>

record Header =
  ParentHash :: hash
  UncleHash :: hash
  Coinbase :: address
  Root :: hash
  TxHash :: hash
  ReceiptHash :: hash
  Bloom :: bytes
  Difficulty :: "int option"
  Number :: "int option"
  GasLimit :: uint64
  GasUsed :: uint64
  Time :: uint64
  Extra :: bytes
  MixDigest :: hash
  Nonce :: uint64
  BaseFee :: "int option"
  WithdrawalsHash :: "hash option"
  BlobGasUsed :: "uint64 option"
  ExcessBlobGas :: "uint64 option"
  ParentBeaconRoot :: "hash option"

definition CopyHeader :: "Header \<Rightarrow> Header" where
  "CopyHeader h = h\<lparr>
     Difficulty := Some (case Difficulty h of None \<Rightarrow> 0 | Some d \<Rightarrow> d),
     Number := Some (case Number h of None \<Rightarrow> 0 | Some n \<Rightarrow> n)\<rparr>"

text \<open>The generated encoder: negative numbers are an error; trailing optional fields are left out
  when they and all later ones are nil.\<close>

definition headerItem :: "Header \<Rightarrow> item option" where
  "headerItem h =
    (let neg = (\<lambda>p. case p of None \<Rightarrow> False | Some i \<Rightarrow> i < (0 :: int));
         strPtr = (\<lambda>p. case p of None \<Rightarrow> Str [] | Some x \<Rightarrow> x);
         t1 = (BaseFee h \<noteq> None); t2 = (WithdrawalsHash h \<noteq> None); t3 = (BlobGasUsed h \<noteq> None);
         t4 = (ExcessBlobGas h \<noteq> None); t5 = (ParentBeaconRoot h \<noteq> None)
     in if neg (Difficulty h) \<or> neg (Number h) \<or> neg (BaseFee h) then None
        else Some (Lst (
          [hashItem (ParentHash h), hashItem (UncleHash h), addressItem (Coinbase h), hashItem (Root h),
           hashItem (TxHash h), hashItem (ReceiptHash h), Str (Bloom h), bigIntPtrItem (Difficulty h),
           bigIntPtrItem (Number h), uintItem (GasLimit h), uintItem (GasUsed h), uintItem (Time h),
           Str (Extra h), hashItem (MixDigest h), Str (wordBytes 8 (Nonce h))]
          @ (if t1 \<or> t2 \<or> t3 \<or> t4 \<or> t5 then [bigIntPtrItem (BaseFee h)] else [])
          @ (if t2 \<or> t3 \<or> t4 \<or> t5 then [strPtr (map_option hashItem (WithdrawalsHash h))] else [])
          @ (if t3 \<or> t4 \<or> t5 then [strPtr (map_option uintItem (BlobGasUsed h))] else [])
          @ (if t4 \<or> t5 then [strPtr (map_option uintItem (ExcessBlobGas h))] else [])
          @ (if t5 then [strPtr (map_option hashItem (ParentBeaconRoot h))] else []))))"

text \<open>\<open>rlpHash\<close> of a header pointer; nothing is hashed when encoding fails, a nil pointer is an
  empty list.\<close>

definition rlpHash :: "(bytes \<Rightarrow> hash) \<Rightarrow> Header option \<Rightarrow> hash" where
  "rlpHash keccak oh =
     (case oh of None \<Rightarrow> keccak [0xC0]
      | Some h \<Rightarrow> (case headerItem h of None \<Rightarrow> keccak [] | Some x \<Rightarrow> keccak (EncodeToBytes x)))"

definition ExtractWBFTExtra :: "Header \<Rightarrow> WBFTExtra option" where
  "ExtractWBFTExtra h = DecodeBytes decExtra (Extra h)"

definition WBFTFilteredHeaderWithRound :: "Header \<Rightarrow> uint32 \<Rightarrow> Header option" where
  "WBFTFilteredHeaderWithRound h rd = do {
     let newHeader = CopyHeader h;
     wbftExtra \<leftarrow> ExtractWBFTExtra newHeader;
     let payload = EncodeToBytes (extraItem
           (wbftExtra\<lparr>PreparedSeal := None, CommittedSeal := None, exRound := rd\<rparr>));
     Some (newHeader\<lparr>Extra := payload\<rparr>) }"

definition WBFTFilteredHeader :: "Header \<Rightarrow> Header option" where
  "WBFTFilteredHeader h = WBFTFilteredHeaderWithRound h 0"

definition WBFTDefaultDifficulty :: int where "WBFTDefaultDifficulty = 1"

definition Header_Hash :: "(bytes \<Rightarrow> hash) \<Rightarrow> Header \<Rightarrow> hash" where
  "Header_Hash keccak h =
     (if Difficulty h = Some WBFTDefaultDifficulty \<and> WBFTFilteredHeader h \<noteq> None
      then rlpHash keccak (WBFTFilteredHeader h) else rlpHash keccak (Some h))"

definition WBFTHashWithRoundNumber :: "(bytes \<Rightarrow> hash) \<Rightarrow> Header \<Rightarrow> uint32 \<Rightarrow> hash" where
  "WBFTHashWithRoundNumber keccak h rd = rlpHash keccak (WBFTFilteredHeaderWithRound h rd)"

text \<open>What validators sign for a block in a round (\<open>consensus/wbft/core/core.go\<close>).\<close>

datatype SealType = SealTypePrepare | SealTypeCommit

fun sealTypeByte :: "SealType \<Rightarrow> byte" where
  "sealTypeByte SealTypePrepare = 0"
| "sealTypeByte SealTypeCommit = 1"

definition PrepareSeal :: "(bytes \<Rightarrow> hash) \<Rightarrow> Header \<Rightarrow> uint32 \<Rightarrow> SealType \<Rightarrow> bytes" where
  "PrepareSeal keccak header rd sealType =
     wordBytes 32 (keccak (wordBytes 32 (WBFTHashWithRoundNumber keccak (CopyHeader header) rd)
       @ [sealTypeByte sealType]))"

section \<open>Round trips\<close>

lemma length_wordBytes [simp]: "length (wordBytes n w) = n"
  by (simp add: wordBytes_def)

lemma beVal_Cons: "beVal (b # bs) = unat b * 256 ^ length bs + beVal bs"
  by (induction bs rule: rev_induct) (simp_all add: algebra_simps beVal_def)

lemma unat_ucast_mod: "unat (ucast (v :: 'a::len word) :: 'b::len word) = unat v mod 2 ^ LENGTH('b)"
proof -
  have "(ucast v :: 'b word) = of_nat (unat v)" by (simp add: of_nat_unat)
  then show ?thesis by (simp only: unat_of_nat)
qed

lemma beVal_wordBytes: "beVal (wordBytes n w) = unat w mod 256 ^ n"
proof (induction n)
  case (Suc n)
  have "wordBytes (Suc n) w = ucast (drop_bit (8 * n) w) # wordBytes n w"
    by (simp add: wordBytes_def upt_conv_Cons map_Suc_upt [symmetric] del: upt_Suc)
  moreover have "unat (ucast (drop_bit (8 * n) w) :: byte) = unat w div 256 ^ n mod 256"
    by (simp add: unat_ucast_mod unat_shift power_mult)
  ultimately show ?case
    using Suc mod_mult2_eq [of "unat w" "256 ^ n" 256] by (simp add: beVal_Cons mult.commute)
qed (simp add: wordBytes_def)

lemma wordBytes_inj:
  assumes "LENGTH('a::len) \<le> 8 * n" "wordBytes n (v :: 'a word) = wordBytes n w"
  shows "v = w"
proof -
  have "(2 :: nat) ^ LENGTH('a) \<le> 2 ^ (8 * n)" using assms(1) by (simp add: power_increasing)
  then have le: "(2 :: nat) ^ LENGTH('a) \<le> 256 ^ n" by (simp add: power_mult)
  have "unat x mod 256 ^ n = unat x" for x :: "'a word"
    by (rule mod_less, rule less_le_trans [OF unsigned_less le])
  with assms(2) show ?thesis by (metis beVal_wordBytes word_unat_eq_iff)
qed

lemma decUint_uintItem [simp]:
  "decUint 8 (uintItem i) = Some (unat i)"
proof -
  have "length (if i = 0 then [] else be (unat i)) \<le> 8" using length_be_unat [of i] by simp
  moreover have "i \<noteq> 0 \<Longrightarrow> be (unat i) ! 0 \<noteq> 0" using hd_be by (simp add: unat_gt_0)
  ultimately show ?thesis by (auto simp: decUint_def uintItem_Str)
qed

lemma decUint_uint32Item [simp]: "decUint 4 (uint32Item i) = Some (unat i)"
proof -
  have lt: "unat i < 256 ^ 4" using unsigned_less [where w = i and ?'a = nat] by simp
  then have u: "unat (ucast i :: uint64) = unat i" by (simp add: unat_ucast_mod)
  from lt have "length (be (unat i)) \<le> 4" by (rule length_be) simp
  moreover have "i \<noteq> 0 \<Longrightarrow> be (unat i) ! 0 \<noteq> 0" using hd_be by (simp add: unat_gt_0)
  moreover have "(ucast i :: uint64) = 0 \<longleftrightarrow> i = 0" using u by (metis unat_0 unat_eq_0)
  ultimately show ?thesis by (auto simp: decUint_def uint32Item_def uintItem_Str u)
qed

lemma decBigInt_intItem [simp]: "0 \<le> i \<Longrightarrow> decBigInt (intItem i) = Some i"
  using hd_be [of "nat i"] by (auto simp: decBigInt_def intItem_def)

lemma decByteArray_word [simp]:
  "decByteArray 20 (addressItem a) = Some (unat a)"
  "decByteArray 32 (hashItem h) = Some (unat h)"
proof -
  have "unat a < 256 ^ 20" "unat h < 256 ^ 32"
    using unsigned_less [where w = a and ?'a = nat] unsigned_less [where w = h and ?'a = nat] by simp_all
  then show "decByteArray 20 (addressItem a) = Some (unat a)" "decByteArray 32 (hashItem h) = Some (unat h)"
    by (simp_all add: decByteArray_def addressItem_def hashItem_def beVal_wordBytes)
qed

lemma those_map: "(\<And>x. x \<in> set xs \<Longrightarrow> dec (enc x) = Some (f x)) \<Longrightarrow> those (map dec (map enc xs)) = Some (map f xs)"
  by (induction xs) auto

lemma decSeal_sealItem [simp]: "decSeal (sealItem s) = Some s"
  by (simp add: sealItem_def)

lemma decCandidate_candidateItem [simp]: "decCandidate (candidateItem c) = Some c"
  by (simp add: candidateItem_def)

lemma decEpoch_epochItem [simp]: "decEpoch (epochItem e) = Some e"
proof -
  have "decList decCandidate (Lst (map candidateItem (Candidates e))) = Some (Candidates e)"
    "decList (decUint 4) (Lst (map uint32Item (eiValidators e))) = Some (map unat (eiValidators e))"
    "decList decBytes (Lst (map Str (BLSPublicKeys e))) = Some (BLSPublicKeys e)"
    using those_map [of "Candidates e" decCandidate candidateItem id]
      those_map [of "eiValidators e" "decUint 4" uint32Item unat]
      those_map [of "BLSPublicKeys e" decBytes Str id] by simp_all
  then show ?thesis by (simp add: epochItem_def del: decList.simps) (simp add: comp_def)
qed

lemma decNilPtr_ptrItem:
  "(\<And>x. dec (enc x) = Some x) \<Longrightarrow> (\<And>x. enc x \<noteq> Lst []) \<Longrightarrow> (\<And>x. enc x \<noteq> Str []) \<Longrightarrow>
     decNilPtr dec (ptrItem enc p) = Some p"
  by (cases p) (simp_all add: decNilPtr_def ptrItem_def)

lemma decNilPtr_sealItem [simp]: "decNilPtr decSeal (ptrItem sealItem p) = Some p"
  by (rule decNilPtr_ptrItem) (simp_all, simp_all add: sealItem_def)

lemma decNilPtr_epochItem [simp]: "decNilPtr decEpoch (ptrItem epochItem p) = Some p"
  by (rule decNilPtr_ptrItem) (simp_all, simp_all add: epochItem_def)

lemma decExtra_extraItem:
  assumes "\<forall>g. GasTip x = Some g \<longrightarrow> 0 \<le> g"
  shows "decExtra (extraItem x) = Some (x\<lparr>GasTip := Some (case GasTip x of None \<Rightarrow> 0 | Some g \<Rightarrow> g)\<rparr>)"
proof -
  have "decBigInt (bigIntPtrItem (GasTip x)) = Some (case GasTip x of None \<Rightarrow> 0 | Some g \<Rightarrow> g)"
    using assms by (cases "GasTip x") (simp_all add: bigIntPtrItem_def decBigInt_def [of "Str []"])
  then show ?thesis by (simp add: extraItem_def)
qed

lemma DecodeBytes_Encode:
  assumes "length (encodeItem x) < 2 ^ 64"
  shows "DecodeBytes dec (EncodeToBytes x) = dec x"
  using EncodeToBytes_eq [OF assms] decode_encode_item [OF assms, of "[]"] by (simp add: DecodeBytes_def)

section \<open>Sealer sets are sets\<close>

text \<open>The bit of index \<open>n\<close>.\<close>

definition sealerBit :: "SealerSet \<Rightarrow> nat \<Rightarrow> bool" where
  "sealerBit s n \<longleftrightarrow> n div 8 < length s \<and> bit (s ! (n div 8)) (n mod 8)"

lemma and_bit: "((b :: byte) AND 2 ^ k = 0) \<longleftrightarrow> \<not> bit b k"
proof -
  have k: "bit b k \<Longrightarrow> k < 8" using bit_imp_le_length [of b k] by simp
  have "b AND 2 ^ k = (if bit b k then 2 ^ k else 0)"
    by (rule bit_word_eqI) (auto simp: bit_simps)
  moreover have "(2 ^ k :: byte) = 0 \<longleftrightarrow> 8 \<le> k" by (simp add: exp_eq_zero_iff)
  ultimately show ?thesis using k by auto
qed

lemma unat_index: "unat (i div 8) = unat i div 8" "unat (i mod 8) = unat i mod 8" for i :: uint32
  by (simp_all add: unat_div unat_mod)

lemma IsSealer_bit: "IsSealer s i \<longleftrightarrow> sealerBit s (unat i)"
  by (auto simp: IsSealer_def Let_def sealerBit_def unat_index and_bit)

lemma bit_update:
  assumes "k < length t" "m < 8"
  shows "sealerBit (t[k := t ! k OR 2 ^ m]) n \<longleftrightarrow> n = 8 * k + m \<or> sealerBit t n"
    and "sealerBit (t[k := t ! k AND NOT (2 ^ m)]) n \<longleftrightarrow> n \<noteq> 8 * k + m \<and> sealerBit t n"
proof -
  have n: "n = 8 * k + m \<longleftrightarrow> n div 8 = k \<and> n mod 8 = m" using assms(2) by auto
  show "sealerBit (t[k := t ! k OR 2 ^ m]) n \<longleftrightarrow> n = 8 * k + m \<or> sealerBit t n"
    unfolding n using assms by (cases "n div 8 = k") (auto simp: sealerBit_def bit_simps)
  show "sealerBit (t[k := t ! k AND NOT (2 ^ m)]) n \<longleftrightarrow> n \<noteq> 8 * k + m \<and> sealerBit t n"
    unfolding n using assms by (cases "n div 8 = k") (auto simp: sealerBit_def bit_simps)
qed

lemma bit_SetSealer: "sealerBit (SetSealer s i) n \<longleftrightarrow> n = unat i \<or> sealerBit s n"
proof -
  let ?k = "unat i div 8" and ?m = "unat i mod 8"
  define t where "t = (if length s \<le> ?k then s @ replicate (?k + 1 - length s) 0 else s)"
  have "SetSealer s i = t[?k := t ! ?k OR 2 ^ ?m]"
    by (simp add: SetSealer_def Let_def unat_index t_def)
  moreover have "?k < length t" by (simp add: t_def)
  moreover have "sealerBit t n \<longleftrightarrow> sealerBit s n" by (auto simp: t_def sealerBit_def nth_append)
  ultimately show ?thesis using bit_update(1) [of ?k t ?m n] by simp
qed

lemma bit_ClearSealer: "sealerBit (ClearSealer s i) n \<longleftrightarrow> n \<noteq> unat i \<and> sealerBit s n"
proof (cases "unat i div 8 < length s")
  case True
  then show ?thesis
    using bit_update(2) [of "unat i div 8" s "unat i mod 8" n]
    by (simp add: ClearSealer_def Let_def unat_index)
next
  case False
  then have "sealerBit s n \<Longrightarrow> n \<noteq> unat i" by (auto simp: sealerBit_def)
  with False show ?thesis by (auto simp: ClearSealer_def Let_def unat_index)
qed

lemma GetSealers_nat:
  "map unat (GetSealers s) = filter (sealerBit s) [0..<8 * length s]" if "8 * length s \<le> 2 ^ 32"
proof -
  have step: "map (\<lambda>o'. k * 8 + o') (filter (\<lambda>o'. s ! k AND push_bit o' 1 \<noteq> 0) [0..<8]) =
      filter (sealerBit s) [8 * k..<8 * Suc k]" if "k < length s" for k
  proof -
    have "[8 * k..<8 * Suc k] = map ((+) (8 * k)) [0..<8]" using map_add_upt [of "8 * k" 8] by (simp add: add.commute cong: map_cong)
    moreover have "filter (sealerBit s \<circ> (+) (8 * k)) [0..<8] = filter (\<lambda>o'. s ! k AND push_bit o' 1 \<noteq> 0) [0..<8]"
      using that by (intro filter_cong) (auto simp: sealerBit_def and_bit)
    ultimately show ?thesis by (simp add: filter_map mult.commute)
  qed
  have all: "concat (map (\<lambda>k. filter (sealerBit s) [8 * k..<8 * Suc k]) [0..<m]) =
      filter (sealerBit s) [0..<8 * m]" for m
  proof (induction m)
    case (Suc m)
    have "[0..<8 * Suc m] = [0..<8 * m] @ [8 * m..<8 * Suc m]" using upt_add_eq_append [of 0 "8 * m" 8] by (simp add: add.commute)
    with Suc show ?case by simp
  qed simp
  have "map unat (GetSealers s) =
      concat (map (\<lambda>k. map (\<lambda>o'. k * 8 + o') (filter (\<lambda>o'. s ! k AND push_bit o' 1 \<noteq> 0) [0..<8])) [0..<length s])"
    unfolding GetSealers_def map_concat map_map
    by (rule arg_cong [where f = concat], rule map_cong) (use that in \<open>auto simp: unat_of_nat simp del: of_nat_add of_nat_mult\<close>)
  also have "\<dots> = filter (sealerBit s) [0..<8 * length s]"
    unfolding all [symmetric] by (rule arg_cong [where f = concat], rule map_cong) (use step in auto)
  finally show ?thesis .
qed

section \<open>What a seal binds\<close>

text \<open>Replacing the extra data replaces one element of the encoded header.\<close>

lemma headerItem_Extra:
  "headerItem (h\<lparr>Extra := e\<rparr>) =
     map_option (\<lambda>x. case x of Lst xs \<Rightarrow> Lst (xs[12 := Str e]) | Str b \<Rightarrow> Str b) (headerItem h)"
  by (simp add: headerItem_def Let_def)

lemma headerItem_Extra_inj:
  assumes "headerItem f = headerItem g" "headerItem f \<noteq> None"
  shows "Extra f = Extra g"
  using assms by (auto simp: headerItem_def Let_def split: if_splits)

lemma extraItem_swap:
  assumes "extraItem (x\<lparr>PreparedSeal := None, CommittedSeal := None, exRound := r\<rparr>) =
           extraItem (y\<lparr>PreparedSeal := None, CommittedSeal := None, exRound := r'\<rparr>)"
  shows "r = r'"
    and "extraItem (x\<lparr>PreparedSeal := None, CommittedSeal := None, exRound := q\<rparr>) =
         extraItem (y\<lparr>PreparedSeal := None, CommittedSeal := None, exRound := q\<rparr>)"
proof -
  have "uint32Item r = uint32Item r'" using assms by (simp add: extraItem_def)
  then have "Some (unat r) = Some (unat r')" by (metis decUint_uint32Item)
  then show "r = r'" by (simp add: word_unat_eq_iff)
  show "extraItem (x\<lparr>PreparedSeal := None, CommittedSeal := None, exRound := q\<rparr>) =
         extraItem (y\<lparr>PreparedSeal := None, CommittedSeal := None, exRound := q\<rparr>)"
    using assms by (simp add: extraItem_def)
qed

text \<open>A header whose extra data decodes and whose encodings fit in memory.\<close>

definition sealable :: "Header \<Rightarrow> uint32 \<Rightarrow> bool" where
  "sealable h rd \<longleftrightarrow>
     (\<exists>x i. ExtractWBFTExtra h = Some x \<and> headerItem (the (WBFTFilteredHeaderWithRound h rd)) = Some i
        \<and> length (encodeItem i) < 2 ^ 64
        \<and> length (encodeItem (extraItem (x\<lparr>PreparedSeal := None, CommittedSeal := None, exRound := rd\<rparr>))) < 2 ^ 64)"

lemma CopyHeader_idem [simp]: "CopyHeader (CopyHeader h) = CopyHeader h"
  by (simp add: CopyHeader_def)

lemma Extract_CopyHeader [simp]: "ExtractWBFTExtra (CopyHeader h) = ExtractWBFTExtra h"
  by (simp add: ExtractWBFTExtra_def CopyHeader_def)

lemma Filtered_CopyHeader [simp]:
  "WBFTFilteredHeaderWithRound (CopyHeader h) rd = WBFTFilteredHeaderWithRound h rd"
  by (simp add: WBFTFilteredHeaderWithRound_def)

lemma filtered_eq:
  assumes "sealable h r" "sealable h' r'"
    and "EncodeToBytes (the (headerItem (the (WBFTFilteredHeaderWithRound h r)))) =
         EncodeToBytes (the (headerItem (the (WBFTFilteredHeaderWithRound h' r'))))"
  shows "r = r'" "rlpHash keccak (WBFTFilteredHeader h) = rlpHash keccak (WBFTFilteredHeader h')"
proof -
  obtain x i y j where x: "ExtractWBFTExtra h = Some x" "headerItem (the (WBFTFilteredHeaderWithRound h r)) = Some i"
      "length (encodeItem i) < 2 ^ 64"
      "length (encodeItem (extraItem (x\<lparr>PreparedSeal := None, CommittedSeal := None, exRound := r\<rparr>))) < 2 ^ 64"
    and y: "ExtractWBFTExtra h' = Some y" "headerItem (the (WBFTFilteredHeaderWithRound h' r')) = Some j"
      "length (encodeItem j) < 2 ^ 64"
      "length (encodeItem (extraItem (y\<lparr>PreparedSeal := None, CommittedSeal := None, exRound := r'\<rparr>))) < 2 ^ 64"
    using assms(1,2) unfolding sealable_def by blast
  let ?X = "\<lambda>q. extraItem (x\<lparr>PreparedSeal := None, CommittedSeal := None, exRound := q\<rparr>)"
  let ?Y = "\<lambda>q. extraItem (y\<lparr>PreparedSeal := None, CommittedSeal := None, exRound := q\<rparr>)"
  have F: "WBFTFilteredHeaderWithRound h q = Some ((CopyHeader h)\<lparr>Extra := EncodeToBytes (?X q)\<rparr>)"
    "WBFTFilteredHeaderWithRound h' q = Some ((CopyHeader h')\<lparr>Extra := EncodeToBytes (?Y q)\<rparr>)" for q
    using x(1) y(1) by (simp_all add: WBFTFilteredHeaderWithRound_def)
  have "encodeItem i = encodeItem j" using assms(3) x(2,3) y(2,3) by (simp add: EncodeToBytes_eq)
  then have ij: "i = j" using x(3) encodeItem_inj by blast
  then have hi: "headerItem ((CopyHeader h)\<lparr>Extra := EncodeToBytes (?X r)\<rparr>) =
      headerItem ((CopyHeader h')\<lparr>Extra := EncodeToBytes (?Y r')\<rparr>)"
    using x(2) y(2) F(1) [of r] F(2) [of r'] by simp
  then have "EncodeToBytes (?X r) = EncodeToBytes (?Y r')"
    using headerItem_Extra_inj [OF hi] x(2) F(1) [of r] by simp
  then have "encodeItem (?X r) = encodeItem (?Y r')" using x(4) y(4) by (simp only: EncodeToBytes_eq)
  then have e: "?X r = ?Y r'" using x(4) encodeItem_inj by blast
  note s = extraItem_swap [OF e]
  show "r = r'" by (rule s(1))
  have "headerItem ((CopyHeader h)\<lparr>Extra := EncodeToBytes (?X r), Extra := EncodeToBytes (?X 0)\<rparr>) =
      headerItem ((CopyHeader h')\<lparr>Extra := EncodeToBytes (?Y r'), Extra := EncodeToBytes (?Y 0)\<rparr>)"
    unfolding headerItem_Extra [where h = "(CopyHeader h)\<lparr>Extra := EncodeToBytes (?X r)\<rparr>"]
      headerItem_Extra [where h = "(CopyHeader h')\<lparr>Extra := EncodeToBytes (?Y r')\<rparr>"] hi s(2) [of 0] by (rule refl)
  then show "rlpHash keccak (WBFTFilteredHeader h) = rlpHash keccak (WBFTFilteredHeader h')"
    using F(1) [of 0] F(2) [of 0] by (simp add: WBFTFilteredHeader_def rlpHash_def)
qed

section \<open>Properties\<close>

text \<open>C23. The sealer bitmap is a set of indexes: setting, clearing and testing act on the one index,
  and \<open>GetSealers\<close> lists exactly the set indexes, each once and in increasing order.\<close>

theorem sealer_set_is_set:
  assumes "8 * length s \<le> 2 ^ 32"
  shows "(IsSealer (SetSealer s i) j \<longleftrightarrow> j = i \<or> IsSealer s j)
    \<and> (IsSealer (ClearSealer s i) j \<longleftrightarrow> j \<noteq> i \<and> IsSealer s j)
    \<and> (j \<in> set (GetSealers s) \<longleftrightarrow> IsSealer s j)
    \<and> sorted_wrt (<) (map unat (GetSealers s)) \<and> distinct (GetSealers s)"
proof -
  note g = GetSealers_nat [OF assms]
  have "sorted_wrt (<) (map unat (GetSealers s))" unfolding g
    by (intro sorted_wrt_filter) (simp add: sorted_wrt_upt)
  moreover have "distinct (map unat (GetSealers s))" unfolding g by simp
  moreover have "j \<in> set (GetSealers s) \<longleftrightarrow> unat j \<in> set (map unat (GetSealers s))"
    using inj_image_mem_iff [of unat j "set (GetSealers s)"] by (simp add: inj_def word_unat_eq_iff)
  then have "j \<in> set (GetSealers s) \<longleftrightarrow> IsSealer s j"
    unfolding g by (auto simp: IsSealer_bit sealerBit_def less_mult_imp_div_less)
  ultimately show ?thesis
    by (auto simp: IsSealer_bit bit_SetSealer bit_ClearSealer word_unat_eq_iff distinct_map)
qed

theorem sealer_set_is_set_witness:
  "IsSealer (SetSealer [0x81] 12) 12 \<and> IsSealer (SetSealer [0x81] 12) 7"
proof -
  have "8 * length ([0x81] :: bytes) \<le> 2 ^ 32" by simp
  moreover have "IsSealer [0x81] 7" by code_simp
  ultimately show ?thesis
    using sealer_set_is_set [of "[0x81]" 12 12] sealer_set_is_set [of "[0x81]" 12 7] by blast
qed

text \<open>C24. The extra data of a header round-trips through its encoding; a missing gas tip comes back as
  zero, because the decoder of big integers ignores the tag that would make it nil.\<close>

theorem extra_round_trip:
  assumes "\<forall>g. GasTip x = Some g \<longrightarrow> 0 \<le> g" "length (encodeItem (extraItem x)) < 2 ^ 64"
  shows "ExtractWBFTExtra (h\<lparr>Extra := EncodeToBytes (extraItem x)\<rparr>) =
           Some (x\<lparr>GasTip := Some (case GasTip x of None \<Rightarrow> 0 | Some g \<Rightarrow> g)\<rparr>)"
  using DecodeBytes_Encode [OF assms(2), of decExtra] decExtra_extraItem [OF assms(1)]
  by (simp add: ExtractWBFTExtra_def)

definition exampleExtra :: WBFTExtra where
  "exampleExtra = \<lparr>VanityData = [], RandaoReveal = [], PrevRound = 0, PrevPreparedSeal = None,
     PrevCommittedSeal = None, exRound = 3, PreparedSeal = Some \<lparr>Sealers = [7], Signature = [1]\<rparr>,
     CommittedSeal = None, GasTip = None, exEpochInfo = None\<rparr>"

definition exampleHeader :: Header where
  "exampleHeader = \<lparr>ParentHash = 0, UncleHash = 0, Coinbase = 1, Root = 0, TxHash = 0, ReceiptHash = 0,
     Bloom = [], Difficulty = Some 1, Number = Some 5, GasLimit = 0, GasUsed = 0, Time = 0, Extra = [],
     MixDigest = 0, Nonce = 0, BaseFee = None, WithdrawalsHash = None, BlobGasUsed = None,
     ExcessBlobGas = None, ParentBeaconRoot = None\<rparr>"

lemma exampleExtra_bytes: "encodeItem (extraItem exampleExtra) = [204, 128, 128, 128, 192, 192, 3, 194, 7, 1, 192, 128, 192]"
  by (simp add: exampleExtra_def extraItem_def ptrItem_def sealItem_def bigIntPtrItem_def uint32Item_def
      uintItem_Str writeBytes_def encodeStringHeader_def puthead_def be_last)

theorem extra_round_trip_witness:
  "ExtractWBFTExtra (exampleHeader\<lparr>Extra := EncodeToBytes (extraItem exampleExtra)\<rparr>) =
     Some (exampleExtra\<lparr>GasTip := Some 0\<rparr>)"
proof -
  have "\<forall>g. GasTip exampleExtra = Some g \<longrightarrow> 0 \<le> g" "GasTip exampleExtra = None"
    by (simp_all add: exampleExtra_def)
  moreover have "length (encodeItem (extraItem exampleExtra)) < 2 ^ 64" by (simp add: exampleExtra_bytes)
  ultimately show ?thesis using extra_round_trip [of exampleExtra exampleHeader] by simp
qed

text \<open>The byte strings that are hashed for a seal: the filtered header, and its hash with the kind
  of seal appended.\<close>

definition headerPreimage :: "Header \<Rightarrow> uint32 \<Rightarrow> bytes" where
  "headerPreimage h rd = EncodeToBytes (the (headerItem (the (WBFTFilteredHeaderWithRound h rd))))"

definition sealPreimage :: "(bytes \<Rightarrow> hash) \<Rightarrow> Header \<Rightarrow> uint32 \<Rightarrow> SealType \<Rightarrow> bytes" where
  "sealPreimage keccak h rd t = wordBytes 32 (keccak (headerPreimage h rd)) @ [sealTypeByte t]"

lemma sealable_hashes:
  assumes "sealable h r"
  shows "WBFTHashWithRoundNumber keccak h r = keccak (headerPreimage h r)"
    and "WBFTFilteredHeader h \<noteq> None"
    and "PrepareSeal keccak h r t = wordBytes 32 (keccak (sealPreimage keccak h r t))"
proof -
  show H: "WBFTHashWithRoundNumber keccak h r = keccak (headerPreimage h r)" "WBFTFilteredHeader h \<noteq> None"
    using assms by (auto simp: sealable_def WBFTHashWithRoundNumber_def rlpHash_def headerPreimage_def
        WBFTFilteredHeaderWithRound_def WBFTFilteredHeader_def split: option.splits)
  have "WBFTHashWithRoundNumber keccak (CopyHeader h) r = WBFTHashWithRoundNumber keccak h r"
    by (simp add: WBFTHashWithRoundNumber_def)
  with H(1) show "PrepareSeal keccak h r t = wordBytes 32 (keccak (sealPreimage keccak h r t))"
    by (simp add: PrepareSeal_def sealPreimage_def)
qed


definition exampleSealed :: Header where
  "exampleSealed = exampleHeader\<lparr>Extra := EncodeToBytes (extraItem exampleExtra)\<rparr>"

lemma length_encode_word: "1 < n \<Longrightarrow> n < 56 \<Longrightarrow> length (encodeItem (Str (wordBytes n w))) = n + 1"
  by (simp add: writeBytes_def encodeStringHeader_cases(1))

lemma exampleSealed_sealable: "sealable exampleSealed 3"
proof -
  have x: "ExtractWBFTExtra exampleSealed = Some (exampleExtra\<lparr>GasTip := Some 0\<rparr>)"
    using DecodeBytes_Encode [of "extraItem exampleExtra" decExtra] decExtra_extraItem [of exampleExtra]
    by (simp add: exampleSealed_def ExtractWBFTExtra_def exampleExtra_bytes) (simp add: exampleExtra_def)
  let ?e = "extraItem (exampleExtra\<lparr>GasTip := Some 0, PreparedSeal := None, CommittedSeal := None, exRound := 3\<rparr>)"
  have e: "encodeItem ?e = [202, 128, 128, 128, 192, 192, 3, 192, 192, 128, 192]"
    by (simp add: exampleExtra_def extraItem_def ptrItem_def bigIntPtrItem_def uint32Item_def intItem_def
        uintItem_Str writeBytes_def encodeStringHeader_def puthead_def be_last)
  then have b: "EncodeToBytes ?e = [202, 128, 128, 128, 192, 192, 3, 192, 192, 128, 192]"
    using EncodeToBytes_eq [of ?e] by simp
  have f: "the (WBFTFilteredHeaderWithRound exampleSealed 3) = (CopyHeader exampleSealed)\<lparr>Extra := EncodeToBytes ?e\<rparr>"
    by (simp add: WBFTFilteredHeaderWithRound_def x)
  obtain i where i: "headerItem ((CopyHeader exampleSealed)\<lparr>Extra := EncodeToBytes ?e\<rparr>) = Some i"
    "length (encodeItem i) < 2 ^ 64"
    by (simp add: headerItem_def CopyHeader_def exampleSealed_def exampleHeader_def Let_def b
        hashItem_def addressItem_def length_puthead headsize_def length_encode_word bigIntPtrItem_def
        intItem_def be_last uintItem_Str writeBytes_def encodeStringHeader_def puthead_def intsize_be putint_be)
  show ?thesis unfolding sealable_def f using x e i by simp
qed


end
