(* ===== verification/Messages.thy ===== *)
theory Messages
  imports Block_Types Wbft_Config
begin

text \<open>
  The four consensus messages (\<open>consensus/wbft/messages\<close>): their structs, what each signs
  (\<open>EncodePayloadForSigning\<close>), their RLP form and its decoding. Embedding of Go structs is record
  extension. A proposal is always a block; its transactions, uncles and withdrawals are kept as RLP
  trees. Views that come out of the decoder are never nil, so sequence and round are plain integers.
\<close>

section \<open>Blocks\<close>

record Block =
  bHeader :: Header
  bTxs :: "item list"
  bUncles :: "item list"
  bWithdrawals :: "item list option"

definition Block_Hash :: "(bytes \<Rightarrow> hash) \<Rightarrow> Block \<Rightarrow> hash" where
  "Block_Hash keccak b = Header_Hash keccak (bHeader b)"

definition Block_Number :: "Block \<Rightarrow> int" where
  "Block_Number b = (case Number (bHeader b) of None \<Rightarrow> 0 | Some n \<Rightarrow> n)"

definition blockItem :: "Block \<Rightarrow> item option" where
  "blockItem b = do {
     h \<leftarrow> headerItem (bHeader b);
     Some (Lst ([h, Lst (bTxs b), Lst (bUncles b)]
       @ (case bWithdrawals b of None \<Rightarrow> [] | Some ws \<Rightarrow> [Lst ws]))) }"

definition decOptional :: "(item \<Rightarrow> 'a option) \<Rightarrow> item list \<Rightarrow> nat \<Rightarrow> 'a option option" where
  "decOptional dec xs i = (if i < length xs then map_option Some (dec (xs ! i)) else Some None)"

definition decFixed :: "nat \<Rightarrow> item \<Rightarrow> bytes option" where
  "decFixed n x = do { b \<leftarrow> decBytes x; if length b = n then Some b else None }"

fun decHeader :: "item \<Rightarrow> Header option" where
  "decHeader (Str b) = None"
| "decHeader (Lst xs) =
    (if length xs < 15 \<or> length xs > 20 then None
     else do {
       ph \<leftarrow> decByteArray 32 (xs ! 0); uh \<leftarrow> decByteArray 32 (xs ! 1); cb \<leftarrow> decByteArray 20 (xs ! 2);
       rt \<leftarrow> decByteArray 32 (xs ! 3); th \<leftarrow> decByteArray 32 (xs ! 4); rh \<leftarrow> decByteArray 32 (xs ! 5);
       bl \<leftarrow> decFixed 256 (xs ! 6); df \<leftarrow> decBigInt (xs ! 7); nr \<leftarrow> decBigInt (xs ! 8);
       gl \<leftarrow> decUint 8 (xs ! 9); gu \<leftarrow> decUint 8 (xs ! 10); tm \<leftarrow> decUint 8 (xs ! 11);
       ex \<leftarrow> decBytes (xs ! 12); md \<leftarrow> decByteArray 32 (xs ! 13); nc \<leftarrow> decByteArray 8 (xs ! 14);
       bf \<leftarrow> decOptional decBigInt xs 15; wh \<leftarrow> decOptional (decByteArray 32) xs 16;
       bg \<leftarrow> decOptional (decUint 8) xs 17; eg \<leftarrow> decOptional (decUint 8) xs 18;
       pb \<leftarrow> decOptional (decByteArray 32) xs 19;
       Some \<lparr>ParentHash = of_nat ph, UncleHash = of_nat uh, Coinbase = of_nat cb, Root = of_nat rt,
         TxHash = of_nat th, ReceiptHash = of_nat rh, Bloom = bl, Difficulty = Some df, Number = Some nr,
         GasLimit = of_nat gl, GasUsed = of_nat gu, Time = of_nat tm, Extra = ex, MixDigest = of_nat md,
         Nonce = of_nat nc, BaseFee = bf, WithdrawalsHash = map_option of_nat wh,
         BlobGasUsed = map_option of_nat bg, ExcessBlobGas = map_option of_nat eg,
         ParentBeaconRoot = map_option of_nat pb\<rparr> })"

fun decBlock :: "item \<Rightarrow> Block option" where
  "decBlock (Lst [h, Lst txs, Lst us]) = do {
     h \<leftarrow> decHeader h; Some \<lparr>bHeader = h, bTxs = txs, bUncles = us, bWithdrawals = None\<rparr> }"
| "decBlock (Lst [h, Lst txs, Lst us, Lst ws]) = do {
     h \<leftarrow> decHeader h; Some \<lparr>bHeader = h, bTxs = txs, bUncles = us, bWithdrawals = Some ws\<rparr> }"
| "decBlock x = None"

section \<open>Message structs\<close>

definition PreprepareCode :: uint64 where "PreprepareCode = 0x12"
definition PrepareCode :: uint64 where "PrepareCode = 0x13"
definition CommitCode :: uint64 where "CommitCode = 0x14"
definition RoundChangeCode :: uint64 where "RoundChangeCode = 0x15"

definition MessageCodes :: "uint64 set" where
  "MessageCodes = {PreprepareCode, PrepareCode, CommitCode, RoundChangeCode}"

lemmas code_defs = PreprepareCode_def PrepareCode_def CommitCode_def RoundChangeCode_def

record CommonPayload =
  pCode :: uint64
  pSource :: address
  pSequence :: int
  pRound :: int
  pSignature :: bytes

record Prepare = CommonPayload +
  Digest :: hash
  prSeal :: bytes

record Commit = CommonPayload +
  cDigest :: hash
  CommitSeal :: bytes

record SignedRoundChangePayload = CommonPayload +
  PreparedRound :: "int option"
  PreparedDigest :: hash

record RoundChange = SignedRoundChangePayload +
  PreparedBlock :: "Block option"
  Justification :: "Prepare list"

record Preprepare = CommonPayload +
  Proposal :: Block
  JustificationRoundChanges :: "SignedRoundChangePayload list"
  JustificationPrepares :: "Prepare list"

definition payloadView :: "'a CommonPayload_scheme \<Rightarrow> View" where
  "payloadView m = \<lparr>vRound = pRound m, vSequence = pSequence m\<rparr>"

definition commonPayload :: "uint64 \<Rightarrow> int \<Rightarrow> int \<Rightarrow> CommonPayload" where
  "commonPayload c s r = \<lparr>pCode = c, pSource = 0, pSequence = s, pRound = r, pSignature = []\<rparr>"

definition NewPrepare :: "int \<Rightarrow> int \<Rightarrow> hash \<Rightarrow> bytes \<Rightarrow> Prepare" where
  "NewPrepare sequence rd digest seal =
     CommonPayload.extend (commonPayload PrepareCode sequence rd) (Prepare.fields digest seal)"

definition NewPrepareWithSigAndSource ::
  "int \<Rightarrow> int \<Rightarrow> hash \<Rightarrow> bytes \<Rightarrow> address \<Rightarrow> bytes \<Rightarrow> Prepare" where
  "NewPrepareWithSigAndSource sequence rd digest sig src seal =
     (NewPrepare sequence rd digest seal)\<lparr>pSignature := sig, pSource := src\<rparr>"

definition NewCommit :: "int \<Rightarrow> int \<Rightarrow> hash \<Rightarrow> bytes \<Rightarrow> Commit" where
  "NewCommit sequence rd digest seal =
     CommonPayload.extend (commonPayload CommitCode sequence rd) (Commit.fields digest seal)"

definition NewPreprepare :: "int \<Rightarrow> int \<Rightarrow> Block \<Rightarrow> Preprepare" where
  "NewPreprepare sequence rd proposal =
     CommonPayload.extend (commonPayload PreprepareCode sequence rd) (Preprepare.fields proposal [] [])"

definition NewRoundChange :: "(bytes \<Rightarrow> hash) \<Rightarrow> int \<Rightarrow> int \<Rightarrow> int option \<Rightarrow> Block option \<Rightarrow> RoundChange" where
  "NewRoundChange keccak sequence rd preparedRound preparedBlock =
     SignedRoundChangePayload.extend
       (CommonPayload.extend (commonPayload RoundChangeCode sequence rd)
         (SignedRoundChangePayload.fields preparedRound
           (case preparedBlock of None \<Rightarrow> 0 | Some b \<Rightarrow> Block_Hash keccak b)))
       (RoundChange.fields preparedBlock [])"

datatype WBFTMessage =
    MPreprepare Preprepare
  | MPrepare Prepare
  | MCommit Commit
  | MRoundChange RoundChange

fun msgCommon :: "WBFTMessage \<Rightarrow> CommonPayload" where
  "msgCommon (MPreprepare m) = CommonPayload.truncate m"
| "msgCommon (MPrepare m) = CommonPayload.truncate m"
| "msgCommon (MCommit m) = CommonPayload.truncate m"
| "msgCommon (MRoundChange m) = CommonPayload.truncate m"

definition Code :: "WBFTMessage \<Rightarrow> uint64" where "Code m = pCode (msgCommon m)"
definition Source :: "WBFTMessage \<Rightarrow> address" where "Source m = pSource (msgCommon m)"
definition msgView :: "WBFTMessage \<Rightarrow> View" where "msgView m = payloadView (msgCommon m)"
definition msgSignature :: "WBFTMessage \<Rightarrow> bytes" where "msgSignature m = pSignature (msgCommon m)"

fun SetSource :: "address \<Rightarrow> WBFTMessage \<Rightarrow> WBFTMessage" where
  "SetSource a (MPreprepare m) = MPreprepare (m\<lparr>pSource := a\<rparr>)"
| "SetSource a (MPrepare m) = MPrepare (m\<lparr>pSource := a\<rparr>)"
| "SetSource a (MCommit m) = MCommit (m\<lparr>pSource := a\<rparr>)"
| "SetSource a (MRoundChange m) = MRoundChange (m\<lparr>pSource := a\<rparr>)"

fun SetSignature :: "bytes \<Rightarrow> WBFTMessage \<Rightarrow> WBFTMessage" where
  "SetSignature s (MPreprepare m) = MPreprepare (m\<lparr>pSignature := s\<rparr>)"
| "SetSignature s (MPrepare m) = MPrepare (m\<lparr>pSignature := s\<rparr>)"
| "SetSignature s (MCommit m) = MCommit (m\<lparr>pSignature := s\<rparr>)"
| "SetSignature s (MRoundChange m) = MRoundChange (m\<lparr>pSignature := s\<rparr>)"

section \<open>Signing payloads\<close>

text \<open>Encoding fails (\<^const>\<open>None\<close>) exactly when a big integer is negative.\<close>

definition bigItem :: "int \<Rightarrow> item option" where
  "bigItem i = (if i < 0 then None else Some (intItem i))"

definition preparePayload :: "Prepare \<Rightarrow> item option" where
  "preparePayload p = do {
     s \<leftarrow> bigItem (pSequence p); r \<leftarrow> bigItem (pRound p);
     Some (Lst [s, r, hashItem (Digest p), Str (prSeal p)]) }"

definition commitPayload :: "Commit \<Rightarrow> item option" where
  "commitPayload m = do {
     s \<leftarrow> bigItem (pSequence m); r \<leftarrow> bigItem (pRound m);
     Some (Lst [s, r, hashItem (cDigest m), Str (CommitSeal m)]) }"

definition preprepPayload :: "Preprepare \<Rightarrow> item option" where
  "preprepPayload m = do {
     s \<leftarrow> bigItem (pSequence m); r \<leftarrow> bigItem (pRound m); b \<leftarrow> blockItem (Proposal m);
     Some (Lst [s, r, b]) }"

definition preparedOf :: "'a SignedRoundChangePayload_scheme \<Rightarrow> (int \<times> hash) option" where
  "preparedOf p =
     (case PreparedRound p of None \<Rightarrow> None
      | Some pr \<Rightarrow> if PreparedDigest p \<noteq> 0 then Some (pr, PreparedDigest p) else None)"

definition encodePayloadInternal :: "'a SignedRoundChangePayload_scheme \<Rightarrow> item option" where
  "encodePayloadInternal p = do {
     s \<leftarrow> bigItem (pSequence p); r \<leftarrow> bigItem (pRound p);
     prepared \<leftarrow> (case preparedOf p of None \<Rightarrow> Some []
        | Some (pr, d) \<Rightarrow> map_option (\<lambda>i. [i, hashItem d]) (bigItem pr));
     Some (Lst [s, r, Lst prepared]) }"

definition signPayload :: "uint64 \<Rightarrow> item option \<Rightarrow> bytes option" where
  "signPayload code payload = map_option (\<lambda>x. EncodeToBytes (Lst [uintItem code, x])) payload"

definition Prepare_signing :: "Prepare \<Rightarrow> bytes option" where
  "Prepare_signing p = signPayload (pCode p) (preparePayload p)"

definition SignedRoundChange_signing :: "'a SignedRoundChangePayload_scheme \<Rightarrow> bytes option" where
  "SignedRoundChange_signing p = signPayload (pCode p) (encodePayloadInternal p)"

fun signedPayload :: "WBFTMessage \<Rightarrow> item option" where
  "signedPayload (MPreprepare m) = preprepPayload m"
| "signedPayload (MPrepare m) = preparePayload m"
| "signedPayload (MCommit m) = commitPayload m"
| "signedPayload (MRoundChange m) = encodePayloadInternal m"

definition EncodePayloadForSigning :: "WBFTMessage \<Rightarrow> bytes option" where
  "EncodePayloadForSigning m = signPayload (Code m) (signedPayload m)"

section \<open>Wire format\<close>

definition prepareItem :: "Prepare \<Rightarrow> item option" where
  "prepareItem p = do { x \<leftarrow> preparePayload p; Some (Lst [x, Str (pSignature p)]) }"

definition commitItem :: "Commit \<Rightarrow> item option" where
  "commitItem m = do { x \<leftarrow> commitPayload m; Some (Lst [x, Str (pSignature m)]) }"

definition signedRoundChangeItem :: "'a SignedRoundChangePayload_scheme \<Rightarrow> item option" where
  "signedRoundChangeItem p = do { x \<leftarrow> encodePayloadInternal p; Some (Lst [x, Str (pSignature p)]) }"

definition roundChangeItem :: "RoundChange \<Rightarrow> item option" where
  "roundChangeItem m = do {
     x \<leftarrow> encodePayloadInternal m;
     b \<leftarrow> (case PreparedBlock m of None \<Rightarrow> Some (Lst []) | Some b \<Rightarrow> blockItem b);
     j \<leftarrow> those (map prepareItem (Justification m));
     Some (Lst [Lst [x, Str (pSignature m)], b, Lst j]) }"

definition preprepareItem :: "Preprepare \<Rightarrow> item option" where
  "preprepareItem m = do {
     x \<leftarrow> preprepPayload m;
     rcs \<leftarrow> those (map signedRoundChangeItem (JustificationRoundChanges m));
     ps \<leftarrow> those (map prepareItem (JustificationPrepares m));
     Some (Lst [Lst [x, Str (pSignature m)], Lst [Lst rcs, Lst ps]]) }"

fun msgItem :: "WBFTMessage \<Rightarrow> item option" where
  "msgItem (MPreprepare m) = preprepareItem m"
| "msgItem (MPrepare m) = prepareItem m"
| "msgItem (MCommit m) = commitItem m"
| "msgItem (MRoundChange m) = roundChangeItem m"

definition EncodeMsg :: "WBFTMessage \<Rightarrow> bytes option" where
  "EncodeMsg m = map_option EncodeToBytes (msgItem m)"

fun decPrepare :: "item \<Rightarrow> Prepare option" where
  "decPrepare (Lst [Lst [s, r, d, seal], sig]) = do {
     s \<leftarrow> decBigInt s; r \<leftarrow> decBigInt r; d \<leftarrow> decByteArray 32 d; seal \<leftarrow> decBytes seal;
     sig \<leftarrow> decBytes sig;
     Some ((NewPrepare s r (of_nat d) seal)\<lparr>pSignature := sig\<rparr>) }"
| "decPrepare x = None"

fun decCommit :: "item \<Rightarrow> Commit option" where
  "decCommit (Lst [Lst [s, r, d, seal], sig]) = do {
     s \<leftarrow> decBigInt s; r \<leftarrow> decBigInt r; d \<leftarrow> decByteArray 32 d; seal \<leftarrow> decBytes seal;
     sig \<leftarrow> decBytes sig;
     Some ((NewCommit s r (of_nat d) seal)\<lparr>pSignature := sig\<rparr>) }"
| "decCommit x = None"

fun decPrepared :: "item \<Rightarrow> (int option \<times> hash) option" where
  "decPrepared (Lst []) = Some (None, 0)"
| "decPrepared (Lst [pr, d]) = do {
     pr \<leftarrow> decBigInt pr; d \<leftarrow> decByteArray 32 d; Some (Some pr, of_nat d) }"
| "decPrepared x = None"

fun decSignedRoundChange :: "item \<Rightarrow> SignedRoundChangePayload option" where
  "decSignedRoundChange (Lst [Lst [s, r, p], sig]) = do {
     s \<leftarrow> decBigInt s; r \<leftarrow> decBigInt r; p \<leftarrow> decPrepared p; sig \<leftarrow> decBytes sig;
     Some (CommonPayload.extend ((commonPayload RoundChangeCode s r)\<lparr>pSignature := sig\<rparr>)
       (SignedRoundChangePayload.fields (fst p) (snd p))) }"
| "decSignedRoundChange x = None"

text \<open>\<open>stream.Kind()\<close> reports size zero for an empty string, an empty list and a single byte.\<close>

fun kindSizeZero :: "item \<Rightarrow> bool" where
  "kindSizeZero (Str b) \<longleftrightarrow> b = [] \<or> (length b = 1 \<and> b ! 0 < 0x80)"
| "kindSizeZero (Lst xs) \<longleftrightarrow> xs = []"

fun decRoundChange :: "(bytes \<Rightarrow> hash) \<Rightarrow> item \<Rightarrow> RoundChange option" where
  "decRoundChange keccak (Lst [sp, b, j]) = do {
     rc \<leftarrow> decSignedRoundChange sp;
     b \<leftarrow> (if kindSizeZero b then Some None
           else do { blk \<leftarrow> decBlock b;
                     if Block_Hash keccak blk \<noteq> PreparedDigest rc then None else Some (Some blk) });
     j \<leftarrow> (if kindSizeZero j then Some [] else decList decPrepare j);
     Some (SignedRoundChangePayload.extend rc (RoundChange.fields b j)) }"
| "decRoundChange keccak x = None"

fun decPreprepare :: "item \<Rightarrow> Preprepare option" where
  "decPreprepare (Lst [Lst [Lst [s, r, b], sig], Lst [rcs, ps]]) = do {
     s \<leftarrow> decBigInt s; r \<leftarrow> decBigInt r; b \<leftarrow> decBlock b; sig \<leftarrow> decBytes sig;
     ps \<leftarrow> decList decPrepare ps; rcs \<leftarrow> decList decSignedRoundChange rcs;
     Some ((NewPreprepare s r b)\<lparr>pSignature := sig, JustificationRoundChanges := rcs,
       JustificationPrepares := ps\<rparr>) }"
| "decPreprepare x = None"

definition Decode :: "(bytes \<Rightarrow> hash) \<Rightarrow> uint64 \<Rightarrow> bytes \<Rightarrow> goError + WBFTMessage" where
  "Decode keccak code data =
    (if code = PreprepareCode then
       (case DecodeBytes decPreprepare data of None \<Rightarrow> Inl ErrFailedDecodePreprepare
        | Some m \<Rightarrow> Inr (MPreprepare m))
     else if code = PrepareCode then
       (case DecodeBytes decPrepare data of None \<Rightarrow> Inl ErrFailedDecodeCommit
        | Some m \<Rightarrow> Inr (MPrepare m))
     else if code = CommitCode then
       (case DecodeBytes decCommit data of None \<Rightarrow> Inl ErrFailedDecodeCommit
        | Some m \<Rightarrow> Inr (MCommit m))
     else if code = RoundChangeCode then
       (case DecodeBytes (decRoundChange keccak) data of None \<Rightarrow> Inl ErrFailedDecodeRoundChange
        | Some m \<Rightarrow> Inr (MRoundChange m))
     else Inl ErrInvalidMessage)"

section \<open>Round trips\<close>

text \<open>Headers as the decoder produces them: number and difficulty present and non-negative, and an
  optional field present only when all earlier ones are.\<close>

definition wfHeader :: "Header \<Rightarrow> bool" where
  "wfHeader h \<longleftrightarrow>
     (\<exists>d. Difficulty h = Some d \<and> 0 \<le> d) \<and> (\<exists>n. Number h = Some n \<and> 0 \<le> n)
     \<and> length (Bloom h) = 256 \<and> (\<forall>f. BaseFee h = Some f \<longrightarrow> 0 \<le> f)
     \<and> (WithdrawalsHash h \<noteq> None \<longrightarrow> BaseFee h \<noteq> None)
     \<and> (BlobGasUsed h \<noteq> None \<longrightarrow> WithdrawalsHash h \<noteq> None)
     \<and> (ExcessBlobGas h \<noteq> None \<longrightarrow> BlobGasUsed h \<noteq> None)
     \<and> (ParentBeaconRoot h \<noteq> None \<longrightarrow> ExcessBlobGas h \<noteq> None)"

lemma decByteArray_nonce [simp]: "decByteArray 8 (Str (wordBytes 8 (n :: uint64))) = Some (unat n)"
  using unsigned_less [where w = n and ?'a = nat] by (simp add: decByteArray_def beVal_wordBytes)

lemma decBigInt_bigItem: "bigItem i = Some x \<Longrightarrow> decBigInt x = Some i"
  by (auto simp: bigItem_def split: if_splits)

lemma header_round_trip:
  assumes "wfHeader h"
  shows "\<exists>x. headerItem h = Some x \<and> decHeader x = Some h"
proof -
  obtain d n where d: "Difficulty h = Some d" "0 \<le> d" and n: "Number h = Some n" "0 \<le> n"
    using assms by (auto simp: wfHeader_def)
  have neg: "\<not> (case BaseFee h of None \<Rightarrow> False | Some i \<Rightarrow> i < 0)"
    using assms by (auto simp: wfHeader_def split: option.splits)
  obtain x where x: "headerItem h = Some x" using d n neg by (simp add: headerItem_def Let_def)
  have "decHeader x = Some h"
    using assms x d n neg
    by (cases "BaseFee h"; cases "WithdrawalsHash h"; cases "BlobGasUsed h"; cases "ExcessBlobGas h";
        cases "ParentBeaconRoot h")
      (auto simp: headerItem_def Let_def wfHeader_def decFixed_def decOptional_def bigIntPtrItem_def)
  with x show ?thesis by blast
qed

lemma block_round_trip:
  assumes "wfHeader (bHeader b)"
  shows "\<exists>x. blockItem b = Some x \<and> decBlock x = Some b \<and> \<not> kindSizeZero x"
  using header_round_trip [OF assms] by (cases "bWithdrawals b") (auto simp: blockItem_def)

text \<open>Messages the protocol sends, and what of them travels: sources are recovered from the
  signatures by the receiver.\<close>

definition wfPayload :: "uint64 \<Rightarrow> 'a CommonPayload_scheme \<Rightarrow> bool" where
  "wfPayload c m \<longleftrightarrow> pCode m = c \<and> 0 \<le> pSequence m \<and> 0 \<le> pRound m"

definition wfPrepared :: "'a SignedRoundChangePayload_scheme \<Rightarrow> bool" where
  "wfPrepared p \<longleftrightarrow> (PreparedRound p = None \<and> PreparedDigest p = 0)
     \<or> (\<exists>pr. PreparedRound p = Some pr \<and> 0 \<le> pr \<and> PreparedDigest p \<noteq> 0)"

fun wfMsg :: "(bytes \<Rightarrow> hash) \<Rightarrow> WBFTMessage \<Rightarrow> bool" where
  "wfMsg keccak (MPreprepare m) \<longleftrightarrow> wfPayload PreprepareCode m \<and> wfHeader (bHeader (Proposal m))
     \<and> (\<forall>rc \<in> set (JustificationRoundChanges m). wfPayload RoundChangeCode rc \<and> wfPrepared rc)
     \<and> (\<forall>p \<in> set (JustificationPrepares m). wfPayload PrepareCode p)"
| "wfMsg keccak (MPrepare m) \<longleftrightarrow> wfPayload PrepareCode m"
| "wfMsg keccak (MCommit m) \<longleftrightarrow> wfPayload CommitCode m"
| "wfMsg keccak (MRoundChange m) \<longleftrightarrow> wfPayload RoundChangeCode m \<and> wfPrepared m
     \<and> (\<forall>b. PreparedBlock m = Some b \<longrightarrow> wfHeader (bHeader b) \<and> Block_Hash keccak b = PreparedDigest m)
     \<and> (\<forall>p \<in> set (Justification m). wfPayload PrepareCode p)"

definition noSource :: "'a CommonPayload_scheme \<Rightarrow> 'a CommonPayload_scheme" where
  "noSource m = m\<lparr>pSource := 0\<rparr>"

fun onWire :: "WBFTMessage \<Rightarrow> WBFTMessage" where
  "onWire (MPreprepare m) = MPreprepare ((noSource m)\<lparr>
     JustificationRoundChanges := map noSource (JustificationRoundChanges m),
     JustificationPrepares := map noSource (JustificationPrepares m)\<rparr>)"
| "onWire (MPrepare m) = MPrepare (noSource m)"
| "onWire (MCommit m) = MCommit (noSource m)"
| "onWire (MRoundChange m) = MRoundChange ((noSource m)\<lparr>
     Justification := map noSource (Justification m)\<rparr>)"

lemma those_rt:
  assumes "\<And>x. x \<in> set xs \<Longrightarrow> \<exists>y. enc x = Some y \<and> dec y = Some (f x)"
  shows "\<exists>ys. those (map enc xs) = Some ys \<and> those (map dec ys) = Some (map f xs) \<and> length ys = length xs"
  using assms
proof (induction xs)
  case (Cons x xs)
  then obtain y ys where "enc x = Some y" "dec y = Some (f x)"
    "those (map enc xs) = Some ys" "those (map dec ys) = Some (map f xs)" "length ys = length xs" by fastforce
  then show ?case by (intro exI [of _ "y # ys"]) simp
qed simp

lemmas payload_defs = bigItem_def noSource_def commonPayload_def wfPayload_def
  NewPrepare_def NewCommit_def NewPreprepare_def CommonPayload.defs Prepare.defs Commit.defs
  Preprepare.defs SignedRoundChangePayload.defs RoundChange.defs

lemma prepare_round_trip:
  assumes "wfPayload PrepareCode p"
  shows "\<exists>x. prepareItem p = Some x \<and> decPrepare x = Some (noSource p)"
  using assms by (cases p) (auto simp: prepareItem_def preparePayload_def payload_defs)

lemma commit_round_trip:
  assumes "wfPayload CommitCode m"
  shows "\<exists>x. commitItem m = Some x \<and> decCommit x = Some (noSource m)"
  using assms by (cases m) (auto simp: commitItem_def commitPayload_def payload_defs)

lemma prepared_round_trip:
  assumes "wfPrepared p"
  shows "\<exists>x. (case preparedOf p of None \<Rightarrow> Some [] | Some (pr, d) \<Rightarrow> map_option (\<lambda>i. [i, hashItem d]) (bigItem pr)) = Some x
     \<and> decPrepared (Lst x) = Some (PreparedRound p, PreparedDigest p)"
  using assms by (auto simp: wfPrepared_def preparedOf_def bigItem_def)

lemma signed_round_trip:
  assumes "wfPayload RoundChangeCode p" "wfPrepared p"
  shows "\<exists>x. encodePayloadInternal p = Some x \<and> decSignedRoundChange (Lst [x, Str (pSignature p)]) =
     Some (SignedRoundChangePayload.truncate (noSource p))"
proof -
  obtain x where "(case preparedOf p of None \<Rightarrow> Some [] | Some (pr, d) \<Rightarrow> map_option (\<lambda>i. [i, hashItem d]) (bigItem pr)) = Some x"
    "decPrepared (Lst x) = Some (PreparedRound p, PreparedDigest p)"
    using prepared_round_trip [OF assms(2)] by blast
  with assms(1) show ?thesis
    by (auto simp: encodePayloadInternal_def payload_defs)
qed

lemma signedRoundChange_round_trip:
  assumes "wfPayload RoundChangeCode p" "wfPrepared p"
  shows "\<exists>x. signedRoundChangeItem p = Some x \<and> decSignedRoundChange x = Some (noSource p)"
  using signed_round_trip [OF assms]
  by (cases p) (auto simp: signedRoundChangeItem_def noSource_def SignedRoundChangePayload.defs)

lemma roundChange_round_trip:
  assumes "wfMsg keccak (MRoundChange m)"
  shows "\<exists>x. roundChangeItem m = Some x \<and> map_option MRoundChange (decRoundChange keccak x) = Some (onWire (MRoundChange m))"
proof -
  obtain x where x: "encodePayloadInternal m = Some x"
    "decSignedRoundChange (Lst [x, Str (pSignature m)]) = Some (SignedRoundChangePayload.truncate (noSource m))"
    using signed_round_trip [of m] assms by auto
  obtain b where b: "(case PreparedBlock m of None \<Rightarrow> Some (Lst []) | Some b \<Rightarrow> blockItem b) = Some b"
    "(if kindSizeZero b then Some None else do { blk \<leftarrow> decBlock b;
        if Block_Hash keccak blk \<noteq> PreparedDigest m then None else Some (Some blk) }) = Some (PreparedBlock m)"
  proof (cases "PreparedBlock m")
    case (Some blk)
    with assms obtain y where "blockItem blk = Some y" "decBlock y = Some blk" "\<not> kindSizeZero y"
      using block_round_trip [of blk] by auto
    then show ?thesis using assms Some that [of y] by simp
  qed (use that [of "Lst []"] in simp)
  obtain j where j: "those (map prepareItem (Justification m)) = Some j"
    "those (map decPrepare j) = Some (map noSource (Justification m))" "length j = length (Justification m)"
    using those_rt [of "Justification m" prepareItem decPrepare noSource] prepare_round_trip assms by auto
  have "(if kindSizeZero (Lst j) then Some [] else decList decPrepare (Lst j)) = Some (map noSource (Justification m))"
    using j by (cases j) auto
  with x b j(1) show ?thesis
    by (cases m) (auto simp: roundChangeItem_def noSource_def SignedRoundChangePayload.defs RoundChange.defs
        bind_eq_Some_conv simp del: kindSizeZero.simps decList.simps split: if_splits)
qed

lemma preprepare_round_trip:
  assumes "wfMsg keccak (MPreprepare m)"
  shows "\<exists>x. preprepareItem m = Some x \<and> map_option MPreprepare (decPreprepare x) = Some (onWire (MPreprepare m))"
proof -
  obtain b where b: "blockItem (Proposal m) = Some b" "decBlock b = Some (Proposal m)"
    using block_round_trip [of "Proposal m"] assms by auto
  obtain rcs where rcs: "those (map signedRoundChangeItem (JustificationRoundChanges m)) = Some rcs"
    "those (map decSignedRoundChange rcs) = Some (map noSource (JustificationRoundChanges m))"
    using those_rt [of "JustificationRoundChanges m" signedRoundChangeItem decSignedRoundChange noSource]
      signedRoundChange_round_trip assms by auto
  obtain ps where ps: "those (map prepareItem (JustificationPrepares m)) = Some ps"
    "those (map decPrepare ps) = Some (map noSource (JustificationPrepares m))"
    using those_rt [of "JustificationPrepares m" prepareItem decPrepare noSource] prepare_round_trip assms by auto
  show ?thesis using assms b rcs ps
    by (auto simp: preprepareItem_def preprepPayload_def payload_defs)
qed

lemma msg_round_trip:
  assumes "wfMsg keccak m"
  shows "\<exists>x. msgItem m = Some x \<and> (length (encodeItem x) < 2 ^ 64 \<longrightarrow>
     Decode keccak (Code m) (EncodeToBytes x) = Inr (onWire m))"
proof (cases m)
  case (MPreprepare p)
  then show ?thesis using assms preprepare_round_trip [of keccak p]
    by (auto simp: Decode_def Code_def CommonPayload.defs wfPayload_def DecodeBytes_Encode code_defs)
next
  case (MPrepare p)
  then show ?thesis using assms prepare_round_trip [of p]
    by (auto simp: Decode_def Code_def CommonPayload.defs wfPayload_def DecodeBytes_Encode code_defs)
next
  case (MCommit p)
  then show ?thesis using assms commit_round_trip [of p]
    by (auto simp: Decode_def Code_def CommonPayload.defs wfPayload_def DecodeBytes_Encode code_defs)
next
  case (MRoundChange p)
  then show ?thesis using assms roundChange_round_trip [of keccak p]
    by (auto simp: Decode_def Code_def CommonPayload.defs wfPayload_def DecodeBytes_Encode code_defs)
qed

section \<open>What a signature covers\<close>

fun kindCode :: "WBFTMessage \<Rightarrow> uint64" where
  "kindCode (MPreprepare m) = PreprepareCode"
| "kindCode (MPrepare m) = PrepareCode"
| "kindCode (MCommit m) = CommitCode"
| "kindCode (MRoundChange m) = RoundChangeCode"

text \<open>A message with the code of its kind whose signed bytes fit in memory.\<close>

definition signable :: "WBFTMessage \<Rightarrow> bool" where
  "signable m \<longleftrightarrow> Code m = kindCode m
     \<and> length (encodeItem (Lst [uintItem (Code m), the (signedPayload m)])) < 2 ^ 64"

fun sameStatement :: "WBFTMessage \<Rightarrow> WBFTMessage \<Rightarrow> bool" where
  "sameStatement (MPreprepare m) (MPreprepare m') \<longleftrightarrow>
     payloadView m = payloadView m' \<and> blockItem (Proposal m) = blockItem (Proposal m')"
| "sameStatement (MPrepare m) (MPrepare m') \<longleftrightarrow>
     payloadView m = payloadView m' \<and> Digest m = Digest m' \<and> prSeal m = prSeal m'"
| "sameStatement (MCommit m) (MCommit m') \<longleftrightarrow>
     payloadView m = payloadView m' \<and> cDigest m = cDigest m' \<and> CommitSeal m = CommitSeal m'"
| "sameStatement (MRoundChange m) (MRoundChange m') \<longleftrightarrow>
     payloadView m = payloadView m' \<and> preparedOf m = preparedOf m'"
| "sameStatement m m' \<longleftrightarrow> False"

lemma hashItem_inj [simp]: "hashItem h = hashItem h' \<longleftrightarrow> h = h'"
  by (metis decByteArray_word(2) option.inject word_unat_eq_iff)

lemma bigItem_inj: "bigItem i = Some x \<Longrightarrow> bigItem j = Some x \<Longrightarrow> i = j"
  by (metis decBigInt_bigItem option.inject)

lemma encodePayload_inj:
  assumes "encodePayloadInternal p = Some x" "encodePayloadInternal q = Some x"
  shows "payloadView p = payloadView q \<and> preparedOf p = preparedOf q"
  using assms by (auto simp: encodePayloadInternal_def bind_eq_Some_conv payloadView_def
      dest: bigItem_inj split: option.splits)

lemma signedPayload_inj:
  assumes "signedPayload m = Some x" "signedPayload m' = Some x" "kindCode m = kindCode m'"
  shows "sameStatement m m'"
  using assms encodePayload_inj
  by (cases m; cases m')
    (auto simp: code_defs preprepPayload_def preparePayload_def commitPayload_def bind_eq_Some_conv
      payloadView_def dest: bigItem_inj)

lemma same_signed_bytes:
  assumes "signable m" "signable m'"
    and "EncodePayloadForSigning m = Some b" "EncodePayloadForSigning m' = Some b"
  shows "Code m = Code m' \<and> sameStatement m m'"
proof -
  obtain x x' where x: "signedPayload m = Some x" "signedPayload m' = Some x'"
    and b: "EncodeToBytes (Lst [uintItem (Code m), x]) = EncodeToBytes (Lst [uintItem (Code m'), x'])"
    using assms(3,4) by (auto simp: EncodePayloadForSigning_def signPayload_def)
  have fits: "length (encodeItem (Lst [uintItem (Code m), x])) < 2 ^ 64"
    "length (encodeItem (Lst [uintItem (Code m'), x'])) < 2 ^ 64"
    using assms(1,2) x by (auto simp only: signable_def option.sel)
  then have "Lst [uintItem (Code m), x] = Lst [uintItem (Code m'), x']"
    using b encodeItem_inj by (metis EncodeToBytes_eq)
  then have "Code m = Code m'" "x = x'" by (simp_all add: uintItem_inj)
  then show ?thesis using signedPayload_inj [of m x m'] x assms(1,2) by (simp add: signable_def)
qed

section \<open>Properties\<close>

text \<open>C18. Every message the protocol sends is encodable, and a receiver that decodes the bytes gets the
  message back, its embedded block and justification included; only the sources are left to be
  recovered from the signatures.\<close>

theorem message_round_trip:
  assumes "wfMsg keccak m"
  shows "\<exists>x. msgItem m = Some x \<and> EncodeMsg m = Some (EncodeToBytes x)
    \<and> (length (encodeItem x) < 2 ^ 64 \<longrightarrow> Decode keccak (Code m) (EncodeToBytes x) = Inr (onWire m))"
  using msg_round_trip [OF assms] by (auto simp: EncodeMsg_def)

definition exampleMsg :: WBFTMessage where
  "exampleMsg = MRoundChange ((NewRoundChange (\<lambda>b. 0) 5 1 None None)
     \<lparr>Justification := [NewPrepare 5 0 7 [1, 2]]\<rparr>)"

lemma exampleMsg_wf: "wfMsg (\<lambda>b. 0) exampleMsg"
  by (simp add: exampleMsg_def NewRoundChange_def wfPrepared_def payload_defs)

theorem message_round_trip_witness: "wfMsg (\<lambda>b. 0) exampleMsg \<and> (\<exists>x. EncodeMsg exampleMsg = Some x)"
  using exampleMsg_wf message_round_trip [OF exampleMsg_wf] by blast

text \<open>C15. A signature covers what the message says: two signable messages with the same signed bytes are
  of the same kind and agree on the view and on the proposal, the digest and seal, or the prepared
  round and digest that they state. So no signed message can be replayed as another.\<close>

theorem signature_covers_statement:
  assumes "signable m" "signable m'"
    and "EncodePayloadForSigning m = Some b" "EncodePayloadForSigning m' = Some b"
  shows "Code m = Code m' \<and> sameStatement m m'"
  using assms by (rule same_signed_bytes)

lemma exampleMsg_bytes:
  "encodeItem (Lst [uintItem (Code exampleMsg), the (signedPayload exampleMsg)]) = [0xC5, 0x15, 0xC3, 0x05, 0x01, 0xC0]"
  by code_simp

lemma exampleMsg_signable:
  "signable exampleMsg" "\<exists>b. EncodePayloadForSigning exampleMsg = Some b"
proof -
  have "Code exampleMsg = kindCode exampleMsg" by code_simp
  then show "signable exampleMsg" unfolding signable_def exampleMsg_bytes by simp
  have "signedPayload exampleMsg \<noteq> None" by code_simp
  then show "\<exists>b. EncodePayloadForSigning exampleMsg = Some b"
    by (auto simp: EncodePayloadForSigning_def signPayload_def)
qed

theorem signature_covers_statement_witness: "sameStatement exampleMsg exampleMsg"
  using signature_covers_statement [OF exampleMsg_signable(1,1)] exampleMsg_signable(2) by blast

end
