(* ===== verification/Justification.thy ===== *)
theory Justification
  imports Messages
begin

text \<open>
  Message sets (\<open>core/qbft_msg_set.go\<close>) and the justification of a proposal in a later round
  (\<open>core/justification.go\<close>). The lemmas characterise which sets of ROUND-CHANGE and PREPARE
  messages justify a proposal.
\<close>

section \<open>Message sets\<close>

record wbftMsgSet =
  msView :: View
  msValSet :: defaultSet
  messages :: "(address, WBFTMessage) gomap"

definition newWBFTMsgSet :: "defaultSet \<Rightarrow> wbftMsgSet" where
  "newWBFTMsgSet valSet = \<lparr>msView = \<lparr>vRound = 0, vSequence = 0\<rparr>, msValSet = valSet, messages = []\<rparr>"

definition MsgSet_Add :: "WBFTMessage \<Rightarrow> wbftMsgSet \<Rightarrow> wbftMsgSet" where
  "MsgSet_Add msg ms = ms\<lparr>messages := mapSet (Source msg) msg (messages ms)\<rparr>"

definition Values :: "wbftMsgSet \<Rightarrow> WBFTMessage list" where
  "Values ms = map snd (messages ms)"

definition MsgSet_Size :: "wbftMsgSet \<Rightarrow> int" where
  "MsgSet_Size ms = int (length (messages ms))"

definition MsgSet_Get :: "wbftMsgSet \<Rightarrow> address \<Rightarrow> WBFTMessage option" where
  "MsgSet_Get ms addr = mapGet (messages ms) addr"

text \<open>The type assertions \<open>m.(*Prepare)\<close>, \<open>m.(*Commit)\<close> and \<open>m.(*RoundChange)\<close>, which panic on
  another type.\<close>

fun asPrepare :: "WBFTMessage \<Rightarrow> Prepare option" where
  "asPrepare (MPrepare m) = Some m"
| "asPrepare _ = None"

fun asCommit :: "WBFTMessage \<Rightarrow> Commit option" where
  "asCommit (MCommit m) = Some m"
| "asCommit _ = None"

fun asRoundChange :: "WBFTMessage \<Rightarrow> RoundChange option" where
  "asRoundChange (MRoundChange m) = Some m"
| "asRoundChange _ = None"

text \<open>Every message is stored under its own source, once.\<close>

definition msgSet_wf :: "wbftMsgSet \<Rightarrow> bool" where
  "msgSet_wf ms \<longleftrightarrow> goMap (messages ms) \<and> (\<forall>(a, m) \<in> set (messages ms). Source m = a)"

lemma newWBFTMsgSet_simps [simp]:
  "messages (newWBFTMsgSet vs) = []" "msgSet_wf (newWBFTMsgSet vs)" "Values (newWBFTMsgSet vs) = []"
  by (simp_all add: newWBFTMsgSet_def msgSet_wf_def Values_def)

lemma msgSet_wf_Add [simp, intro]: "msgSet_wf ms \<Longrightarrow> msgSet_wf (MsgSet_Add m ms)"
  by (auto simp: msgSet_wf_def MsgSet_Add_def set_mapSet)

lemma Values_Add: "msgSet_wf ms \<Longrightarrow>
  set (Values (MsgSet_Add m ms)) = insert m {m' \<in> set (Values ms). Source m' \<noteq> Source m}"
  by (force simp: msgSet_wf_def MsgSet_Add_def Values_def set_mapSet)

lemma mapSet_values: "snd ` set (mapSet k v m) \<subseteq> insert v (snd ` set m)"
  by (induction m) auto

lemma Values_AddD: "x \<in> set (Values (MsgSet_Add m ms)) \<Longrightarrow> x = m \<or> x \<in> set (Values ms)"
  using mapSet_values [of "Source m" m "messages ms"] by (auto simp: Values_def MsgSet_Add_def)

lemma distinct_sources: "msgSet_wf ms \<Longrightarrow> distinct (map Source (Values ms))"
proof -
  assume wf: "msgSet_wf ms"
  have "map Source (Values ms) = map fst (messages ms)"
    using wf by (auto simp: Values_def msgSet_wf_def)
  then show ?thesis using wf by (simp add: msgSet_wf_def goMap_def)
qed

lemma card_sources: "msgSet_wf ms \<Longrightarrow> int (card (Source ` set (Values ms))) = MsgSet_Size ms"
  using distinct_card [OF distinct_sources, of ms] by (simp add: MsgSet_Size_def Values_def image_image)

section \<open>Justification\<close>

fun dedupFrom :: "address set \<Rightarrow> 'a CommonPayload_scheme list \<Rightarrow> 'a CommonPayload_scheme list" where
  "dedupFrom seen [] = []"
| "dedupFrom seen (m # ms) =
     (if pSource m \<in> seen then dedupFrom seen ms else m # dedupFrom (insert (pSource m) seen) ms)"

definition deduplicateRoundChanges ::
  "SignedRoundChangePayload list \<Rightarrow> SignedRoundChangePayload list" where
  "deduplicateRoundChanges msgs = dedupFrom {} msgs"

definition deduplicatePrepares :: "Prepare list \<Rightarrow> Prepare list" where
  "deduplicatePrepares msgs = dedupFrom {} msgs"

definition nilPrepared :: "SignedRoundChangePayload \<Rightarrow> bool" where
  "nilPrepared m \<longleftrightarrow> (PreparedRound m = None \<or> PreparedRound m = Some 0) \<and> PreparedDigest m = 0"

fun nilLoop :: "int \<Rightarrow> SignedRoundChangePayload list \<Rightarrow> int \<Rightarrow> goError option" where
  "nilLoop nilCount [] quorumSize =
     Some (ErrorNew ''quorum of roundchange messages with nil prepared round not found'')"
| "nilLoop nilCount (m # ms) quorumSize =
     (if nilPrepared m
      then if nilCount + 1 = quorumSize then None else nilLoop (nilCount + 1) ms quorumSize
      else nilLoop nilCount ms quorumSize)"

definition hasQuorumOfRoundChangeMessagesForNil ::
  "SignedRoundChangePayload list \<Rightarrow> int \<Rightarrow> goError option" where
  "hasQuorumOfRoundChangeMessagesForNil roundChangeMessages quorumSize =
     nilLoop 0 roundChangeMessages quorumSize"

definition lowerOrEqual :: "int \<Rightarrow> SignedRoundChangePayload \<Rightarrow> bool" where
  "lowerOrEqual preparedRound m \<longleftrightarrow>
     (case PreparedRound m of None \<Rightarrow> True | Some pr \<Rightarrow> bigCmp pr preparedRound \<le> 0)"

definition matching :: "int \<Rightarrow> hash \<Rightarrow> SignedRoundChangePayload \<Rightarrow> bool" where
  "matching preparedRound h m \<longleftrightarrow> PreparedRound m = Some preparedRound \<and> PreparedDigest m = h"

fun preparedLoop ::
  "int \<Rightarrow> bool \<Rightarrow> SignedRoundChangePayload list \<Rightarrow> int \<Rightarrow> hash \<Rightarrow> int \<Rightarrow> goError option" where
  "preparedLoop n hasMatchingMessage [] preparedRound h quorumSize =
     Some (ErrorNew ''quorum of roundchange messages with prepared round and proposal not found'')"
| "preparedLoop n hasMatchingMessage (m # ms) preparedRound h quorumSize =
     (if lowerOrEqual preparedRound m
      then let n = n + 1; hasMatchingMessage = hasMatchingMessage \<or> matching preparedRound h m
           in if n \<ge> quorumSize \<and> hasMatchingMessage then None
              else preparedLoop n hasMatchingMessage ms preparedRound h quorumSize
      else preparedLoop n hasMatchingMessage ms preparedRound h quorumSize)"

definition hasQuorumOfRoundChangeMessagesForPreparedRoundAndBlock ::
  "(bytes \<Rightarrow> hash) \<Rightarrow> SignedRoundChangePayload list \<Rightarrow> int \<Rightarrow> Block \<Rightarrow> int \<Rightarrow> goError option" where
  "hasQuorumOfRoundChangeMessagesForPreparedRoundAndBlock keccak roundChangeMessages preparedRound
     preparedBlock quorumSize =
   preparedLoop 0 False roundChangeMessages preparedRound (Block_Hash keccak preparedBlock) quorumSize"

fun checkViews :: "SignedRoundChangePayload list \<Rightarrow> View \<Rightarrow> goError option" where
  "checkViews [] targetView = None"
| "checkViews (rc # rcs) targetView =
     (if bigCmp (pSequence rc) (vSequence targetView) \<noteq> 0 \<or> bigCmp (pRound rc) (vRound targetView) \<noteq> 0
      then Some (JustificationError ''round-change message view does not match target view'')
      else checkViews rcs targetView)"

fun checkPrepares :: "Prepare list \<Rightarrow> int \<Rightarrow> hash \<Rightarrow> goError option" where
  "checkPrepares [] preparedRound h = None"
| "checkPrepares (spp # spps) preparedRound h =
     (if bigCmp preparedRound (pRound spp) \<noteq> 0 then Some (JustificationError ''prepare message round mismatch'')
      else if h \<noteq> Digest spp then Some (JustificationError ''prepare message digest mismatch'')
      else checkPrepares spps preparedRound h)"

definition isJustified ::
  "(bytes \<Rightarrow> hash) \<Rightarrow> Block \<Rightarrow> View \<Rightarrow> SignedRoundChangePayload list \<Rightarrow> Prepare list \<Rightarrow> int \<Rightarrow> goError option" where
  "isJustified keccak proposal targetView roundChangeMessages prepareMessages quorumSize =
    (let rcs = deduplicateRoundChanges roundChangeMessages;
         ps = deduplicatePrepares prepareMessages
     in if int (length rcs) < quorumSize
        then Some (ErrorNew ''number of roundchange messages is less than required quorum of messages'')
        else case checkViews rcs targetView of Some e \<Rightarrow> Some e | None \<Rightarrow>
          if ps \<noteq> [] \<and> int (length ps) < quorumSize
          then Some (ErrorNew ''number of prepared messages is less than required quorum of messages'')
          else (case ps of
              [] \<Rightarrow> hasQuorumOfRoundChangeMessagesForNil rcs quorumSize
            | p # _ \<Rightarrow>
                (case checkPrepares ps (pRound p) (Block_Hash keccak proposal) of Some e \<Rightarrow> Some e
                 | None \<Rightarrow> hasQuorumOfRoundChangeMessagesForPreparedRoundAndBlock keccak rcs (pRound p)
                            proposal quorumSize)))"

text \<open>Comparing with a nil prepared round panics.\<close>

fun checkMatching :: "Prepare list \<Rightarrow> RoundChange \<Rightarrow> goError option option" where
  "checkMatching [] roundChange = Some None"
| "checkMatching (spp # spps) roundChange =
     (if Digest spp \<noteq> PreparedDigest roundChange
      then Some (Some (ErrorNew ''prepared message digest does not match roundchange prepared digest''))
      else case PreparedRound roundChange of None \<Rightarrow> None
        | Some pr \<Rightarrow> if bigCmp (pRound spp) pr \<noteq> 0
            then Some (Some (ErrorNew ''round number in prepared message does not match prepared round in roundchange''))
            else checkMatching spps roundChange)"

definition hasMatchingRoundChangeAndPrepares ::
  "RoundChange \<Rightarrow> Prepare list \<Rightarrow> int \<Rightarrow> goError option option" where
  "hasMatchingRoundChangeAndPrepares roundChange prepareMessages quorumSize =
    (let ps = deduplicatePrepares prepareMessages
     in if int (length ps) < quorumSize
        then Some (Some (ErrorNew ''number of prepare messages is less than quorum of messages''))
        else checkMatching ps roundChange)"

section \<open>What the checks establish\<close>

lemma set_dedupFrom: "set (dedupFrom seen ms) \<subseteq> set ms"
  by (induction seen ms rule: dedupFrom.induct) auto

lemma sources_dedupFrom: "pSource ` set (dedupFrom seen ms) = pSource ` set ms - seen"
  by (induction seen ms rule: dedupFrom.induct) auto

lemma distinct_dedupFrom: "distinct (map pSource (dedupFrom seen ms))"
proof (induction seen ms rule: dedupFrom.induct)
  case (2 seen m ms)
  then show ?case using sources_dedupFrom [of "insert (pSource m) seen" ms] by auto
qed simp

lemma dedupFrom_Nil [simp]: "dedupFrom {} ms = [] \<longleftrightarrow> ms = []"
  by (cases ms) auto

lemma length_dedupFrom: "length (dedupFrom {} ms) = card (pSource ` set ms)"
  using distinct_card [OF distinct_dedupFrom, of "{}" ms] sources_dedupFrom [of "{}" ms] by simp

lemma length_filter_dedupFrom:
  "length (filter P (dedupFrom seen ms)) = card (pSource ` {m \<in> set (dedupFrom seen ms). P m})"
  using distinct_card [OF distinct_map_filter [OF distinct_dedupFrom, of P seen ms]] by simp

lemma checkViews_None:
  "checkViews rcs v = None \<longleftrightarrow> (\<forall>rc \<in> set rcs. payloadView rc = v)"
  by (induction rcs) (auto simp: payloadView_def)

lemma checkPrepares_None:
  "checkPrepares ps pr h = None \<longleftrightarrow> (\<forall>p \<in> set ps. pRound p = pr \<and> Digest p = h)"
  by (induction ps) auto

lemma checkMatching_None:
  "PreparedRound rc = Some pr \<Longrightarrow>
     checkMatching ps rc = Some None \<longleftrightarrow> (\<forall>p \<in> set ps. Digest p = PreparedDigest rc \<and> pRound p = pr)"
  by (induction ps) simp_all

lemma checkMatching_no_panic: "PreparedRound rc = Some pr \<Longrightarrow> \<exists>r. checkMatching ps rc = Some r"
  by (induction ps) simp_all

lemma nilLoop_None:
  "nilLoop n ms q = None \<longleftrightarrow> n < q \<and> q \<le> n + int (length (filter nilPrepared ms))"
proof (induction ms arbitrary: n)
  case (Cons m ms)
  define l where "l = int (length (filter nilPrepared ms))"
  have "0 \<le> l" by (simp add: l_def)
  then show ?case using Cons.IH [of n] Cons.IH [of "n + 1"] unfolding l_def [symmetric]
    by (cases "nilPrepared m"; cases "n + 1 = q") (simp_all add: l_def [symmetric] del: of_nat_le_iff, linarith+)
qed simp

lemma matching_lowerOrEqual: "matching pr h m \<Longrightarrow> lowerOrEqual pr m"
  by (simp add: matching_def lowerOrEqual_def)

lemma preparedLoop_None:
  "preparedLoop n b ms pr h q = None \<longleftrightarrow>
     (\<exists>m \<in> set ms. lowerOrEqual pr m) \<and> q \<le> n + int (length (filter (lowerOrEqual pr) ms))
     \<and> (b \<or> (\<exists>m \<in> set ms. matching pr h m))"
proof (induction ms arbitrary: n b)
  case (Cons m ms)
  show ?case
  proof (cases "lowerOrEqual pr m")
    case True
    have "filter (lowerOrEqual pr) ms = [] \<longleftrightarrow> \<not> (\<exists>m \<in> set ms. lowerOrEqual pr m)"
      by (auto simp: filter_empty_conv)
    then have "(\<exists>m \<in> set ms. lowerOrEqual pr m) \<longleftrightarrow> 0 < length (filter (lowerOrEqual pr) ms)" by blast
    then show ?thesis
      using True Cons [of "n + 1" "b \<or> matching pr h m"] matching_lowerOrEqual [of pr h]
      by (auto simp: Let_def)
  qed (use Cons matching_lowerOrEqual [of pr h m] in auto)
qed simp

text \<open>Justification as the protocol states it, over the first message of every sender.\<close>

definition sendersWith :: "(SignedRoundChangePayload \<Rightarrow> bool) \<Rightarrow> SignedRoundChangePayload list \<Rightarrow> address set" where
  "sendersWith P rcs = pSource ` {m \<in> set (deduplicateRoundChanges rcs). P m}"

definition prepareQuorum :: "int \<Rightarrow> hash \<Rightarrow> Prepare list \<Rightarrow> int \<Rightarrow> bool" where
  "prepareQuorum pr h ps q \<longleftrightarrow> ps \<noteq> [] \<and> q \<le> int (card (pSource ` set ps))
     \<and> (\<forall>p \<in> set (deduplicatePrepares ps). pRound p = pr \<and> Digest p = h)"

definition justifiedSpec ::
  "hash \<Rightarrow> View \<Rightarrow> SignedRoundChangePayload list \<Rightarrow> Prepare list \<Rightarrow> int \<Rightarrow> bool" where
  "justifiedSpec h v rcs ps q \<longleftrightarrow>
     q \<le> int (card (pSource ` set rcs))
     \<and> (\<forall>rc \<in> set (deduplicateRoundChanges rcs). payloadView rc = v)
     \<and> (ps = [] \<and> q \<le> int (card (sendersWith nilPrepared rcs))
        \<or> (\<exists>pr. prepareQuorum pr h ps q \<and> q \<le> int (card (sendersWith (lowerOrEqual pr) rcs))
             \<and> sendersWith (matching pr h) rcs \<noteq> {}))"

lemma checks_None:
  "(if a then Some e else case b of Some x \<Rightarrow> Some x | None \<Rightarrow>
      if c then Some f else (case d of Some y \<Rightarrow> Some y | None \<Rightarrow> g)) = None \<longleftrightarrow>
   \<not> a \<and> b = None \<and> \<not> c \<and> d = None \<and> g = None"
  by (auto split: option.split)

lemma isJustified_iff:
  assumes "0 < q"
  shows "isJustified keccak proposal v rcs ps q = None \<longleftrightarrow>
    justifiedSpec (Block_Hash keccak proposal) v rcs ps q"
proof -
  let ?h = "Block_Hash keccak proposal" and ?R = "dedupFrom {} rcs"
  have R: "int (length ?R) < q \<longleftrightarrow> \<not> q \<le> int (card (pSource ` set rcs))" by (simp add: length_dedupFrom not_le)
  show ?thesis
  proof (cases "dedupFrom {} ps")
    case Nil
    then have "ps = []" by simp
    moreover have "hasQuorumOfRoundChangeMessagesForNil ?R q = None \<longleftrightarrow> q \<le> int (card (sendersWith nilPrepared rcs))"
      using assms by (auto simp: hasQuorumOfRoundChangeMessagesForNil_def nilLoop_None sendersWith_def
          deduplicateRoundChanges_def length_filter_dedupFrom)
    moreover have "justifiedSpec ?h v rcs [] q \<longleftrightarrow> q \<le> int (card (pSource ` set rcs)) \<and> checkViews ?R v = None
        \<and> q \<le> int (card (sendersWith nilPrepared rcs))"
      unfolding justifiedSpec_def checkViews_None deduplicateRoundChanges_def prepareQuorum_def by blast
    ultimately show ?thesis using R
      by (cases "checkViews ?R v")
        (simp_all add: isJustified_def deduplicateRoundChanges_def deduplicatePrepares_def Let_def)
  next
    case (Cons p ps')
    have ne: "ps \<noteq> []" using Cons by auto
    have len: "length (p # ps') = card (pSource ` set ps)"
      using Cons length_dedupFrom [of ps] by simp
    have C: "checkPrepares (p # ps') (pRound p) ?h = None \<longleftrightarrow> (\<forall>x \<in> set (p # ps'). pRound x = pRound p \<and> Digest x = ?h)"
      by (rule checkPrepares_None)
    have pq: "prepareQuorum pr ?h ps q \<longleftrightarrow>
        q \<le> int (length (p # ps')) \<and> pr = pRound p \<and> checkPrepares (p # ps') (pRound p) ?h = None" for pr
      using ne unfolding prepareQuorum_def deduplicatePrepares_def Cons len C by auto
    have lp: "preparedLoop 0 False ?R (pRound p) ?h q = None \<longleftrightarrow>
        q \<le> int (card (sendersWith (lowerOrEqual (pRound p)) rcs)) \<and> sendersWith (matching (pRound p) ?h) rcs \<noteq> {}"
      using matching_lowerOrEqual [of "pRound p" ?h]
      by (auto simp: preparedLoop_None sendersWith_def deduplicateRoundChanges_def length_filter_dedupFrom)
    have spec: "justifiedSpec ?h v rcs ps q \<longleftrightarrow> q \<le> int (card (pSource ` set rcs)) \<and> checkViews ?R v = None
        \<and> q \<le> int (length (p # ps')) \<and> checkPrepares (p # ps') (pRound p) ?h = None
        \<and> preparedLoop 0 False ?R (pRound p) ?h q = None"
      unfolding justifiedSpec_def pq lp checkViews_None deduplicateRoundChanges_def using ne by blast
    have "isJustified keccak proposal v rcs ps q = None \<longleftrightarrow>
        \<not> int (length ?R) < q \<and> checkViews ?R v = None \<and> \<not> (p # ps' \<noteq> [] \<and> int (length (p # ps')) < q)
        \<and> checkPrepares (p # ps') (pRound p) ?h = None \<and> preparedLoop 0 False ?R (pRound p) ?h q = None"
      unfolding isJustified_def Let_def deduplicateRoundChanges_def deduplicatePrepares_def Cons
        hasQuorumOfRoundChangeMessagesForPreparedRoundAndBlock_def list.case by (rule checks_None)
    then show ?thesis unfolding spec R by (simp only: not_not not_less list.distinct simp_thms)
  qed
qed

section \<open>Properties\<close>

text \<open>C14. A proposal for a later round is accepted exactly when it is justified: a quorum of distinct
  senders changed to the target view, and either a quorum of them reports nothing prepared and no
  PREPARE is attached, or a quorum of distinct senders prepared this very block in one round, a quorum
  of ROUND-CHANGE senders prepared nothing later than that round, and one of them reports that round
  and block. Several messages of one sender count once.\<close>

theorem isJustified_correct:
  assumes "0 < q"
  shows "isJustified keccak proposal v rcs ps q = None \<longleftrightarrow>
    justifiedSpec (Block_Hash keccak proposal) v rcs ps q"
  by (rule isJustified_iff [OF assms])

definition exampleBlock :: Block where
  "exampleBlock = \<lparr>bHeader = exampleHeader, bTxs = [], bUncles = [], bWithdrawals = None\<rparr>"

definition exampleRoundChange :: "address \<Rightarrow> SignedRoundChangePayload" where
  "exampleRoundChange a = \<lparr>pCode = RoundChangeCode, pSource = a, pSequence = 5, pRound = 1, pSignature = [],
     PreparedRound = None, PreparedDigest = 0\<rparr>"

theorem isJustified_correct_witness:
  "justifiedSpec (Block_Hash (\<lambda>b. 0) exampleBlock) \<lparr>vRound = 1, vSequence = 5\<rparr>
     [exampleRoundChange 7, exampleRoundChange 7, exampleRoundChange 8] [] 2"
proof -
  have "isJustified (\<lambda>b. 0) exampleBlock \<lparr>vRound = 1, vSequence = 5\<rparr>
     [exampleRoundChange 7, exampleRoundChange 7, exampleRoundChange 8] [] 2 = None"
    by (simp add: isJustified_def deduplicateRoundChanges_def deduplicatePrepares_def exampleRoundChange_def
        hasQuorumOfRoundChangeMessagesForNil_def nilPrepared_def)
  then show ?thesis using isJustified_correct [of 2 "\<lambda>b. 0" exampleBlock] by simp
qed

end
