(* ===== verification/Round_Change_Set.thy ===== *)
theory Round_Change_Set
  imports Justification
begin

text \<open>
  The ROUND-CHANGE messages a node has collected (\<open>roundChangeSet\<close> of \<open>core/roundchange.go\<close>): per
  round the messages, and the highest prepared certificate among them with its block and PREPARE
  messages. A panic (a nil prepared round or a wrong message type) is \<^const>\<open>None\<close>.
\<close>

section \<open>Operations\<close>

record roundChangeSet =
  rcsValidatorSet :: defaultSet
  roundChanges :: "(uint64, wbftMsgSet) gomap"
  prepareMessages :: "(uint64, Prepare list) gomap"
  highestPreparedRound :: "(uint64, int) gomap"
  highestPreparedBlock :: "(uint64, Block option) gomap"

definition newRoundChangeSet :: "defaultSet \<Rightarrow> roundChangeSet" where
  "newRoundChangeSet valSet = \<lparr>rcsValidatorSet = valSet, roundChanges = [], prepareMessages = [],
     highestPreparedRound = [], highestPreparedBlock = []\<rparr>"

definition ensureRound :: "uint64 \<Rightarrow> roundChangeSet \<Rightarrow> roundChangeSet" where
  "ensureRound rd rcs =
     (if mapGet (roundChanges rcs) rd = None
      then rcs\<lparr>roundChanges := mapSet rd (newWBFTMsgSet (rcsValidatorSet rcs)) (roundChanges rcs)\<rparr>
      else rcs)"

definition NewRound :: "int \<Rightarrow> roundChangeSet \<Rightarrow> roundChangeSet" where
  "NewRound r rcs =
    (let rd = bigUint64 r; rcs = ensureRound rd rcs
     in if mapGet (prepareMessages rcs) rd = None
        then rcs\<lparr>prepareMessages := mapSet rd [] (prepareMessages rcs)\<rparr> else rcs)"

definition addMessage :: "uint64 \<Rightarrow> WBFTMessage \<Rightarrow> roundChangeSet \<Rightarrow> roundChangeSet" where
  "addMessage rd msg rcs =
    (case mapGet (roundChanges rcs) rd of
       None \<Rightarrow> rcs
     | Some ms \<Rightarrow> rcs\<lparr>roundChanges := mapSet rd (MsgSet_Add msg ms) (roundChanges rcs)\<rparr>)"

definition Rcs_Add :: "int \<Rightarrow> WBFTMessage \<Rightarrow> int option \<Rightarrow> Block option \<Rightarrow> Prepare list \<Rightarrow> int \<Rightarrow>
    roundChangeSet \<Rightarrow> roundChangeSet option" where
  "Rcs_Add r msg preparedRound preparedBlock prepares quorumSize rcs =
    (let rd = bigUint64 r; rcs = addMessage rd msg (ensureRound rd rcs)
     in case preparedRound of
          None \<Rightarrow> Some rcs
        | Some pr \<Rightarrow>
            if (case mapGet (highestPreparedRound rcs) rd of None \<Rightarrow> True | Some h \<Rightarrow> bigCmp pr h > 0)
            then do {
              roundChange \<leftarrow> asRoundChange msg;
              err \<leftarrow> hasMatchingRoundChangeAndPrepares roundChange prepares quorumSize;
              Some (if err = None
                then rcs\<lparr>highestPreparedRound := mapSet rd pr (highestPreparedRound rcs),
                         highestPreparedBlock := mapSet rd preparedBlock (highestPreparedBlock rcs),
                         prepareMessages := mapSet rd prepares (prepareMessages rcs)\<rparr>
                else rcs) }
            else Some rcs)"

definition higherRoundMessages :: "int \<Rightarrow> roundChangeSet \<Rightarrow> int" where
  "higherRoundMessages rd rcs =
     int (length (remdups (concat (map (\<lambda>(k, rms). if k > bigUint64 rd then map fst (messages rms) else [])
       (roundChanges rcs)))))"

definition getRCMessagesForGivenRound :: "int \<Rightarrow> roundChangeSet \<Rightarrow> int" where
  "getRCMessagesForGivenRound rd rcs =
     (case mapGet (roundChanges rcs) (bigUint64 rd) of
        Some rms \<Rightarrow> int (length (messages rms)) | None \<Rightarrow> 0)"

definition getMinRoundChange :: "int \<Rightarrow> roundChangeSet \<Rightarrow> int" where
  "getMinRoundChange rd rcs =
    (let keys = sort (map (\<lambda>(k, _). sint k) (filter (\<lambda>(k, _). k > bigUint64 rd) (roundChanges rcs)))
     in if keys = [] then rd else keys ! 0)"

definition clearedRounds :: "int \<Rightarrow> roundChangeSet \<Rightarrow> uint64 list" where
  "clearedRounds rd rcs =
     map fst (filter (\<lambda>(k, rms). Values rms = [] \<or> k < bigUint64 rd) (roundChanges rcs))"

definition ClearLowerThan :: "int \<Rightarrow> roundChangeSet \<Rightarrow> roundChangeSet" where
  "ClearLowerThan rd rcs =
    (let ks = clearedRounds rd rcs
     in rcs\<lparr>roundChanges := filter (\<lambda>(k, _). k \<notin> set ks) (roundChanges rcs),
            highestPreparedRound := filter (\<lambda>(k, _). k \<notin> set ks) (highestPreparedRound rcs),
            highestPreparedBlock := filter (\<lambda>(k, _). k \<notin> set ks) (highestPreparedBlock rcs),
            prepareMessages := filter (\<lambda>(k, _). k \<notin> set ks) (prepareMessages rcs)\<rparr>)"

fun maxRoundLoop :: "int option \<Rightarrow> (uint64, wbftMsgSet) gomap \<Rightarrow> int \<Rightarrow> int option" where
  "maxRoundLoop maxRound [] num = maxRound"
| "maxRoundLoop maxRound ((k, rms) # ms) num =
     (if MsgSet_Size rms < num then maxRoundLoop maxRound ms num
      else let r = sint k in
        maxRoundLoop (case maxRound of None \<Rightarrow> Some r | Some m \<Rightarrow> if bigCmp m r < 0 then Some r else maxRound)
          ms num)"

definition MaxRound :: "int \<Rightarrow> roundChangeSet \<Rightarrow> int option" where
  "MaxRound num rcs = maxRoundLoop None (roundChanges rcs) num"

definition rcsHighestPrepared :: "int \<Rightarrow> roundChangeSet \<Rightarrow> int option \<times> Block option" where
  "rcsHighestPrepared rd rcs =
     (mapGet (highestPreparedRound rcs) (bigUint64 rd),
      case mapGet (highestPreparedBlock rcs) (bigUint64 rd) of Some b \<Rightarrow> b | None \<Rightarrow> None)"

section \<open>Invariants\<close>

text \<open>Maps have distinct keys, and a round's set holds ROUND-CHANGE messages for that round.\<close>

definition rcMsgFor :: "uint64 \<Rightarrow> WBFTMessage \<Rightarrow> bool" where
  "rcMsgFor k m \<longleftrightarrow> (\<exists>rc. m = MRoundChange rc \<and> bigUint64 (pRound rc) = k)"

definition rcs_wf :: "roundChangeSet \<Rightarrow> bool" where
  "rcs_wf rcs \<longleftrightarrow> goMap (roundChanges rcs) \<and> goMap (prepareMessages rcs)
     \<and> goMap (highestPreparedRound rcs) \<and> goMap (highestPreparedBlock rcs)
     \<and> (\<forall>(k, ms) \<in> set (roundChanges rcs). msgSet_wf ms \<and> (\<forall>m \<in> set (Values ms). rcMsgFor k m))"

text \<open>The recorded certificate of a round: a quorum of PREPARE messages for the recorded block.\<close>

definition certified :: "(bytes \<Rightarrow> hash) \<Rightarrow> int \<Rightarrow> roundChangeSet \<Rightarrow> bool" where
  "certified keccak q rcs \<longleftrightarrow>
     (\<forall>k pr. mapGet (highestPreparedRound rcs) k = Some pr \<longrightarrow>
        (\<exists>b ps. mapGet (highestPreparedBlock rcs) k = Some (Some b) \<and> mapGet (prepareMessages rcs) k = Some ps
           \<and> prepareQuorum pr (Block_Hash keccak b) ps q))"

lemma new_wf [simp]: "rcs_wf (newRoundChangeSet vs)" "certified keccak q (newRoundChangeSet vs)"
  by (simp_all add: newRoundChangeSet_def rcs_wf_def certified_def)

lemma ensureRound_fields [simp]:
  "prepareMessages (ensureRound rd rcs) = prepareMessages rcs"
  "highestPreparedRound (ensureRound rd rcs) = highestPreparedRound rcs"
  "highestPreparedBlock (ensureRound rd rcs) = highestPreparedBlock rcs"
  "rcsValidatorSet (ensureRound rd rcs) = rcsValidatorSet rcs"
  by (simp_all add: ensureRound_def)

lemma addMessage_fields [simp]:
  "prepareMessages (addMessage rd m rcs) = prepareMessages rcs"
  "highestPreparedRound (addMessage rd m rcs) = highestPreparedRound rcs"
  "highestPreparedBlock (addMessage rd m rcs) = highestPreparedBlock rcs"
  by (simp_all add: addMessage_def split: option.split)

lemma ensureRound_wf: "rcs_wf rcs \<Longrightarrow> rcs_wf (ensureRound rd rcs)"
  by (auto simp: rcs_wf_def ensureRound_def set_mapSet)

lemma ensureRound_get: "\<exists>ms. mapGet (roundChanges (ensureRound rd rcs)) rd = Some ms"
  by (simp add: ensureRound_def update_conv)

lemma addMessage_wf:
  assumes "rcs_wf rcs" "rcMsgFor rd m"
  shows "rcs_wf (addMessage rd m rcs)"
proof (cases "mapGet (roundChanges rcs) rd")
  case (Some ms)
  then have "(rd, ms) \<in> set (roundChanges rcs)" by (rule map_of_SomeD)
  then show ?thesis
    using assms Some by (auto simp: rcs_wf_def addMessage_def set_mapSet dest!: Values_AddD)
qed (use assms in \<open>simp add: addMessage_def\<close>)

lemma NewRound_wf: "rcs_wf rcs \<Longrightarrow> rcs_wf (NewRound r rcs)"
  using ensureRound_wf [of rcs "bigUint64 r"] by (auto simp: NewRound_def Let_def rcs_wf_def)

lemma NewRound_certified: "certified keccak q rcs \<Longrightarrow> certified keccak q (NewRound r rcs)"
  by (fastforce simp: certified_def NewRound_def Let_def update_conv)

lemma ClearLowerThan_wf: "rcs_wf rcs \<Longrightarrow> rcs_wf (ClearLowerThan r rcs)"
  by (auto simp: ClearLowerThan_def Let_def rcs_wf_def)

lemma mapGet_filter_keys: "mapGet (filter (\<lambda>(k, _). P k) m) k = (if P k then mapGet m k else None)"
  by (induction m) auto

lemma ClearLowerThan_certified: "certified keccak q rcs \<Longrightarrow> certified keccak q (ClearLowerThan r rcs)"
  by (auto simp: certified_def ClearLowerThan_def Let_def mapGet_filter_keys split: if_splits)

text \<open>What \<open>handleRoundChangeMsg\<close> passes to \<open>Add\<close>.\<close>

definition addArgs :: "(bytes \<Rightarrow> hash) \<Rightarrow> RoundChange \<Rightarrow> int option \<Rightarrow> Block option \<Rightarrow> bool" where
  "addArgs keccak rc pr b \<longleftrightarrow> pr = None
     \<or> (pr = PreparedRound rc \<and> (\<exists>blk. b = Some blk \<and> Block_Hash keccak blk = PreparedDigest rc))"

lemma hasMatching_quorum:
  assumes "hasMatchingRoundChangeAndPrepares rc ps q = Some None" "PreparedRound rc = Some pr" "0 < q"
  shows "prepareQuorum pr (PreparedDigest rc) ps q"
proof -
  have len: "\<not> int (length (deduplicatePrepares ps)) < q" and m: "checkMatching (deduplicatePrepares ps) rc = Some None"
    using assms(1) by (simp_all add: hasMatchingRoundChangeAndPrepares_def Let_def split: if_splits)
  have "q \<le> int (card (pSource ` set ps))" using len by (simp add: deduplicatePrepares_def length_dedupFrom)
  moreover from this assms(3) have "ps \<noteq> []" by auto
  ultimately show ?thesis
    using m checkMatching_None [OF assms(2)] by (simp add: prepareQuorum_def)
qed

lemma hasMatching_no_panic:
  "PreparedRound rc = Some pr \<Longrightarrow> \<exists>e. hasMatchingRoundChangeAndPrepares rc ps q = Some e"
  using checkMatching_no_panic by (auto simp: hasMatchingRoundChangeAndPrepares_def Let_def)

lemma Rcs_Add_no_panic:
  assumes "addArgs keccak rc pr b"
  shows "\<exists>rcs'. Rcs_Add r (MRoundChange rc) pr b ps q rcs = Some rcs'"
proof (cases pr)
  case (Some p)
  then obtain e where "hasMatchingRoundChangeAndPrepares rc ps q = Some e"
    using assms hasMatching_no_panic [of rc p] by (auto simp: addArgs_def)
  with Some show ?thesis by (simp add: Rcs_Add_def Let_def)
qed (simp add: Rcs_Add_def Let_def)

lemma Rcs_AddD:
  assumes "Rcs_Add r (MRoundChange rc) pr b ps q rcs = Some rcs'"
  defines "rd \<equiv> bigUint64 r"
  shows "roundChanges rcs' = roundChanges (addMessage rd (MRoundChange rc) (ensureRound rd rcs))"
    and "highestPreparedRound rcs' = highestPreparedRound rcs \<and> highestPreparedBlock rcs' = highestPreparedBlock rcs
           \<and> prepareMessages rcs' = prepareMessages rcs
       \<or> (\<exists>p. pr = Some p \<and> hasMatchingRoundChangeAndPrepares rc ps q = Some None
           \<and> highestPreparedRound rcs' = mapSet rd p (highestPreparedRound rcs)
           \<and> highestPreparedBlock rcs' = mapSet rd b (highestPreparedBlock rcs)
           \<and> prepareMessages rcs' = mapSet rd ps (prepareMessages rcs))"
  using assms(1) unfolding rd_def
  by (auto simp: Rcs_Add_def Let_def bind_eq_Some_conv split: option.splits if_splits)

lemma Rcs_Add_wf:
  assumes "rcs_wf rcs" "Rcs_Add (pRound rc) (MRoundChange rc) pr b ps q rcs = Some rcs'"
  shows "rcs_wf rcs'"
proof -
  have "rcs_wf (addMessage (bigUint64 (pRound rc)) (MRoundChange rc) (ensureRound (bigUint64 (pRound rc)) rcs))"
    using assms(1) by (intro addMessage_wf ensureRound_wf) (simp_all add: rcMsgFor_def)
  then show ?thesis using Rcs_AddD [OF assms(2)] by (auto simp: rcs_wf_def)
qed

lemma Rcs_Add_certified:
  assumes "certified keccak q rcs" "Rcs_Add r (MRoundChange rc) pr b ps q rcs = Some rcs'"
    and "addArgs keccak rc pr b" "0 < q"
  shows "certified keccak q rcs'"
  using Rcs_AddD(2) [OF assms(2)]
proof (elim disjE exE conjE)
  fix p assume pr: "pr = Some p" and m: "hasMatchingRoundChangeAndPrepares rc ps q = Some None"
    and u: "highestPreparedRound rcs' = mapSet (bigUint64 r) p (highestPreparedRound rcs)"
      "highestPreparedBlock rcs' = mapSet (bigUint64 r) b (highestPreparedBlock rcs)"
      "prepareMessages rcs' = mapSet (bigUint64 r) ps (prepareMessages rcs)"
  obtain blk where blk: "PreparedRound rc = Some p" "b = Some blk" "Block_Hash keccak blk = PreparedDigest rc"
    using assms(3) pr by (auto simp: addArgs_def)
  then have "prepareQuorum p (Block_Hash keccak blk) ps q" using hasMatching_quorum [OF m _ assms(4)] by simp
  with assms(1) u blk(2) show ?thesis by (auto simp: certified_def update_conv)
qed (use assms(1) in \<open>simp add: certified_def\<close>)

lemma Rcs_Add_highest:
  assumes "Rcs_Add r (MRoundChange rc) (Some p) b ps q rcs = Some rcs'"
    and "hasMatchingRoundChangeAndPrepares rc ps q = Some None"
  shows "\<exists>h \<ge> p. mapGet (highestPreparedRound rcs') (bigUint64 r) = Some h"
  using assms by (auto simp: Rcs_Add_def Let_def update_conv split: option.splits if_splits)

section \<open>Counting and choosing rounds\<close>

definition sendersAbove :: "int \<Rightarrow> roundChangeSet \<Rightarrow> address set" where
  "sendersAbove rd rcs =
     (\<Union>x \<in> {x \<in> set (roundChanges rcs). bigUint64 rd < fst x}. Source ` set (Values (snd x)))"

lemma higherRoundMessages_card:
  assumes "rcs_wf rcs"
  shows "higherRoundMessages rd rcs = int (card (sendersAbove rd rcs))"
proof -
  have src: "fst ` set (messages (snd x)) = Source ` set (Values (snd x))" if "x \<in> set (roundChanges rcs)" for x
  proof -
    have "\<forall>(a, m) \<in> set (messages (snd x)). Source m = a"
      using assms that by (cases x) (auto simp: rcs_wf_def msgSet_wf_def)
    then show ?thesis by (force simp: Values_def)
  qed
  let ?l = "concat (map (\<lambda>(k, rms). if k > bigUint64 rd then map fst (messages rms) else []) (roundChanges rcs))"
  have "set ?l = (\<Union>x \<in> set (roundChanges rcs). if bigUint64 rd < fst x then fst ` set (messages (snd x)) else {})"
    by (auto simp: case_prod_unfold)
  also have "\<dots> = (\<Union>x \<in> set (roundChanges rcs). if bigUint64 rd < fst x then Source ` set (Values (snd x)) else {})"
    by (intro SUP_cong refl if_cong src) simp
  also have "\<dots> = sendersAbove rd rcs"
    unfolding sendersAbove_def by (auto split: if_splits)
  finally have "set ?l = sendersAbove rd rcs" .
  then show ?thesis by (simp add: higherRoundMessages_def length_remdups_card_conv)
qed

lemma sint_small: "uint w < 2 ^ 63 \<Longrightarrow> sint w = uint w" for w :: uint64
proof -
  assume "uint w < 2 ^ 63"
  then have t: "take_bit 63 (uint w) = uint w" by (intro take_bit_int_eq_self) simp_all
  then have "\<not> bit (uint w) 63" by (metis bit_take_bit_iff less_irrefl)
  then have "signed_take_bit 63 (uint w) = uint w" by (rule trans [OF signed_take_bit_eq_if_positive t])
  then show ?thesis using sint_uint [of w] by simp
qed

text \<open>Only rounds below \<open>2^63\<close> occur: a message may be at most ten rounds ahead.\<close>

definition smallRounds :: "roundChangeSet \<Rightarrow> bool" where
  "smallRounds rcs \<longleftrightarrow> (\<forall>(k, ms) \<in> set (roundChanges rcs). uint k < 2 ^ 63)"

lemma getMinRoundChange_min:
  assumes "smallRounds rcs" "(k, ms) \<in> set (roundChanges rcs)" "bigUint64 rd < k"
  shows "\<exists>k'. k' \<in> fst ` set (roundChanges rcs) \<and> bigUint64 rd < k' \<and> k' \<le> k
    \<and> getMinRoundChange rd rcs = uint k'"
proof -
  let ?f = "filter (\<lambda>(k, _). k > bigUint64 rd) (roundChanges rcs)"
  let ?keys = "sort (map (\<lambda>(k, _). sint k) ?f)"
  have k: "(k, ms) \<in> set ?f" using assms(2,3) by simp
  then have mem: "sint k \<in> set ?keys" by force
  then have ne: "?keys \<noteq> []" by (metis empty_iff empty_set)
  then have "?keys ! 0 \<in> set ?keys" using nth_mem by blast
  then obtain k' ms' where k': "(k', ms') \<in> set ?f" "?keys ! 0 = sint k'" by auto
  have "?keys ! 0 \<le> sint k" using mem sorted_sort [of "map (\<lambda>(k, _). sint k) ?f"]
    by (metis in_set_conv_nth le0 sorted_nth_mono)
  then have "sint k' \<le> sint k" using k'(2) by simp
  moreover have "sint k' = uint k'" "sint k = uint k"
    using assms(1,2) k'(1) by (auto simp: smallRounds_def intro!: sint_small)
  ultimately have "k' \<le> k" "?keys ! 0 = uint k'" using k'(2) by (simp_all add: word_le_def)
  moreover from this ne have "getMinRoundChange rd rcs = uint k'"
    unfolding getMinRoundChange_def Let_def by (simp only: if_False)
  ultimately show ?thesis using k'(1) by force
qed

section \<open>Sequences of operations\<close>

text \<open>What the consensus core does with the set, and the contract it relies on: every operation keeps
  the invariant, and none panics when its arguments come from one message.\<close>

datatype rcsOp =
    EnterRound int
  | Collect RoundChange "int option" "Block option" "Prepare list"
  | Forget int

fun rcsApply :: "int \<Rightarrow> rcsOp \<Rightarrow> roundChangeSet \<Rightarrow> roundChangeSet option" where
  "rcsApply q (EnterRound r) rcs = Some (NewRound r rcs)"
| "rcsApply q (Collect rc pr b ps) rcs = Rcs_Add (pRound rc) (MRoundChange rc) pr b ps q rcs"
| "rcsApply q (Forget r) rcs = Some (ClearLowerThan r rcs)"

fun admissible :: "(bytes \<Rightarrow> hash) \<Rightarrow> rcsOp \<Rightarrow> bool" where
  "admissible keccak (Collect rc pr b ps) = addArgs keccak rc pr b"
| "admissible keccak _ = True"

fun runOps :: "('o \<Rightarrow> 's \<Rightarrow> 's option) \<Rightarrow> 'o list \<Rightarrow> 's \<Rightarrow> 's option" where
  "runOps f [] s = Some s"
| "runOps f (x # xs) s = Option.bind (f x s) (runOps f xs)"

locale guarded_ops =
  fixes apply_op :: "'o \<Rightarrow> 's \<Rightarrow> 's option"
    and allowed :: "'o \<Rightarrow> bool"
    and inv :: "'s \<Rightarrow> bool"
  assumes total: "allowed x \<Longrightarrow> inv s \<Longrightarrow> \<exists>s'. apply_op x s = Some s'"
    and keeps: "allowed x \<Longrightarrow> inv s \<Longrightarrow> apply_op x s = Some s' \<Longrightarrow> inv s'"
begin

lemma run_keeps: "\<forall>x \<in> set xs. allowed x \<Longrightarrow> inv s \<Longrightarrow> \<exists>s'. runOps apply_op xs s = Some s' \<and> inv s'"
proof (induction xs arbitrary: s)
  case (Cons x xs)
  then obtain s1 where "apply_op x s = Some s1" "inv s1" using total [of x s] keeps [of x s] by auto
  with Cons show ?case by auto
qed simp

end

definition rcs_inv :: "(bytes \<Rightarrow> hash) \<Rightarrow> int \<Rightarrow> roundChangeSet \<Rightarrow> bool" where
  "rcs_inv keccak q rcs \<longleftrightarrow> rcs_wf rcs \<and> certified keccak q rcs"

interpretation rcsOps: guarded_ops "rcsApply (1 + int q)" "admissible keccak" "rcs_inv keccak (1 + int q)"
proof
  fix x s assume a: "admissible keccak x" "rcs_inv keccak (1 + int q) s"
  show "\<exists>s'. rcsApply (1 + int q) x s = Some s'"
    using a(1) Rcs_Add_no_panic by (cases x) auto
  fix s' assume "rcsApply (1 + int q) x s = Some s'"
  then show "rcs_inv keccak (1 + int q) s'"
    using a Rcs_Add_wf [of s _ _ _ _ "1 + int q"] Rcs_Add_certified [of keccak "1 + int q" s]
    by (cases x) (auto simp: rcs_inv_def NewRound_wf NewRound_certified ClearLowerThan_wf ClearLowerThan_certified)
qed

section \<open>Properties\<close>


definition exampleCertified :: "rcsOp list" where
  "exampleCertified =
     [EnterRound 1,
      Collect ((NewRoundChange (\<lambda>b. 0) 5 1 (Some 0) (Some exampleBlock))
          \<lparr>Justification := [NewPrepareWithSigAndSource 5 0 0 [] 7 []]\<rparr>)
        (Some 0) (Some exampleBlock) [NewPrepareWithSigAndSource 5 0 0 [] 7 []],
      Forget 1]"

lemma Block_Hash_zero [simp]: "Block_Hash (\<lambda>b. 0) blk = 0"
  by (simp add: Block_Hash_def Header_Hash_def rlpHash_def split: option.split)


end
