(* ===== verification/Core_State.thy ===== *)
theory Core_State
  imports Round_Change_Set Prque
begin

text \<open>
  The state of the consensus core (\<open>core/core.go\<close>, \<open>core/roundstate.go\<close>, \<open>core/priorstate.go\<close>,
  \<open>core/types.go\<close>), what it needs from its surroundings, and the functions that read the state.

  \<^item> \<open>Crypto\<close> holds the primitives of third-party packages: Keccak-256, recovery of a signer's address
    from an ECDSA signature, and BLS key parsing and verification.
  \<^item> \<open>Backend\<close> is the Go interface of the same name. Its methods may answer differently at every event,
    so an event handler takes the backend as it is during that event.
  \<^item> Go timers are kept with what they do when they fire; the flag a timeout event points to is a
    number, and \<open>canceledFlags\<close> holds the flags that are set. \<open>outbox\<close> records the calls of the backend
    in order, \<open>posted\<close> the events sent to the event mux. \<open>SignCall m\<close> stands for the call of \<open>Sign\<close> with
    the signing payload of \<open>m\<close>, and \<open>SealCall view header t\<close> for the call of \<open>SignWithoutHashing\<close> with the
    seal of phase \<open>t\<close> for the header in the round of the view.
  \<^item> A nil pointer that is dereferenced is a panic, the value \<^const>\<open>None\<close> of the outer option.
\<close>

section \<open>Surroundings\<close>

record Crypto =
  keccak256 :: "bytes \<Rightarrow> hash"
  sigToAddress :: "hash \<Rightarrow> bytes \<Rightarrow> address option"
  blsPublicKeyOk :: "bytes \<Rightarrow> bool"
  blsSignatureOk :: "bytes \<Rightarrow> bool"
  blsVerify :: "bytes \<Rightarrow> bytes \<Rightarrow> bytes \<Rightarrow> bool"

record SealData =
  Sealer :: uint32
  sdSeal :: bytes

record Backend =
  backendAddress :: address
  backendValidators :: "Block \<Rightarrow> defaultSet"
  LastProposal :: "Block option \<times> address"
  backendVerify :: "Block \<Rightarrow> int \<times> goError option"
  backendSign :: "bytes \<Rightarrow> bytes option"
  SignWithoutHashing :: "bytes \<Rightarrow> bytes"
  backendBroadcast :: "uint64 \<Rightarrow> bytes \<Rightarrow> goError option"
  backendCommit :: "Block \<Rightarrow> SealData list \<Rightarrow> SealData list \<Rightarrow> int \<Rightarrow> goError option"
  HasBadProposal :: "hash \<Rightarrow> bool"

section \<open>State\<close>

datatype State = StateAcceptRequest | StatePreprepared | StatePrepared | StateCommitted

fun stateCode :: "State \<Rightarrow> uint64" where
  "stateCode StateAcceptRequest = 0"
| "stateCode StatePreprepared = 1"
| "stateCode StatePrepared = 2"
| "stateCode StateCommitted = 3"

definition State_Cmp :: "State \<Rightarrow> State \<Rightarrow> int" where
  "State_Cmp s y =
     (if stateCode s < stateCode y then -1 else if stateCode s > stateCode y then 1 else 0)"

record Request =
  reqProposal :: "Block option"
  RCMessages :: "wbftMsgSet option"
  reqPrepareMessages :: "Prepare list option"

record Subject =
  subView :: View
  subDigest :: hash

record roundState =
  rsRound :: int
  rsSequence :: int
  rsPreprepare :: "Preprepare option"
  WBFTPrepares :: wbftMsgSet
  WBFTCommits :: wbftMsgSet
  pendingRequest :: "Request option"
  preparedRound :: "int option"
  preparedBlock :: "Block option"
  preprepareSent :: int

record priorState =
  priorRound :: int
  priorProposal :: "Block option"
  priorValidators :: "defaultSet option"

record backlogKey =
  bkCode :: uint64
  bkSequence :: uint64
  bkRound :: uint64

datatype CoreEvent =
    RequestEvent "Block option"
  | MessageEvent uint64 bytes
  | BacklogEvent "defaultValidator option" WBFTMessage
  | TimeoutEvent nat
  | RetryTimeoutEvent int
  | FinalCommittedEvent

datatype Effect =
    SignCall WBFTMessage
  | SealCall View Header SealType
  | Broadcast WBFTMessage bytes
  | Gossip uint64 bytes
  | CommitBlock Block "SealData list" "SealData list" int
  | NotifyNewRound int

record Core =
  config :: Config
  coreAddress :: address
  coreState :: State
  valSet :: "defaultSet option"
  backlogs :: "(address, (int, WBFTMessage) Prque) gomap"
  backlogKeys :: "(address, backlogKey set) gomap"
  prepareExtraSeals :: "(address, Prepare) gomap"
  commitExtraSeals :: "(address, Commit) gomap"
  priorSt :: priorState
  current :: "roundState option"
  rcSet :: "roundChangeSet option"
  WBFTPreparedPrepares :: "Prepare list option"
  pendingRequests :: "(int, Request) Prque"
  roundChangeTimer :: "(nat \<times> int) option"
  lastSentTimeoutCanceled :: "nat option"
  canceledFlags :: "nat set"
  nextFlag :: nat
  retrySendingRoundChangeTimer :: "(int \<times> int) option"
  futurePreprepareTimer :: "(Preprepare \<times> int) option"
  outbox :: "Effect list"
  posted :: "CoreEvent list"

definition NewCore :: "Backend \<Rightarrow> Config \<Rightarrow> Core" where
  "NewCore backend cfg =
     \<lparr>config = cfg, coreAddress = backendAddress backend, coreState = StateAcceptRequest, valSet = None,
      backlogs = [], backlogKeys = [], prepareExtraSeals = [], commitExtraSeals = [],
      priorSt = \<lparr>priorRound = 0, priorProposal = None, priorValidators = None\<rparr>, current = None,
      rcSet = None, WBFTPreparedPrepares = None, pendingRequests = NewPrque,
      roundChangeTimer = None, lastSentTimeoutCanceled = None, canceledFlags = {}, nextFlag = 0,
      retrySendingRoundChangeTimer = None, futurePreprepareTimer = None, outbox = [], posted = []\<rparr>"

definition emit :: "Effect \<Rightarrow> Core \<Rightarrow> Core" where
  "emit x c = c\<lparr>outbox := outbox c @ [x]\<rparr>"

definition sendEvent :: "CoreEvent \<Rightarrow> Core \<Rightarrow> Core" where
  "sendEvent x c = c\<lparr>posted := posted c @ [x]\<rparr>"

section \<open>Round state\<close>

definition newRoundState :: "View \<Rightarrow> defaultSet \<Rightarrow> Preprepare option \<Rightarrow> int option \<Rightarrow> Block option \<Rightarrow>
    Request option \<Rightarrow> roundState" where
  "newRoundState view vs preprepare pr pb pending =
     \<lparr>rsRound = vRound view, rsSequence = vSequence view, rsPreprepare = preprepare,
      WBFTPrepares = newWBFTMsgSet vs, WBFTCommits = newWBFTMsgSet vs, pendingRequest = pending,
      preparedRound = pr, preparedBlock = pb, preprepareSent = 0\<rparr>"

definition rsProposal :: "roundState \<Rightarrow> Block option" where
  "rsProposal s = map_option Proposal (rsPreprepare s)"

definition rsSubject :: "(bytes \<Rightarrow> hash) \<Rightarrow> roundState \<Rightarrow> Subject option" where
  "rsSubject keccak s =
     (case rsPreprepare s of None \<Rightarrow> None
      | Some p \<Rightarrow> Some \<lparr>subView = \<lparr>vRound = rsRound s, vSequence = rsSequence s\<rparr>,
                        subDigest = Block_Hash keccak (Proposal p)\<rparr>)"

definition SetPreprepare :: "Preprepare \<Rightarrow> roundState \<Rightarrow> roundState" where
  "SetPreprepare preprepare s = s\<lparr>rsPreprepare := Some preprepare\<rparr>"

definition currentView :: "Core \<Rightarrow> View option" where
  "currentView c = map_option (\<lambda>s. \<lparr>vRound = rsRound s, vSequence = rsSequence s\<rparr>) (current c)"

definition updatePriorState :: "Core \<Rightarrow> Core option" where
  "updatePriorState c = do {
     s \<leftarrow> current c;
     Some (c\<lparr>priorSt :=
       \<lparr>priorRound = rsRound s,
        priorProposal = (if rsProposal s \<noteq> None then rsProposal s else priorProposal (priorSt c)),
        priorValidators = (if valSet c \<noteq> None then valSet c else priorValidators (priorSt c))\<rparr>\<rparr>) }"

definition Core_IsProposer :: "Backend \<Rightarrow> Core \<Rightarrow> bool" where
  "Core_IsProposer backend c =
     (case valSet c of None \<Rightarrow> False | Some v \<Rightarrow> IsProposer v (backendAddress backend))"

text \<open>\<open>GetProposer().Address()\<close> panics when the set has no proposer.\<close>

definition Core_GetProposer :: "Core \<Rightarrow> address option" where
  "Core_GetProposer c =
     (case valSet c of None \<Rightarrow> Some 0 | Some v \<Rightarrow> map_option valAddress (GetProposer v))"

definition IsCurrentProposal :: "(bytes \<Rightarrow> hash) \<Rightarrow> Core \<Rightarrow> hash \<Rightarrow> bool option" where
  "IsCurrentProposal keccak c blockHash =
     (case Option.bind (current c) pendingRequest of None \<Rightarrow> Some False
      | Some r \<Rightarrow> map_option (\<lambda>b. Block_Hash keccak b = blockHash) (reqProposal r))"

section \<open>Signatures and seals\<close>

definition GetSignatureAddress :: "Crypto \<Rightarrow> bytes \<Rightarrow> bytes \<Rightarrow> goError + address" where
  "GetSignatureAddress cr data sig =
     (case sigToAddress cr (keccak256 cr data) sig of
        None \<Rightarrow> Inl (ErrorNew ''recovery failed'') | Some a \<Rightarrow> Inr a)"

definition CheckValidatorSignature ::
  "Crypto \<Rightarrow> defaultSet option \<Rightarrow> bytes \<Rightarrow> bytes \<Rightarrow> (goError + address) option" where
  "CheckValidatorSignature cr vs data sig =
     (case GetSignatureAddress cr data sig of
        Inl e \<Rightarrow> Some (Inl e)
      | Inr signer \<Rightarrow> do {
          vs \<leftarrow> vs;
          Some (case snd (GetByAddress vs signer) of
                  Some val \<Rightarrow> Inr (valAddress val) | None \<Rightarrow> Inl ErrUnauthorizedAddress) })"

definition checkValidatorSignature ::
  "Crypto \<Rightarrow> Core \<Rightarrow> bytes \<Rightarrow> bytes \<Rightarrow> View \<Rightarrow> (goError + address) option" where
  "checkValidatorSignature cr c data sig view = do {
     cv \<leftarrow> currentView c;
     if View_Cmp view cv < 0 \<and> coreState c = StateAcceptRequest
        \<and> View_Cmp view \<lparr>vRound = priorRound (priorSt c), vSequence = vSequence cv - 1\<rparr> = 0
        \<and> priorValidators (priorSt c) \<noteq> None
     then CheckValidatorSignature cr (priorValidators (priorSt c)) data sig
     else CheckValidatorSignature cr (valSet c) data sig }"

definition sealRound :: "int \<Rightarrow> uint32" where
  "sealRound rd = ucast (bigUint64 rd)"

text \<open>Looking up a sealer outside the set yields nil, whose key is then read.\<close>

definition verifySeal :: "Crypto \<Rightarrow> defaultSet option \<Rightarrow> Header \<Rightarrow> uint32 \<Rightarrow> SealType \<Rightarrow> bytes \<Rightarrow> address \<Rightarrow>
    goError option option" where
  "verifySeal cr vs header rd sealType seal sealer = do {
     vs \<leftarrow> vs;
     validator \<leftarrow> snd (GetByAddress vs sealer);
     Some (if \<not> blsPublicKeyOk cr (valBLSPublicKey validator) then Some (ErrorNew ''invalid public key'')
           else if \<not> blsSignatureOk cr seal then Some errInvalidSeal
           else if \<not> blsVerify cr seal (valBLSPublicKey validator)
                      (PrepareSeal (keccak256 cr) header rd sealType) then Some errInvalidSigner
           else None) }"

end
