(* ===== verification/Timers.thy ===== *)
theory Timers
  imports Core_State
begin

text \<open>
  The timers of the consensus core (\<open>core/core.go\<close>): starting and stopping them, and the timeout of a
  round. Durations are 64-bit nanosecond counts that wrap around like Go's; the branch without a cap
  computes in \<open>float64\<close>, whose conversion to an integer out of range gives the smallest integer, as
  on amd64.
\<close>

section \<open>The timeout of a round\<close>

definition Millisecond :: uint64 where "Millisecond = 1000000"
definition Second :: uint64 where "Second = 1000000000"
definition MaxInt64 :: uint64 where "MaxInt64 = 0x7FFFFFFFFFFFFFFF"

primrec cappedTimeout :: "nat \<Rightarrow> uint64 \<Rightarrow> uint64 \<Rightarrow> uint64" where
  "cappedTimeout 0 timeout maxRequestTimeout = timeout"
| "cappedTimeout (Suc i) timeout maxRequestTimeout =
     (let timeout = timeout * 2
      in if sint timeout > sint maxRequestTimeout then maxRequestTimeout
         else cappedTimeout i timeout maxRequestTimeout)"

definition float64ToInt64 :: "int \<Rightarrow> int" where
  "float64ToInt64 x = (if - (2 ^ 63) \<le> x \<and> x < 2 ^ 63 then x else - (2 ^ 63))"

definition uncappedTimeout :: "nat \<Rightarrow> uint64 \<Rightarrow> uint64" where
  "uncappedTimeout roundNum baseTimeout =
     (if roundNum \<ge> 1024 then MaxInt64
      else let timeoutFloat64 = 2 ^ roundNum * float64_of_int (sint baseTimeout)
           in if \<bar>timeoutFloat64\<bar> \<ge> 2 ^ 1024 \<or> timeoutFloat64 > 2 ^ 63 then MaxInt64
              else word_of_int (float64ToInt64 timeoutFloat64))"

definition roundTimeout :: "Config \<Rightarrow> uint64 \<Rightarrow> uint64" where
  "roundTimeout cfg roundNum =
    (let baseTimeout = RequestTimeout cfg * Millisecond;
         maxRequestTimeout = MaxRequestTimeoutSeconds cfg * Second
     in if sint maxRequestTimeout > 0
        then let timeout = cappedTimeout (unat roundNum) baseTimeout maxRequestTimeout
             in if sint timeout < sint baseTimeout then maxRequestTimeout else timeout
        else uncappedTimeout (unat roundNum) baseTimeout)"

section \<open>Starting and stopping\<close>

definition stopFuturePreprepareTimer :: "Core \<Rightarrow> Core" where
  "stopFuturePreprepareTimer c = c\<lparr>futurePreprepareTimer := None\<rparr>"

definition stopRoundChangeTimer :: "Core \<Rightarrow> Core" where
  "stopRoundChangeTimer c = c\<lparr>roundChangeTimer := None\<rparr>"

definition stopRetrySendingRoundChangeTimer :: "Core \<Rightarrow> Core" where
  "stopRetrySendingRoundChangeTimer c = c\<lparr>retrySendingRoundChangeTimer := None\<rparr>"

definition cancelLastSentTimeout :: "Core \<Rightarrow> Core" where
  "cancelLastSentTimeout c =
     (case lastSentTimeoutCanceled c of None \<Rightarrow> c
      | Some p \<Rightarrow> c\<lparr>canceledFlags := insert p (canceledFlags c)\<rparr>)"

definition stopTimer :: "Core \<Rightarrow> Core" where
  "stopTimer c =
     cancelLastSentTimeout (stopRoundChangeTimer (stopRetrySendingRoundChangeTimer
       (stopFuturePreprepareTimer c)))"

definition newRoundChangeTimer :: "int option \<Rightarrow> int option \<Rightarrow> Core \<Rightarrow> Core option" where
  "newRoundChangeTimer seq rd c =
    (let c = stopTimer c
     in case (seq, rd) of
          (Some seq, Some rd) \<Rightarrow> do {
            cfg \<leftarrow> GetConfig (config c) (Some seq);
            let timeout = roundTimeout cfg (bigUint64 rd);
            Some (c\<lparr>lastSentTimeoutCanceled := Some (nextFlag c),
                    roundChangeTimer := Some (nextFlag c, sint timeout),
                    nextFlag := nextFlag c + 1\<rparr>) }
        | _ \<Rightarrow> Some c)"

definition newRetrySendingRoundChangeTimer :: "Core \<Rightarrow> Core option" where
  "newRetrySendingRoundChangeTimer c =
    (case current c of None \<Rightarrow> Some c
     | Some s \<Rightarrow> do {
         cfg \<leftarrow> GetConfig (config c) (Some (rsSequence s));
         let timeout = RequestTimeout cfg * Millisecond;
         Some ((stopRetrySendingRoundChangeTimer c)
           \<lparr>retrySendingRoundChangeTimer := Some (rsRound s, sint timeout)\<rparr>) })"

lemmas timer_defs = stopTimer_def cancelLastSentTimeout_def stopRoundChangeTimer_def
  stopRetrySendingRoundChangeTimer_def stopFuturePreprepareTimer_def

section \<open>Arithmetic\<close>

lemma unat_mult_small: "unat (a :: uint64) * unat b < 2 ^ 64 \<Longrightarrow> unat (a * b) = unat a * unat b"
  using unat_mult_lem [of a b] by simp

lemma sint_unat: "unat (w :: uint64) < 2 ^ 63 \<Longrightarrow> sint w = int (unat w)"
proof -
  assume "unat w < 2 ^ 63"
  then have "int (unat w) < int (2 ^ 63)" by (simp only: of_nat_less_iff)
  then have "uint w < 2 ^ 63" by simp
  then show ?thesis using sint_small [of w] by simp
qed

lemma sint_less_unat:
  "unat (v :: uint64) < 2 ^ 63 \<Longrightarrow> unat (w :: uint64) < 2 ^ 63 \<Longrightarrow> sint v < sint w \<longleftrightarrow> unat v < unat w"
  using sint_unat [of v] sint_unat [of w] by (simp only: of_nat_less_iff)

lemma cappedTimeout_min:
  assumes "unat t \<le> unat m" "unat m < 2 ^ 62"
  shows "unat (cappedTimeout n t m) = min (unat t * 2 ^ n) (unat m)"
  using assms(1)
proof (induction n arbitrary: t)
  case (Suc n)
  have d: "unat (t * 2) = unat t * 2" using Suc.prems assms(2) unat_mult_small [of t 2] by simp
  have s: "sint m < sint (t * 2) \<longleftrightarrow> unat m < unat t * 2"
    using Suc.prems assms(2) sint_less_unat [of m "t * 2"] d by simp
  show ?case
  proof (cases "unat t * 2 > unat m")
    case True
    have "unat t * 2 \<le> unat t * 2 ^ Suc n" by simp
    with True have "unat m \<le> unat t * 2 ^ Suc n" by linarith
    with True s show ?thesis by (simp add: Let_def min_def)
  next
    case False
    then have "unat (cappedTimeout n (t * 2) m) = min (unat (t * 2) * 2 ^ n) (unat m)"
      using d by (intro Suc.IH) simp
    with False s d show ?thesis by (simp add: Let_def mult.assoc)
  qed
qed simp

lemma float64_exact: "\<bar>x\<bar> \<le> 2 ^ 53 \<Longrightarrow> float64_of_int x = x"
  by (simp add: float64_of_int_def)

lemma five_not_power: "n * 1000000 * 2 ^ r \<noteq> (2 :: nat) ^ 63"
proof
  assume eq: "n * 1000000 * 2 ^ r = (2 :: nat) ^ 63"
  have "(5 :: nat) dvd n * 1000000 * 2 ^ r" by (rule dvdI [of _ _ "n * 200000 * 2 ^ r"]) simp
  then have "(5 :: nat) dvd 2 ^ 63" unfolding eq .
  then show False by simp
qed

lemma unat_MaxInt64: "unat MaxInt64 = 2 ^ 63 - 1"
  by (simp add: MaxInt64_def)

lemma uncappedTimeout_min:
  assumes "unat t = n * 1000000" "0 < unat t" "unat t < 2 ^ 53"
  shows "unat (uncappedTimeout r t) = min (unat t * 2 ^ r) (2 ^ 63 - 1)"
proof -
  have f: "float64_of_int (sint t) = int (unat t)"
  proof -
    have "int (unat t) < int (2 ^ 53)" using assms(3) by (simp only: of_nat_less_iff)
    then have "\<bar>int (unat t)\<bar> \<le> 2 ^ 53" by simp
    moreover have "sint t = int (unat t)" using assms(3) by (intro sint_unat) simp
    ultimately show ?thesis by (simp only: float64_exact)
  qed
  have le: "(2 :: nat) ^ r \<le> unat t * 2 ^ r" using assms(2) by simp
  show ?thesis
  proof (cases "r < 1024 \<and> unat t * 2 ^ r < 2 ^ 63")
    case True
    define v where "v = 2 ^ r * int (unat t)"
    have v: "v = int (unat t * 2 ^ r)" unfolding v_def by simp
    have "v < int (2 ^ 63)" using True unfolding v by (simp only: of_nat_less_iff)
    moreover have "0 \<le> v" unfolding v by (rule of_nat_0_le_iff)
    ultimately have "float64ToInt64 v = v" "\<not> \<bar>v\<bar> \<ge> 2 ^ 1024" "\<not> v > 2 ^ 63"
      by (simp_all add: float64ToInt64_def)
    then have "uncappedTimeout r t = word_of_int v"
      using True unfolding uncappedTimeout_def Let_def f v_def [symmetric] by simp
    also have "\<dots> = word_of_nat (unat t * 2 ^ r)" unfolding v by (rule of_int_of_nat_eq)
    finally have "unat (uncappedTimeout r t) = unat t * 2 ^ r mod 2 ^ LENGTH(64)" by (simp only: unat_of_nat)
    moreover define x where "x = unat t * 2 ^ r"
    ultimately show ?thesis using True unfolding x_def [symmetric] by simp
  next
    case False
    have "(2 :: nat) ^ 63 \<le> unat t * 2 ^ r"
    proof (cases "r < 1024")
      case False
      then have "(2 :: nat) ^ 63 \<le> 2 ^ r" by (intro power_increasing) simp_all
      with le show ?thesis by (rule order_trans [rotated])
    qed (use False in simp)
    moreover have "unat t * 2 ^ r \<noteq> 2 ^ 63" unfolding assms(1) by (rule five_not_power)
    ultimately have big: "(2 :: nat) ^ 63 < unat t * 2 ^ r" by linarith
    define v where "v = 2 ^ r * int (unat t)"
    have v: "v = int (unat t * 2 ^ r)" unfolding v_def by simp
    have "int (2 ^ 63) < v" using big unfolding v by (simp only: of_nat_less_iff)
    then have "uncappedTimeout r t = MaxInt64"
      unfolding uncappedTimeout_def Let_def f v_def [symmetric] by simp
    then show ?thesis using big by (simp add: unat_MaxInt64)
  qed
qed

section \<open>Properties\<close>



end
