(* ===== verification/Backlog.thy ===== *)
theory Backlog
  imports Timers
begin

text \<open>
  Classification of incoming messages and the backlog of future ones (\<open>core/backlog.go\<close>). The loop
  that empties a validator's queue has fuel, one step per queued message and one to notice that the
  queue is empty; \<open>drain_ok\<close> shows that it is enough. Running out of fuel would be the value
  \<^const>\<open>None\<close>, like a panic.
\<close>

section \<open>Classification\<close>

definition sequenceThreshold :: int where "sequenceThreshold = 1"
definition roundThreshold :: int where "roundThreshold = 10"

definition maxBacklogSizePerValidator :: int where
  "maxBacklogSizePerValidator = 4 * (roundThreshold + 1) * (sequenceThreshold + 1)"

definition isSequenceTooFarAhead :: "int \<Rightarrow> int \<Rightarrow> int \<Rightarrow> int \<times> bool" where
  "isSequenceTooFarAhead viewSeq currSeq threshold =
     (let seqDiff = viewSeq - currSeq in (seqDiff, bigCmp seqDiff threshold > 0))"

definition isRoundTooFarAhead :: "int \<Rightarrow> int \<Rightarrow> int \<Rightarrow> int \<times> bool" where
  "isRoundTooFarAhead viewRound currRound threshold =
     (let roundDiff = viewRound - currRound in (roundDiff, bigCmp roundDiff threshold > 0))"

definition isTooFarFutureMessage :: "View \<Rightarrow> View \<Rightarrow> bool" where
  "isTooFarFutureMessage cv view =
    (if bigCmp (vSequence view) (vSequence cv) > 0
        \<and> snd (isSequenceTooFarAhead (vSequence view) (vSequence cv) sequenceThreshold) then True
     else if bigCmp (vSequence view) (vSequence cv) > 0 \<and> bigCmp (vRound view) roundThreshold \<ge> 0 then True
     else bigCmp (vSequence view) (vSequence cv) = 0 \<and> bigCmp (vRound view) (vRound cv) > 0
        \<and> snd (isRoundTooFarAhead (vRound view) (vRound cv) roundThreshold))"

definition classify :: "State \<Rightarrow> int \<Rightarrow> View \<Rightarrow> uint64 \<Rightarrow> View \<Rightarrow> goError option" where
  "classify st prior cv msgCode view =
    (if isTooFarFutureMessage cv view then Some errFutureViewTooFar
     else if msgCode = RoundChangeCode then
       (if bigCmp (vSequence view) (vSequence cv) > 0 then Some errFutureMessage
        else if View_Cmp view cv < 0 then Some errOldMessage else None)
     else if View_Cmp view cv > 0 then Some errFutureMessage
     else if View_Cmp view cv < 0 then
       (if bigCmp (vSequence cv - vSequence view) 1 = 0 \<and> bigCmp (vRound view) prior = 0
           \<and> st = StateAcceptRequest
        then Some errExtraSealMessage else Some errOldMessage)
     else case st of
         StateAcceptRequest \<Rightarrow> if msgCode > PreprepareCode then Some errFutureMessage else None
       | StatePreprepared \<Rightarrow>
           if msgCode < PrepareCode then Some errInvalidMessage
           else if msgCode > PrepareCode then Some errFutureMessage else None
       | StatePrepared \<Rightarrow>
           if msgCode = PrepareCode then Some errExtraSealMessage
           else if msgCode < CommitCode then Some errInvalidMessage else None
       | StateCommitted \<Rightarrow>
           if msgCode \<ge> PrepareCode then Some errExtraSealMessage else Some errInvalidMessage)"

definition checkMessage :: "Core \<Rightarrow> uint64 \<Rightarrow> View \<Rightarrow> goError option option" where
  "checkMessage c msgCode view = do {
     cv \<leftarrow> currentView c;
     Some (classify (coreState c) (priorRound (priorSt c)) cv msgCode view) }"

section \<open>Queues\<close>

definition msgPriority :: "uint64 \<Rightarrow> uint64" where
  "msgPriority code =
     (if code = PreprepareCode then 1 else if code = CommitCode then 2
      else if code = PrepareCode then 3 else 0)"

definition toNegatePriority :: "uint64 \<Rightarrow> View \<Rightarrow> int" where
  "toNegatePriority msgCode view =
     (if msgCode = RoundChangeCode then sint (- (bigUint64 (vSequence view) * 1000))
      else sint (- (bigUint64 (vSequence view) * 1000 + bigUint64 (vRound view) * 10 + msgPriority msgCode)))"

definition msgKey :: "WBFTMessage \<Rightarrow> backlogKey" where
  "msgKey msg = \<lparr>bkCode = Code msg, bkSequence = bigUint64 (vSequence (msgView msg)),
     bkRound = bigUint64 (vRound (msgView msg))\<rparr>"

definition addToBacklog :: "WBFTMessage \<Rightarrow> Core \<Rightarrow> Core option" where
  "addToBacklog msg c =
    (let src = Source msg; pkey = msgKey msg; prio = toNegatePriority (Code msg) (msgView msg)
     in if src = coreAddress c then Some c
        else case mapGet (backlogs c) src of
            None \<Rightarrow> do {
              q \<leftarrow> Push NewPrque msg prio;
              Some (c\<lparr>backlogs := mapSet src q (backlogs c), backlogKeys := mapSet src {pkey} (backlogKeys c)\<rparr>) }
          | Some backlog \<Rightarrow>
              if (case mapGet (backlogKeys c) src of None \<Rightarrow> False | Some keys \<Rightarrow> pkey \<in> keys) then Some c
              else if PrqueSize backlog \<ge> maxBacklogSizePerValidator then Some c
              else do {
                keys \<leftarrow> mapGet (backlogKeys c) src;
                q \<leftarrow> Push backlog msg prio;
                Some (c\<lparr>backlogs := mapSet src q (backlogs c),
                        backlogKeys := mapSet src (insert pkey keys) (backlogKeys c)\<rparr>) })"

fun drainBacklog :: "nat \<Rightarrow> Core \<Rightarrow> defaultValidator \<Rightarrow> (int, WBFTMessage) Prque \<Rightarrow> backlogKey set \<Rightarrow>
    CoreEvent list \<Rightarrow> ((int, WBFTMessage) Prque \<times> backlogKey set \<times> CoreEvent list) option" where
  "drainBacklog 0 c src backlog keys events = None"
| "drainBacklog (Suc fuel) c src backlog keys events =
    (if Empty backlog then Some (backlog, keys, events)
     else do {
       ((msg, prio), backlog) \<leftarrow> Pop backlog;
       err \<leftarrow> checkMessage c (Code msg) (msgView msg);
       if err \<noteq> None \<and> err \<noteq> Some errExtraSealMessage
       then if err = Some errFutureMessage
            then do { backlog \<leftarrow> Push backlog msg prio; Some (backlog, keys, events) }
            else drainBacklog fuel c src backlog (keys - {msgKey msg}) events
       else drainBacklog fuel c src backlog (keys - {msgKey msg}) (events @ [BacklogEvent (Some src) msg]) })"

definition processSource :: "address \<Rightarrow> (int, WBFTMessage) Prque \<Rightarrow> Core \<Rightarrow> Core option" where
  "processSource srcAddress backlog c = do {
     vs \<leftarrow> valSet c;
     case snd (GetByAddress vs srcAddress) of
       None \<Rightarrow> Some (c\<lparr>backlogs := mapDelete srcAddress (backlogs c),
                        backlogKeys := mapDelete srcAddress (backlogKeys c)\<rparr>)
     | Some src \<Rightarrow> do {
         let keys = (case mapGet (backlogKeys c) srcAddress of None \<Rightarrow> {} | Some ks \<Rightarrow> ks);
         (q, ks, events) \<leftarrow> drainBacklog (nat (PrqueSize backlog) + 1) c src backlog keys [];
         Some (c\<lparr>backlogs := mapSet srcAddress q (backlogs c),
           backlogKeys := (if mapGet (backlogKeys c) srcAddress = None then backlogKeys c
                           else mapSet srcAddress ks (backlogKeys c)),
           posted := posted c @ events\<rparr>) } }"

fun processBacklogs :: "(address \<times> (int, WBFTMessage) Prque) list \<Rightarrow> Core \<Rightarrow> Core option" where
  "processBacklogs [] c = Some c"
| "processBacklogs ((srcAddress, backlog) # rest) c = do {
     c \<leftarrow> processSource srcAddress backlog c; processBacklogs rest c }"

definition processBacklog :: "Core \<Rightarrow> Core option" where
  "processBacklog c = processBacklogs (backlogs c) c"


section \<open>What is accepted and what is kept\<close>

lemmas threshold_defs = sequenceThreshold_def roundThreshold_def
  isSequenceTooFarAhead_def isRoundTooFarAhead_def isTooFarFutureMessage_def

lemma code_order:
  "PreprepareCode < PrepareCode" "PrepareCode < CommitCode" "CommitCode < RoundChangeCode"
  "PreprepareCode < CommitCode" "PreprepareCode < RoundChangeCode" "PrepareCode < RoundChangeCode"
  by (simp_all add: code_defs)

lemma MessageCodes_cases:
  "code \<in> MessageCodes \<Longrightarrow>
     code = PreprepareCode \<or> code = PrepareCode \<or> code = CommitCode \<or> code = RoundChangeCode"
  by (simp add: MessageCodes_def)

lemma tooFar_iff:
  "isTooFarFutureMessage cv view \<longleftrightarrow>
     vSequence view > vSequence cv \<and> (vSequence view > vSequence cv + 1 \<or> vRound view \<ge> 10)
     \<or> vSequence view = vSequence cv \<and> vRound view > vRound cv + 10"
  by (auto simp: threshold_defs Let_def)

text \<open>Messages handled now.\<close>

definition expected :: "State \<Rightarrow> View \<Rightarrow> uint64 \<Rightarrow> View \<Rightarrow> bool" where
  "expected st cv code view \<longleftrightarrow>
     code = RoundChangeCode \<and> vSequence view = vSequence cv
       \<and> vRound cv \<le> vRound view \<and> vRound view \<le> vRound cv + 10
     \<or> vSequence view = vSequence cv \<and> vRound view = vRound cv
       \<and> (st = StateAcceptRequest \<and> code = PreprepareCode \<or> st = StatePreprepared \<and> code = PrepareCode
          \<or> st = StatePrepared \<and> code = CommitCode)"

text \<open>Messages worth keeping: for the next sequence within ten rounds, for a later round of this
  sequence within ten rounds, or for a later phase of this round.\<close>

definition keepForLater :: "State \<Rightarrow> View \<Rightarrow> uint64 \<Rightarrow> View \<Rightarrow> bool" where
  "keepForLater st cv code view \<longleftrightarrow>
     vSequence view = vSequence cv + 1 \<and> vRound view < 10
     \<or> code \<noteq> RoundChangeCode \<and> vSequence view = vSequence cv
       \<and> vRound cv < vRound view \<and> vRound view \<le> vRound cv + 10
     \<or> vSequence view = vSequence cv \<and> vRound view = vRound cv
       \<and> (st = StateAcceptRequest \<and> code \<in> {PrepareCode, CommitCode} \<or> st = StatePreprepared \<and> code = CommitCode)"

lemma classify_None:
  assumes "code \<in> MessageCodes"
  shows "classify st prior cv code view = None \<longleftrightarrow> expected st cv code view"
  using MessageCodes_cases [OF assms] code_order
  by (elim disjE; cases st)
    (auto simp: classify_def expected_def tooFar_iff View_Cmp_simps code_defs split: if_splits)

lemma classify_Future:
  assumes "code \<in> MessageCodes"
  shows "classify st prior cv code view = Some errFutureMessage \<longleftrightarrow> keepForLater st cv code view"
  using MessageCodes_cases [OF assms] code_order
  by (elim disjE; cases st)
    (auto simp: classify_def keepForLater_def tooFar_iff View_Cmp_simps code_defs split: if_splits)

section \<open>The backlog of one validator\<close>

text \<open>What a queue and its key set keep: at most 88 messages of one source, one per slot, queued with
  the priority of their view, and exactly their slots as keys.\<close>

definition slotKeys :: "(WBFTMessage \<times> int) multiset \<Rightarrow> backlogKey multiset" where
  "slotKeys ms = image_mset (\<lambda>x. msgKey (fst x)) ms"

definition queueOk :: "address \<Rightarrow> (int, WBFTMessage) Prque \<Rightarrow> backlogKey set \<Rightarrow> bool" where
  "queueOk a q ks \<longleftrightarrow> prque_inv q \<and> finite ks \<and> slotKeys (contents q) = mset_set ks
     \<and> int (size (contents q)) \<le> maxBacklogSizePerValidator
     \<and> (\<forall>(m, p) \<in># contents q. Source m = a \<and> p = toNegatePriority (Code m) (msgView m))"

lemma max88 [simp]: "maxBacklogSizePerValidator = 88"
  by (simp add: maxBacklogSizePerValidator_def threshold_defs)

lemma queueOk_new:
  assumes "Source m = a"
  shows "\<exists>q. Push NewPrque m (toNegatePriority (Code m) (msgView m)) = Some q \<and> queueOk a q {msgKey m}"
  using prq.push_ok [OF prq.invar_empty, of m "toNegatePriority (Code m) (msgView m)"] assms
  by (auto simp: queueOk_def slotKeys_def prq.contents_empty)

lemma queueOk_push:
  assumes "queueOk a q ks" "Source m = a" "msgKey m \<notin> ks" "PrqueSize q < maxBacklogSizePerValidator"
  shows "\<exists>q'. Push q m (toNegatePriority (Code m) (msgView m)) = Some q' \<and> queueOk a q' (insert (msgKey m) ks)"
proof -
  have inv: "prque_inv q" using assms(1) by (simp add: queueOk_def)
  obtain q' where q': "Push q m (toNegatePriority (Code m) (msgView m)) = Some q'" "prque_inv q'"
    "contents q' = add_mset (m, toNegatePriority (Code m) (msgView m)) (contents q)"
    using prq.push_ok [OF inv] by blast
  moreover have "int (size (contents q)) < maxBacklogSizePerValidator"
    using assms(4) prq.qsize_ok [OF inv] by simp
  ultimately show ?thesis using assms(1-3) by (auto simp: queueOk_def slotKeys_def)
qed

lemma slotKeys_pop:
  assumes "slotKeys (add_mset (m, p) C) = mset_set ks" "finite ks"
  shows "slotKeys C = mset_set (ks - {msgKey m})" "msgKey m \<in> ks"
proof -
  have "add_mset (msgKey m) (slotKeys C) = mset_set ks" using assms(1) by (simp add: slotKeys_def)
  then show mem: "msgKey m \<in> ks" using assms(2) by (metis elem_mset_set union_single_eq_member)
  then have "mset_set ks = add_mset (msgKey m) (mset_set (ks - {msgKey m}))"
    using assms(2) by (simp add: mset_set.remove)
  with \<open>add_mset (msgKey m) (slotKeys C) = mset_set ks\<close> show "slotKeys C = mset_set (ks - {msgKey m})" by simp
qed

text \<open>Messages the loop posts, and messages it drops.\<close>

definition ready :: "Core \<Rightarrow> WBFTMessage \<Rightarrow> bool" where
  "ready c m \<longleftrightarrow> checkMessage c (Code m) (msgView m) \<in> {Some None, Some (Some errExtraSealMessage)}"

definition future :: "Core \<Rightarrow> WBFTMessage \<Rightarrow> bool" where
  "future c m \<longleftrightarrow> checkMessage c (Code m) (msgView m) = Some (Some errFutureMessage)"

definition blockedBy :: "Core \<Rightarrow> (WBFTMessage \<times> int) multiset \<Rightarrow> bool" where
  "blockedBy c C \<longleftrightarrow> C = {#} \<or> (\<exists>m \<in># C. future c (fst m) \<and> (\<forall>y \<in># C. snd y \<le> snd m))"

text \<open>The outcome \<open>r\<close> of emptying a queue with entries \<open>C\<close>: entries are posted, dropped or still queued;
  a queue that is not empty is headed by a future message.\<close>

inductive drained :: "Core \<Rightarrow> defaultValidator \<Rightarrow> (WBFTMessage \<times> int) multiset \<Rightarrow> CoreEvent list \<Rightarrow>
    ((int, WBFTMessage) Prque \<times> backlogKey set \<times> CoreEvent list) \<Rightarrow> bool" for c src where
  stop: "prque_inv q \<Longrightarrow> finite ks \<Longrightarrow> slotKeys (contents q) = mset_set ks \<Longrightarrow> blockedBy c (contents q) \<Longrightarrow>
     drained c src (contents q) evs (q, ks, evs)"
| post: "ready c m \<Longrightarrow> drained c src C (evs @ [BacklogEvent (Some src) m]) r \<Longrightarrow>
     drained c src (add_mset (m, p) C) evs r"
| drop: "\<not> ready c m \<Longrightarrow> \<not> future c m \<Longrightarrow> drained c src C evs r \<Longrightarrow> drained c src (add_mset (m, p) C) evs r"

lemma drain_ok:
  assumes "prque_inv q" "slotKeys (contents q) = mset_set ks" "finite ks"
    and "current c \<noteq> None" "size (contents q) < fuel"
  shows "\<exists>r. drainBacklog fuel c src q ks evs = Some r \<and> drained c src (contents q) evs r"
  using assms
proof (induction fuel arbitrary: q ks evs)
  case (Suc fuel)
  show ?case
  proof (cases "contents q = {#}")
    case True
    then have "drained c src (contents q) evs (q, ks, evs)"
      using Suc.prems by (intro drained.stop) (simp_all add: blockedBy_def)
    with True show ?thesis using Suc.prems(1) by (simp add: Empty_iff)
  next
    case False
    then obtain m p q1 where pop: "Pop q = Some ((m, p), q1)" "prque_inv q1"
      and cq: "contents q = add_mset (m, p) (contents q1)" and top: "\<forall>y \<in># contents q. snd y \<le> p"
      using prq.pop_ok [OF Suc.prems(1) False] by (metis prod.exhaust snd_conv)
    have ne: "\<not> Empty q" using False Suc.prems(1) by (simp add: Empty_iff)
    obtain err where err: "checkMessage c (Code m) (msgView m) = Some err"
      using Suc.prems(4) by (auto simp: checkMessage_def currentView_def)
    note keys = slotKeys_pop [OF Suc.prems(2) [unfolded cq] Suc.prems(3)]
    have IH: "\<exists>r. drainBacklog fuel c src q1 (ks - {msgKey m}) evs' = Some r \<and> drained c src (contents q1) evs' r" for evs'
      using Suc.IH [OF pop(2) keys(1) _ Suc.prems(4)] Suc.prems(3,5) cq by simp
    consider "err = Some errFutureMessage" | "err = None \<or> err = Some errExtraSealMessage"
      | "err \<noteq> Some errFutureMessage" "err \<noteq> None" "err \<noteq> Some errExtraSealMessage" by blast
    then show ?thesis
    proof cases
      case 1
      obtain q2 where q2: "Push q1 m p = Some q2" "prque_inv q2" "contents q2 = add_mset (m, p) (contents q1)"
        using prq.push_ok [OF pop(2)] by blast
      have "blockedBy c (contents q2)"
        unfolding blockedBy_def using err 1 top cq q2(3) by (intro disjI2 bexI [of _ "(m, p)"]) (simp_all add: future_def)
      then have "drained c src (contents q2) evs (q2, ks, evs)"
        using q2 cq Suc.prems(2,3) by (intro drained.stop) simp_all
      with q2 cq ne pop err 1 show ?thesis by simp
    next
      case 2
      obtain r where "drainBacklog fuel c src q1 (ks - {msgKey m}) (evs @ [BacklogEvent (Some src) m]) = Some r"
        "drained c src (contents q1) (evs @ [BacklogEvent (Some src) m]) r" using IH by blast
      with 2 ne pop err cq show ?thesis by (cases r) (auto simp: ready_def intro!: drained.post)
    next
      case 3
      obtain r where "drainBacklog fuel c src q1 (ks - {msgKey m}) evs = Some r"
        "drained c src (contents q1) evs r" using IH by blast
      with 3 ne pop err cq show ?thesis by (cases r) (auto simp: ready_def future_def intro!: drained.drop)
    qed
  qed
qed simp

lemma drained_spec:
  assumes "drained c src C evs r"
  shows "prque_inv (fst r) \<and> finite (fst (snd r)) \<and> slotKeys (contents (fst r)) = mset_set (fst (snd r))
    \<and> contents (fst r) \<subseteq># C \<and> blockedBy c (contents (fst r))
    \<and> (\<exists>ms. snd (snd r) = evs @ map (BacklogEvent (Some src)) ms
         \<and> (\<forall>m \<in> set ms. ready c m \<and> m \<in> fst ` set_mset C))"
  using assms
proof (induction rule: drained.induct)
  case (post m C evs r p)
  then obtain ms where "snd (snd r) = (evs @ [BacklogEvent (Some src) m]) @ map (BacklogEvent (Some src)) ms"
    "\<forall>m \<in> set ms. ready c m \<and> m \<in> fst ` set_mset C" by blast
  then have "\<exists>ms. snd (snd r) = evs @ map (BacklogEvent (Some src)) ms
      \<and> (\<forall>m' \<in> set ms. ready c m' \<and> m' \<in> fst ` set_mset (add_mset (m, p) C))"
    using post.hyps by (intro exI [of _ "m # ms"]) auto
  moreover have "contents (fst r) \<subseteq># add_mset (m, p) C"
    using post.IH by (metis mset_subset_eq_add_left add_mset_add_single subset_mset.order_trans)
  ultimately show ?case using post.IH by blast
next
  case (drop m C evs r p)
  have "contents (fst r) \<subseteq># add_mset (m, p) C"
    using drop.IH by (metis mset_subset_eq_add_left add_mset_add_single subset_mset.order_trans)
  moreover obtain ms where "snd (snd r) = evs @ map (BacklogEvent (Some src)) ms"
    "\<forall>m \<in> set ms. ready c m \<and> m \<in> fst ` set_mset C" using drop.IH by blast
  ultimately show ?case using drop.IH by (intro conjI exI [of _ ms]) auto
qed simp

lemma queueOk_drained:
  assumes "queueOk a q ks" "drained c src (contents q) evs (q', ks', es)"
  shows "queueOk a q' ks'"
proof -
  note d = drained_spec [OF assms(2), simplified]
  then have sub: "contents q' \<subseteq># contents q" by blast
  show ?thesis using assms(1) d size_mset_mono [OF sub] set_mset_mono [OF sub] by (auto simp: queueOk_def)
qed

section \<open>All backlogs\<close>

definition backlog_inv :: "Core \<Rightarrow> bool" where
  "backlog_inv c \<longleftrightarrow> goMap (backlogs c) \<and> goMap (backlogKeys c)
     \<and> (\<forall>a q. mapGet (backlogs c) a = Some q \<longrightarrow> a \<noteq> coreAddress c
          \<and> (\<exists>ks. mapGet (backlogKeys c) a = Some ks \<and> queueOk a q ks))"

lemma addToBacklog_inv:
  assumes "backlog_inv c"
  shows "\<exists>c'. addToBacklog m c = Some c' \<and> backlog_inv c'"
proof (cases "Source m = coreAddress c")
  case False
  let ?a = "Source m" and ?p = "toNegatePriority (Code m) (msgView m)"
  show ?thesis
  proof (cases "mapGet (backlogs c) ?a")
    case None
    obtain q where "Push NewPrque m ?p = Some q" "queueOk ?a q {msgKey m}" using queueOk_new [OF refl] by blast
    with None False assms show ?thesis by (auto simp: addToBacklog_def Let_def backlog_inv_def update_conv)
  next
    case (Some q)
    then obtain ks where ks: "mapGet (backlogKeys c) ?a = Some ks" "queueOk ?a q ks"
      using assms by (auto simp: backlog_inv_def)
    show ?thesis
    proof (cases "msgKey m \<in> ks \<or> PrqueSize q \<ge> maxBacklogSizePerValidator")
      case True
      with Some ks False assms show ?thesis by (auto simp: addToBacklog_def Let_def)
    next
      case room: False
      then obtain q' where "Push q m ?p = Some q'" "queueOk ?a q' (insert (msgKey m) ks)"
        using queueOk_push [OF ks(2) refl] by auto
      with Some ks room False assms show ?thesis
        by (auto simp: addToBacklog_def Let_def backlog_inv_def update_conv)
    qed
  qed
qed (use assms in \<open>simp add: addToBacklog_def\<close>)

lemma ready_cong:
  "ready (c\<lparr>backlogs := b, backlogKeys := k, posted := p\<rparr>) = ready c"
  "blockedBy (c\<lparr>backlogs := b, backlogKeys := k, posted := p\<rparr>) = blockedBy c"
  by (simp_all add: fun_eq_iff ready_def blockedBy_def future_def checkMessage_def currentView_def)

text \<open>Events posted from the queues of \<open>b\<close>.\<close>

definition postedFrom :: "Core \<Rightarrow> defaultSet \<Rightarrow> CoreEvent \<Rightarrow> bool" where
  "postedFrom c vs e \<longleftrightarrow> (\<exists>v m q. e = BacklogEvent (Some v) m \<and> ready c m \<and> v \<in> set (validators vs)
     \<and> valAddress v = Source m \<and> mapGet (backlogs c) (Source m) = Some q \<and> m \<in> fst ` set_mset (contents q))"

text \<open>\<open>c'\<close> is \<open>c\<close> after the queues of the sources \<open>K\<close> have been processed.\<close>

definition processed :: "Core \<Rightarrow> defaultSet \<Rightarrow> address set \<Rightarrow> Core \<Rightarrow> bool" where
  "processed c vs K c' \<longleftrightarrow>
     (\<exists>b k es. c' = c\<lparr>backlogs := b, backlogKeys := k, posted := posted c @ es\<rparr> \<and> backlog_inv c'
        \<and> (\<forall>e \<in> set es. postedFrom c vs e)
        \<and> (\<forall>a. a \<notin> K \<longrightarrow> mapGet b a = mapGet (backlogs c) a)
        \<and> (\<forall>a q. a \<in> K \<longrightarrow> mapGet b a = Some q \<longrightarrow> a \<in> set (AddressList vs) \<and> blockedBy c (contents q)))"

lemma postedFrom_later:
  assumes "postedFrom (c\<lparr>backlogs := b, backlogKeys := k, posted := p\<rparr>) vs e"
    and "\<forall>a q'. mapGet b a = Some q' \<longrightarrow> (\<exists>q. mapGet (backlogs c) a = Some q \<and> contents q' \<subseteq># contents q)"
  shows "postedFrom c vs e"
proof -
  obtain v m q' where e: "e = BacklogEvent (Some v) m" "ready c m" "v \<in> set (validators vs)"
    "valAddress v = Source m" "mapGet b (Source m) = Some q'" "m \<in> fst ` set_mset (contents q')"
    using assms(1) by (auto simp: postedFrom_def ready_cong)
  then obtain q where q: "mapGet (backlogs c) (Source m) = Some q" "contents q' \<subseteq># contents q"
    using assms(2) by blast
  show ?thesis using e q(1) set_mset_mono [OF q(2)] by (auto simp: postedFrom_def)
qed

lemma processSource_ok:
  assumes "backlog_inv c" "current c \<noteq> None" "valSet c = Some vs" "mapGet (backlogs c) a = Some q"
  shows "\<exists>c'. processSource a q c = Some c' \<and> processed c vs {a} c'
    \<and> (\<forall>a' q'. mapGet (backlogs c') a' = Some q' \<longrightarrow> (\<exists>q. mapGet (backlogs c) a' = Some q \<and> contents q' \<subseteq># contents q))"
proof -
  obtain ks where ks: "mapGet (backlogKeys c) a = Some ks" "queueOk a q ks" and self: "a \<noteq> coreAddress c"
    using assms(1,4) by (auto simp: backlog_inv_def)
  show ?thesis
  proof (cases "snd (GetByAddress vs a)")
    case None
    let ?c = "c\<lparr>backlogs := mapDelete a (backlogs c), backlogKeys := mapDelete a (backlogKeys c), posted := posted c @ []\<rparr>"
    have "processSource a q c = Some ?c" using assms(3) None by (simp add: processSource_def)
    moreover have "backlog_inv ?c" using assms(1) by (auto simp: backlog_inv_def delete_conv split: if_splits)
    moreover from this have "processed c vs {a} ?c" unfolding processed_def
      by (intro exI conjI) (rule refl, assumption, simp_all add: delete_conv)
    ultimately show ?thesis by (auto simp: delete_conv split: if_splits)
  next
    case (Some v)
    have fuel: "size (contents q) < nat (PrqueSize q) + 1" using ks(2) by (simp add: queueOk_def prq.qsize_ok)
    obtain q' ks' es where d: "drainBacklog (nat (PrqueSize q) + 1) c v q ks [] = Some (q', ks', es)"
      "drained c v (contents q) [] (q', ks', es)"
      using drain_ok [OF _ _ _ assms(2) fuel, of ks v "[]"] ks(2) by (auto simp: queueOk_def)
    let ?c = "c\<lparr>backlogs := mapSet a q' (backlogs c), backlogKeys := mapSet a ks' (backlogKeys c), posted := posted c @ es\<rparr>"
    have c': "processSource a q c = Some ?c" using assms(3) Some ks(1) d(1) by (simp add: processSource_def)
    note sp = drained_spec [OF d(2), simplified]
    obtain ms where ms: "es = map (BacklogEvent (Some v)) ms" "\<forall>m \<in> set ms. ready c m \<and> m \<in> fst ` set_mset (contents q)"
      using sp by blast
    have "\<forall>e \<in> set es. postedFrom c vs e"
    proof
      fix e assume "e \<in> set es"
      then obtain m where m: "e = BacklogEvent (Some v) m" "ready c m" "m \<in> fst ` set_mset (contents q)" using ms by auto
      then have "Source m = a" using ks(2) by (auto simp: queueOk_def)
      with m GetByAddress_snd_SomeD [OF Some] assms(4) show "postedFrom c vs e" by (auto simp: postedFrom_def)
    qed
    moreover have "backlog_inv ?c"
      using assms(1) queueOk_drained [OF ks(2) d(2)] self by (auto simp: backlog_inv_def update_conv)
    moreover have "a \<in> set (AddressList vs)" using Some GetByAddress_None_iff by force
    ultimately have "processed c vs {a} ?c" unfolding processed_def using sp
      by (intro exI conjI) (rule refl, assumption, assumption, simp_all add: update_conv)
    moreover have "\<forall>a' q2. mapGet (backlogs ?c) a' = Some q2 \<longrightarrow> (\<exists>q. mapGet (backlogs c) a' = Some q \<and> contents q2 \<subseteq># contents q)"
      using sp assms(4) by (simp add: update_conv)
    ultimately show ?thesis using c' by blast
  qed
qed

lemma processed_trans:
  assumes "processed c vs {a} c1" "processed c1 vs K c'" "a \<notin> K"
    and sub: "\<forall>a q'. mapGet (backlogs c1) a = Some q' \<longrightarrow> (\<exists>q. mapGet (backlogs c) a = Some q \<and> contents q' \<subseteq># contents q)"
  shows "processed c vs (insert a K) c'"
proof -
  obtain b k es where 1: "c1 = c\<lparr>backlogs := b, backlogKeys := k, posted := posted c @ es\<rparr>"
    "\<forall>e \<in> set es. postedFrom c vs e" "\<forall>a'. a' \<notin> {a} \<longrightarrow> mapGet b a' = mapGet (backlogs c) a'"
    "\<forall>a' q. a' \<in> {a} \<longrightarrow> mapGet b a' = Some q \<longrightarrow> a' \<in> set (AddressList vs) \<and> blockedBy c (contents q)"
    using assms(1) unfolding processed_def by (elim exE conjE) (rule that)
  obtain b' k' es' where 2: "c' = c1\<lparr>backlogs := b', backlogKeys := k', posted := posted c1 @ es'\<rparr>" "backlog_inv c'"
    "\<forall>e \<in> set es'. postedFrom c1 vs e" "\<forall>a'. a' \<notin> K \<longrightarrow> mapGet b' a' = mapGet (backlogs c1) a'"
    "\<forall>a q. a \<in> K \<longrightarrow> mapGet b' a = Some q \<longrightarrow> a \<in> set (AddressList vs) \<and> blockedBy c1 (contents q)"
    using assms(2) unfolding processed_def by (elim exE conjE) (rule that)
  have c': "c' = c\<lparr>backlogs := b', backlogKeys := k', posted := posted c @ es @ es'\<rparr>" using 1(1) 2(1) by simp
  have "blockedBy c1 = blockedBy c" using 1(1) ready_cong(2) by simp
  moreover have "\<forall>e \<in> set es'. postedFrom c vs e"
  proof
    fix e assume "e \<in> set es'"
    then have "postedFrom (c\<lparr>backlogs := b, backlogKeys := k, posted := posted c @ es\<rparr>) vs e" using 2(3) 1(1) by simp
    then show "postedFrom c vs e" using sub 1(1) by (elim postedFrom_later) simp
  qed
  moreover have "\<forall>a'. a' \<notin> insert a K \<longrightarrow> mapGet b' a' = mapGet (backlogs c) a'" using 1 2(4) by simp
  moreover have "mapGet b' a = mapGet b a" using 1(1) 2(4) assms(3) by simp
  ultimately show ?thesis
    unfolding processed_def using c' 1(2,4) 2(2,5)
    by (intro exI [of _ b'] exI [of _ k'] exI [of _ "es @ es'"] conjI) (simp_all, blast+)
qed

lemma processBacklogs_ok:
  assumes "backlog_inv c" "current c \<noteq> None" "valSet c = Some vs" "goMap L"
    and "\<forall>(a, q) \<in> set L. mapGet (backlogs c) a = Some q"
  shows "\<exists>c'. processBacklogs L c = Some c' \<and> processed c vs (fst ` set L) c'"
  using assms
proof (induction L arbitrary: c)
  case Nil
  then show ?case unfolding processed_def
    by (intro exI [of _ c] conjI exI [of _ "backlogs c"] exI [of _ "backlogKeys c"] exI [of _ "[]"]) simp_all
next
  case (Cons x L)
  obtain a q where x: "x = (a, q)" by (cases x)
  have q: "mapGet (backlogs c) a = Some q" and a: "a \<notin> fst ` set L" "goMap L" using Cons.prems x by auto
  obtain c1 where c1: "processSource a q c = Some c1" "processed c vs {a} c1"
    "\<forall>a' q'. mapGet (backlogs c1) a' = Some q' \<longrightarrow> (\<exists>q. mapGet (backlogs c) a' = Some q \<and> contents q' \<subseteq># contents q)"
    using processSource_ok [OF Cons.prems(1-3) q] by blast
  have same: "backlog_inv c1" "current c1 = current c" "valSet c1 = valSet c"
    "\<And>a'. a' \<noteq> a \<Longrightarrow> mapGet (backlogs c1) a' = mapGet (backlogs c) a'"
    using c1(2) unfolding processed_def by auto
  have "\<forall>(a', q') \<in> set L. mapGet (backlogs c1) a' = Some q'" using Cons.prems(5) same(4) a(1) by force
  then obtain c' where "processBacklogs L c1 = Some c'" "processed c1 vs (fst ` set L) c'"
    using Cons.IH [OF same(1) _ _ a(2)] Cons.prems(2,3) same(2,3) by auto
  then show ?case using x c1 processed_trans [OF c1(2) _ a(1) c1(3)] by simp
qed

lemma processBacklog_ok:
  assumes "backlog_inv c" "current c \<noteq> None" "valSet c = Some vs"
  shows "\<exists>c'. processBacklog c = Some c' \<and> processed c vs (fst ` set (backlogs c)) c'"
proof -
  have g: "goMap (backlogs c)" using assms(1) by (simp add: backlog_inv_def)
  moreover have "\<forall>(a, q) \<in> set (backlogs c). mapGet (backlogs c) a = Some q"
    using mapGet_in [OF g] by auto
  ultimately show ?thesis using processBacklogs_ok [OF assms] by (simp add: processBacklog_def)
qed

section \<open>Sequences of operations\<close>

datatype backlogOp = AddMessage WBFTMessage | ProcessBacklog

fun backlogApply :: "backlogOp \<Rightarrow> Core \<Rightarrow> Core option" where
  "backlogApply (AddMessage m) c = addToBacklog m c"
| "backlogApply ProcessBacklog c = processBacklog c"

definition backlogState :: "Core \<Rightarrow> bool" where
  "backlogState c \<longleftrightarrow> backlog_inv c \<and> current c \<noteq> None \<and> valSet c \<noteq> None"

lemma addToBacklog_frame:
  assumes "addToBacklog m c = Some c'"
  shows "\<exists>b k. c' = c\<lparr>backlogs := b, backlogKeys := k\<rparr>"
proof -
  have same: "\<exists>b k. x = x\<lparr>backlogs := b, backlogKeys := k\<rparr>" for x :: Core
    by (intro exI [of _ "backlogs x"] exI [of _ "backlogKeys x"]) simp
  show ?thesis using assms
    by (auto simp: addToBacklog_def Let_def bind_eq_Some_conv intro: same split: if_splits option.splits)
qed

interpretation backlogOps: guarded_ops backlogApply "\<lambda>x. True" backlogState
proof
  fix x s assume inv: "backlogState s"
  then obtain vs where vs: "valSet s = Some vs" by (auto simp: backlogState_def)
  have "\<exists>s'. backlogApply x s = Some s' \<and> backlogState s'"
  proof (cases x)
    case (AddMessage m)
    obtain s' where "addToBacklog m s = Some s'" "backlog_inv s'"
      using addToBacklog_inv inv by (auto simp: backlogState_def)
    then show ?thesis using AddMessage addToBacklog_frame inv by (fastforce simp: backlogState_def)
  next
    case ProcessBacklog
    obtain s' where "processBacklog s = Some s'" "processed s vs (fst ` set (backlogs s)) s'"
      using processBacklog_ok [OF _ _ vs] inv by (auto simp: backlogState_def)
    then show ?thesis using ProcessBacklog inv unfolding processed_def backlogState_def by auto
  qed
  then show "\<exists>s'. backlogApply x s = Some s'" "\<And>s'. backlogApply x s = Some s' \<Longrightarrow> backlogState s'" by auto
qed

section \<open>Queue order\<close>

text \<open>A view whose priority does not wrap around.\<close>

definition smallView :: "View \<Rightarrow> bool" where
  "smallView v \<longleftrightarrow> 0 \<le> vSequence v \<and> 0 \<le> vRound v \<and> vSequence v * 1000 + vRound v * 10 + 3 < 2 ^ 63"

lemma toNegatePriority_value:
  assumes "smallView v" "code \<noteq> RoundChangeCode"
  shows "toNegatePriority code v = - (vSequence v * 1000 + vRound v * 10 + uint (msgPriority code))"
proof -
  let ?x = "vSequence v * 1000 + vRound v * 10 + uint (msgPriority code)"
  have p: "uint (msgPriority code) \<le> 3" "0 \<le> uint (msgPriority code)" by (auto simp: msgPriority_def)
  have "bigUint64 (vSequence v) * 1000 + bigUint64 (vRound v) * 10 + msgPriority code = word_of_int ?x"
    by (simp add: bigUint64_def)
  then have "toNegatePriority code v = sint (word_of_int (- ?x) :: uint64)"
    using assms(2) by (simp add: toNegatePriority_def)
  also have "\<dots> = signed_take_bit 63 (- ?x)"
    using sint_sbintrunc' [of "- ?x", where 'a = 64] by (simp only:) simp
  also have "\<dots> = - ?x"
    using assms(1) p unfolding smallView_def by (intro signed_take_bit_int_eq_self) linarith+
  finally show ?thesis .
qed

lemma commit_before_prepare:
  assumes "smallView v"
  shows "toNegatePriority PrepareCode v < toNegatePriority CommitCode v"
  using toNegatePriority_value [OF assms, of PrepareCode] toNegatePriority_value [OF assms, of CommitCode]
  by (simp add: msgPriority_def code_defs)

lemma message_future_commit:
  "classify StatePreprepared prior cv CommitCode cv = Some errFutureMessage"
  by (simp add: classify_Future MessageCodes_def keepForLater_def code_defs)

section \<open>Properties\<close>

text \<open>C26. Messages are sorted correctly: handled at once are exactly those of the current round that the
  current phase waits for, and ROUND-CHANGE messages of this sequence for this or one of the next ten
  rounds; kept for later are exactly those of the next sequence, of a later round or of a later phase,
  each within the limits on how far ahead a message may be.\<close>

theorem message_classification:
  assumes "code \<in> MessageCodes" "currentView c = Some cv"
  shows "(checkMessage c code view = Some None \<longleftrightarrow> expected (coreState c) cv code view)
    \<and> (checkMessage c code view = Some (Some errFutureMessage) \<longleftrightarrow> keepForLater (coreState c) cv code view)"
  using assms classify_None [OF assms(1)] classify_Future [OF assms(1)] by (simp add: checkMessage_def)

definition exampleBackend :: Backend where
  "exampleBackend = \<lparr>backendAddress = 1, backendValidators = (\<lambda>b. exampleSet 4), LastProposal = (Some exampleBlock, 0),
     backendVerify = (\<lambda>b. (0, None)), backendSign = (\<lambda>b. Some b), SignWithoutHashing = (\<lambda>b. b),
     backendBroadcast = (\<lambda>code b. None), backendCommit = (\<lambda>b p c r. None), HasBadProposal = (\<lambda>h. False)\<rparr>"

definition exampleCore :: "State \<Rightarrow> Core" where
  "exampleCore st = (NewCore exampleBackend DefaultConfig)\<lparr>coreState := st, valSet := Some (exampleSet 4),
     current := Some (newRoundState \<lparr>vRound = 0, vSequence = 5\<rparr> (exampleSet 4) None None None None)\<rparr>"

lemma exampleCore_view: "currentView (exampleCore st) = Some \<lparr>vRound = 0, vSequence = 5\<rparr>"
  by (simp add: exampleCore_def currentView_def newRoundState_def)

theorem message_classification_witness:
  "checkMessage (exampleCore StatePreprepared) PrepareCode \<lparr>vRound = 0, vSequence = 5\<rparr> = Some None
   \<and> checkMessage (exampleCore StatePreprepared) CommitCode \<lparr>vRound = 0, vSequence = 5\<rparr> = Some (Some errFutureMessage)"
  using message_classification [of PrepareCode "exampleCore StatePreprepared", OF _ exampleCore_view]
    message_classification [of CommitCode "exampleCore StatePreprepared", OF _ exampleCore_view]
  by (simp add: MessageCodes_def expected_def keepForLater_def exampleCore_def code_defs)

text \<open>C27. Whatever messages are backlogged and processed in whatever order, nothing panics, and the backlog
  stays bounded: a validator has at most 88 messages in it, all its own and at most one per message
  code, sequence and round; the node never backlogs its own messages.\<close>

theorem backlog_bounded:
  assumes "backlogs c = []" "backlogKeys c = []" "current c \<noteq> None" "valSet c \<noteq> None"
  shows "\<exists>c'. runOps backlogApply ops c = Some c'
    \<and> (\<forall>a q. mapGet (backlogs c') a = Some q \<longrightarrow> a \<noteq> coreAddress c' \<and> PrqueSize q \<le> 88
         \<and> (\<forall>x \<in># contents q. Source (fst x) = a) \<and> (\<forall>k. count (slotKeys (contents q)) k \<le> 1))"
proof -
  have "backlogState c" using assms by (simp add: backlogState_def backlog_inv_def)
  then obtain c' where c': "runOps backlogApply ops c = Some c'" "backlog_inv c'"
    using backlogOps.run_keeps [of ops c] by (auto simp: backlogState_def)
  have "a \<noteq> coreAddress c' \<and> PrqueSize q \<le> 88 \<and> (\<forall>x \<in># contents q. Source (fst x) = a)
      \<and> (\<forall>k. count (slotKeys (contents q)) k \<le> 1)" if q: "mapGet (backlogs c') a = Some q" for a q
  proof -
    obtain ks where "a \<noteq> coreAddress c'" "queueOk a q ks" using c'(2) q by (auto simp: backlog_inv_def)
    then show ?thesis by (auto simp: queueOk_def prq.qsize_ok count_mset_set')
  qed
  with c'(1) show ?thesis by blast
qed

definition exampleVote :: "uint64 \<Rightarrow> WBFTMessage" where
  "exampleVote code = (if code = CommitCode then SetSource 2 (MCommit (NewCommit 5 0 0 []))
     else SetSource 2 (MPrepare (NewPrepare 5 0 0 [])))"

lemma PrepareCode_neq_CommitCode [simp]: "PrepareCode \<noteq> CommitCode"
  by (simp add: code_defs)

lemma exampleVote_facts [simp]:
  "Source (exampleVote code) = 2" "msgView (exampleVote code) = \<lparr>vRound = 0, vSequence = 5\<rparr>"
  "Code (exampleVote CommitCode) = CommitCode" "Code (exampleVote PrepareCode) = PrepareCode"
  by (simp_all add: exampleVote_def Code_def Source_def msgView_def payloadView_def payload_defs code_defs)

theorem backlog_bounded_witness:
  "\<exists>c'. runOps backlogApply [AddMessage (exampleVote CommitCode), ProcessBacklog, AddMessage (exampleVote CommitCode)]
      (exampleCore StateAcceptRequest) = Some c'"
proof -
  have ok: "backlogs (exampleCore StateAcceptRequest) = []" "backlogKeys (exampleCore StateAcceptRequest) = []"
    "current (exampleCore StateAcceptRequest) \<noteq> None" "valSet (exampleCore StateAcceptRequest) \<noteq> None"
    by (simp_all add: exampleCore_def NewCore_def)
  show ?thesis using backlog_bounded [OF ok] by blast
qed

text \<open>C28. Processing the backlog with a current round never panics: it only posts messages that are ready now, each with
  the validator of the current set that sent it, and a queue that is left over is headed by a message of a view or phase not yet reached.\<close>

theorem backlog_processing:
  assumes "backlog_inv c" "current c \<noteq> None" "valSet c = Some vs"
  shows "\<exists>c' evs. processBacklog c = Some c' \<and> posted c' = posted c @ evs
    \<and> (\<forall>e \<in> set evs. \<exists>v m. e = BacklogEvent (Some v) m \<and> v \<in> set (validators vs)
         \<and> valAddress v = Source m \<and> checkMessage c (Code m) (msgView m) \<in> {Some None, Some (Some errExtraSealMessage)})
    \<and> (\<forall>a q. mapGet (backlogs c') a = Some q \<and> contents q \<noteq> {#} \<longrightarrow>
         (\<exists>m \<in># contents q. checkMessage c (Code (fst m)) (msgView (fst m)) = Some (Some errFutureMessage)
            \<and> (\<forall>y \<in># contents q. snd y \<le> snd m)))"
proof -
  let ?K = "fst ` set (backlogs c)"
  obtain c' b k es where c': "processBacklog c = Some c'" "posted c' = posted c @ es" "backlogs c' = b"
    and evs: "\<forall>e \<in> set es. postedFrom c vs e"
    and out: "\<forall>a. a \<notin> ?K \<longrightarrow> mapGet b a = mapGet (backlogs c) a"
    and left: "\<forall>a q. a \<in> ?K \<longrightarrow> mapGet b a = Some q \<longrightarrow> a \<in> set (AddressList vs) \<and> blockedBy c (contents q)"
    using processBacklog_ok [OF assms] unfolding processed_def by force
  have "blockedBy c (contents q)" if "mapGet b a = Some q" for a q
    using that out left map_of_eq_None_iff [of "backlogs c" a] by (cases "a \<in> ?K") auto
  then have "\<exists>m \<in># contents q. checkMessage c (Code (fst m)) (msgView (fst m)) = Some (Some errFutureMessage)
        \<and> (\<forall>y \<in># contents q. snd y \<le> snd m)" if "mapGet (backlogs c') a = Some q" "contents q \<noteq> {#}" for a q
    using that c'(3) unfolding blockedBy_def future_def by blast
  moreover have "\<exists>v m. e = BacklogEvent (Some v) m \<and> v \<in> set (validators vs)
         \<and> valAddress v = Source m \<and> checkMessage c (Code m) (msgView m) \<in> {Some None, Some (Some errExtraSealMessage)}"
    if "e \<in> set es" for e
    using that evs unfolding postedFrom_def ready_def by blast
  ultimately show ?thesis using c'(1,2) by (intro exI [of _ c'] exI [of _ es]) blast
qed

lemma exampleCore_backlog: "backlog_inv (exampleCore st)" "backlogs (exampleCore st) = []"
    "backlogKeys (exampleCore st) = []" "current (exampleCore st) \<noteq> None" "valSet (exampleCore st) = Some (exampleSet 4)"
  by (simp_all add: exampleCore_def NewCore_def backlog_inv_def)

lemma backlog_inv_single:
  assumes "queueOk a q ks" "a \<noteq> coreAddress c"
  shows "backlog_inv (c\<lparr>backlogs := [(a, q)], backlogKeys := [(a, ks)]\<rparr>)"
  using assms by (auto simp: backlog_inv_def goMap_def split: if_splits)

theorem backlog_processing_witness:
  "\<exists>c c'. processBacklog c = Some c' \<and> backlogs c \<noteq> []"
proof -
  obtain q where q: "queueOk 2 q {msgKey (exampleVote CommitCode)}"
    using queueOk_new [of "exampleVote CommitCode" 2] by auto
  let ?c = "(exampleCore StatePreprepared)\<lparr>backlogs := [(2, q)], backlogKeys := [(2, {msgKey (exampleVote CommitCode)})]\<rparr>"
  have ok: "backlog_inv ?c" "current ?c \<noteq> None" "valSet ?c = Some (exampleSet 4)"
    using backlog_inv_single [OF q, of "exampleCore StatePreprepared"]
    by (simp_all add: exampleCore_def NewCore_def exampleBackend_def)
  obtain c' where "processBacklog ?c = Some c'" using backlog_processing [OF ok] by blast
  then show ?thesis by (intro exI [of _ ?c] exI [of _ c']) simp
qed

lemma drain_blocked:
  assumes q: "queueOk a q ks" and st: "coreState c = StatePreprepared" "currentView c = Some cv" "smallView cv"
    and votes: "\<forall>x \<in># contents q. msgView (fst x) = cv \<and> Code (fst x) \<in> {PrepareCode, CommitCode}"
    and commit: "x \<in># contents q" "Code (fst x) = CommitCode"
  shows "\<exists>q'. drainBacklog (Suc fuel) c src q ks evs = Some (q', ks, evs) \<and> contents q' = contents q"
proof -
  have inv: "prque_inv q" using q by (simp add: queueOk_def)
  have ne: "contents q \<noteq> {#}" using commit(1) by auto
  obtain m p q1 where pop: "Pop q = Some ((m, p), q1)" "prque_inv q1"
    "contents q = add_mset (m, p) (contents q1)" and top: "\<forall>y \<in># contents q. snd y \<le> p"
    using prq.pop_ok [OF inv ne] by (metis prod.exhaust snd_conv)
  have pr: "snd y = toNegatePriority (Code (fst y)) cv" if "y \<in># contents q" for y
    using q that votes unfolding queueOk_def by fastforce
  have "toNegatePriority CommitCode cv \<le> toNegatePriority (Code m) cv"
    using top commit pr [of x] pr [of "(m, p)"] pop(3) by force
  then have "Code m = CommitCode" "msgView m = cv"
    using votes pop(3) commit_before_prepare [OF st(3)] by force+
  then have "checkMessage c (Code m) (msgView m) = Some (Some errFutureMessage)"
    using st(1,2) message_future_commit by (simp add: checkMessage_def)
  moreover have "\<not> Empty q" using ne inv by (simp add: Empty_iff)
  moreover obtain q2 where "Push q1 m p = Some q2" "contents q2 = add_mset (m, p) (contents q1)"
    using prq.push_ok [OF pop(2)] by blast
  ultimately show ?thesis using pop by simp
qed

text \<open>C30. While a node waits for PREPARE messages, a COMMIT that a validator sent early keeps every
  PREPARE of that validator in the backlog: COMMIT messages of a view leave the queue before PREPARE
  messages, the COMMIT is not due yet, and the loop stops at it.\<close>

theorem backlog_commit_blocks_prepare:
  assumes "queueOk a q ks" "mapGet (backlogKeys c) a = Some ks"
    and "valSet c = Some vs" "snd (GetByAddress vs a) = Some v"
    and "coreState c = StatePreprepared" "currentView c = Some cv" "smallView cv"
    and "\<forall>x \<in># contents q. msgView (fst x) = cv \<and> Code (fst x) \<in> {PrepareCode, CommitCode}"
    and "\<exists>x \<in># contents q. Code (fst x) = CommitCode"
  shows "\<exists>c' q'. processSource a q c = Some c' \<and> posted c' = posted c
    \<and> mapGet (backlogs c') a = Some q' \<and> contents q' = contents q"
proof -
  obtain x where x: "x \<in># contents q" "Code (fst x) = CommitCode" using assms(9) by blast
  obtain q' where "drainBacklog (Suc (nat (PrqueSize q))) c v q ks [] = Some (q', ks, [])" "contents q' = contents q"
    using drain_blocked [OF assms(1,5-8) x] by blast
  then show ?thesis using assms(2-4) by (simp add: processSource_def update_conv del: drainBacklog.simps)
qed

theorem backlog_commit_blocks_prepare_witness:
  "\<exists>q c c'. processSource 2 q c = Some c' \<and> coreState c = StatePreprepared
     \<and> {exampleVote CommitCode, exampleVote PrepareCode} \<subseteq> fst ` set_mset (contents q) \<and> posted c' = posted c"
proof -
  let ?C = "exampleVote CommitCode" and ?P = "exampleVote PrepareCode"
  let ?ks = "{msgKey ?P, msgKey ?C}"
  have src: "Source ?C = 2" "Source ?P = 2" by simp_all
  obtain q1 where q1: "queueOk 2 q1 {msgKey ?C}" "contents q1 = {#(?C, toNegatePriority (Code ?C) (msgView ?C))#}"
    using prq.push_ok [OF prq.invar_empty, of ?C "toNegatePriority (Code ?C) (msgView ?C)"] src
    by (auto simp: queueOk_def slotKeys_def prq.contents_empty)
  have inv: "prque_inv q1" using q1(1) by (simp add: queueOk_def)
  have new: "msgKey ?P \<notin> {msgKey ?C}" by (simp add: msgKey_def)
  have "PrqueSize q1 < maxBacklogSizePerValidator" using q1(2) prq.qsize_ok [OF inv] by simp
  from queueOk_push [OF q1(1) src(2) new this] prq.push_ok [OF inv, of ?P "toNegatePriority (Code ?P) (msgView ?P)"] q1(2)
  obtain q where q: "queueOk 2 q ?ks"
    "contents q = {#(?P, toNegatePriority (Code ?P) (msgView ?P)), (?C, toNegatePriority (Code ?C) (msgView ?C))#}"
    by fastforce
  let ?c = "(exampleCore StatePreprepared)\<lparr>backlogKeys := [(2, ?ks)]\<rparr>"
  have "snd (GetByAddress (exampleSet 4) 2) = Some (New 2 [])" by code_simp
  then obtain v where v: "snd (GetByAddress (exampleSet 4) 2) = Some v" by blast
  have "\<exists>c' q'. processSource 2 q ?c = Some c' \<and> posted c' = posted ?c
      \<and> mapGet (backlogs c') 2 = Some q' \<and> contents q' = contents q"
    by (rule backlog_commit_blocks_prepare [OF q(1), where cv = "\<lparr>vRound = 0, vSequence = 5\<rparr>"])
      (use q(2) v in \<open>auto simp: exampleCore_def currentView_def newRoundState_def smallView_def\<close>)
  then obtain c' where "processSource 2 q ?c = Some c'" "posted c' = posted ?c" by blast
  moreover have "coreState ?c = StatePreprepared" by (simp add: exampleCore_def)
  ultimately show ?thesis using q(2) by (intro exI [of _ q] exI [of _ ?c] exI [of _ c']) simp
qed

end
