(* ===== verification/Extra_Seal.thy ===== *)
theory Extra_Seal
  imports Backlog
begin

text \<open>
  Seals that arrive after their quorum, kept for the next block (\<open>core/extraseal.go\<close>): per validator
  the newest PREPARE and the newest COMMIT.
\<close>

section \<open>Operations\<close>

definition keepNewest :: "'a CommonPayload_scheme \<Rightarrow> (address, 'a CommonPayload_scheme) gomap \<Rightarrow>
    (address, 'a CommonPayload_scheme) gomap" where
  "keepNewest msg seals =
     (case mapGet seals (pSource msg) of
        Some old \<Rightarrow> if View_Cmp (payloadView old) (payloadView msg) \<ge> 0 then seals
                    else mapSet (pSource msg) msg seals
      | None \<Rightarrow> mapSet (pSource msg) msg seals)"

definition addToPrepareExtraSeal :: "Prepare \<Rightarrow> Core \<Rightarrow> Core" where
  "addToPrepareExtraSeal m c = c\<lparr>prepareExtraSeals := keepNewest m (prepareExtraSeals c)\<rparr>"

definition addToCommitExtraSeal :: "Commit \<Rightarrow> Core \<Rightarrow> Core" where
  "addToCommitExtraSeal m c = c\<lparr>commitExtraSeals := keepNewest m (commitExtraSeals c)\<rparr>"

text \<open>The block a late seal is for, and the validators it may come from.\<close>

definition extraSealBlock :: "Core \<Rightarrow> (Block option \<times> defaultSet option) option" where
  "extraSealBlock c =
     (if coreState c = StateAcceptRequest
      then Some (priorProposal (priorSt c), priorValidators (priorSt c))
      else do { s \<leftarrow> current c; Some (rsProposal s, valSet c) })"

definition addToExtraSeal :: "Crypto \<Rightarrow> WBFTMessage \<Rightarrow> Core \<Rightarrow> (goError option \<times> Core) option" where
  "addToExtraSeal cr msg c = do {
     (block, vs) \<leftarrow> extraSealBlock c;
     case block of
       None \<Rightarrow> Some (None, c)
     | Some block \<Rightarrow>
         (case msg of
            MPrepare m \<Rightarrow>
              if Digest m \<noteq> Block_Hash (keccak256 cr) block then Some (Some errInvalidMessage, c)
              else do {
                err \<leftarrow> verifySeal cr vs (bHeader block) (sealRound (pRound m)) SealTypePrepare (prSeal m) (pSource m);
                Some (if err \<noteq> None then (err, c) else (None, addToPrepareExtraSeal m c)) }
          | MCommit m \<Rightarrow>
              if cDigest m \<noteq> Block_Hash (keccak256 cr) block then Some (Some errInvalidMessage, c)
              else do {
                err \<leftarrow> verifySeal cr vs (bHeader block) (sealRound (pRound m)) SealTypeCommit (CommitSeal m) (pSource m);
                Some (if err \<noteq> None then (err, c) else (None, addToCommitExtraSeal m c)) }
          | _ \<Rightarrow> Some (Some errInvalidExtraSealMessage, c)) }"

fun addPrepareSeals :: "WBFTMessage list \<Rightarrow> Core \<Rightarrow> Core option" where
  "addPrepareSeals [] c = Some c"
| "addPrepareSeals (m # ms) c = do { p \<leftarrow> asPrepare m; addPrepareSeals ms (addToPrepareExtraSeal p c) }"

fun addCommitSeals :: "WBFTMessage list \<Rightarrow> Core \<Rightarrow> Core option" where
  "addCommitSeals [] c = Some c"
| "addCommitSeals (m # ms) c = do { p \<leftarrow> asCommit m; addCommitSeals ms (addToCommitExtraSeal p c) }"

definition addEffectiveSealToExtraSeal :: "Core \<Rightarrow> Core option" where
  "addEffectiveSealToExtraSeal c =
     (case current c of None \<Rightarrow> Some c
      | Some s \<Rightarrow> do {
          c \<leftarrow> addPrepareSeals (Values (WBFTPrepares s)) c;
          addCommitSeals (Values (WBFTCommits s)) c })"

fun collectSeals :: "('a CommonPayload_scheme \<Rightarrow> hash \<times> bytes) \<Rightarrow> View \<Rightarrow> hash \<Rightarrow> defaultSet \<Rightarrow>
    (address, 'a CommonPayload_scheme) gomap \<Rightarrow> SealData list" where
  "collectSeals sealOf latestView h vs [] = []"
| "collectSeals sealOf latestView h vs ((a, msg) # rest) =
    (let idx = fst (GetByAddress vs (pSource msg))
     in if View_Cmp latestView (payloadView msg) = 0 \<and> fst (sealOf msg) = h \<and> \<not> idx < 0
        then \<lparr>Sealer = word_of_int idx, sdSeal = snd (sealOf msg)\<rparr> # collectSeals sealOf latestView h vs rest
        else collectSeals sealOf latestView h vs rest)"

definition ProcessExtraSeal :: "Crypto \<Rightarrow> Block \<Rightarrow> int \<Rightarrow> defaultSet \<Rightarrow> Core \<Rightarrow> SealData list \<times> SealData list" where
  "ProcessExtraSeal cr lastProposal rd vs c =
    (let latestView = \<lparr>vRound = rd, vSequence = Block_Number lastProposal\<rparr>;
         h = Block_Hash (keccak256 cr) lastProposal
     in (collectSeals (\<lambda>m. (Digest m, prSeal m)) latestView h vs (prepareExtraSeals c),
         collectSeals (\<lambda>m. (cDigest m, CommitSeal m)) latestView h vs (commitExtraSeals c)))"

definition clearSeals :: "int \<Rightarrow> (address, 'a CommonPayload_scheme) gomap \<Rightarrow>
    (address, 'a CommonPayload_scheme) gomap" where
  "clearSeals lastNum seals = filter (\<lambda>(a, msg). \<not> bigCmp (pSequence msg) lastNum < 0) seals"

definition ClearExtraSeals :: "int \<Rightarrow> Core \<Rightarrow> Core" where
  "ClearExtraSeals lastNum c =
     c\<lparr>prepareExtraSeals := clearSeals lastNum (prepareExtraSeals c),
       commitExtraSeals := clearSeals lastNum (commitExtraSeals c)\<rparr>"

end
