(* ===== verification/Core_Rounds.thy ===== *)
theory Core_Rounds
  imports Extra_Seal
begin

text \<open>
  Sending protocol messages, block proposal requests and the start of a round (\<open>core/core.go\<close>,
  \<open>core/request.go\<close> and the sending halves of \<open>core/preprepare.go\<close>, \<open>core/prepare.go\<close>, \<open>core/commit.go\<close>
  and \<open>core/roundchange.go\<close>). The loop over pending requests has fuel, one step per request and one to
  notice that the queue is empty.
\<close>

section \<open>Sending messages\<close>

text \<open>A message is signed, encoded and handed to the backend; each step may fail, and then nothing is
  sent. \<open>ext\<close> adds to the message after it has been signed, and may panic. The flag tells whether the
  message has been sent.\<close>

definition signAndBroadcast :: "Backend \<Rightarrow> WBFTMessage \<Rightarrow> (WBFTMessage \<Rightarrow> WBFTMessage option) \<Rightarrow> Core \<Rightarrow>
    (bool \<times> Core) option" where
  "signAndBroadcast backend msg ext c =
     (case EncodePayloadForSigning msg of None \<Rightarrow> Some (False, c)
      | Some encodedPayload \<Rightarrow>
        let c = emit (SignCall msg) c in
        (case backendSign backend encodedPayload of None \<Rightarrow> Some (False, c)
         | Some signature \<Rightarrow> do {
             msg \<leftarrow> ext (SetSignature signature msg);
             case EncodeMsg msg of None \<Rightarrow> Some (False, c)
             | Some payload \<Rightarrow> do {
                 vs \<leftarrow> valSet c;
                 Some (if backendBroadcast backend (Code msg) payload \<noteq> None then (False, c)
                       else (True, emit (Broadcast msg payload) c)) } }))"

definition broadcastPrepare :: "Crypto \<Rightarrow> Backend \<Rightarrow> Core \<Rightarrow> Core option" where
  "broadcastPrepare cr backend c = do {
     s \<leftarrow> current c;
     sub \<leftarrow> rsSubject (keccak256 cr) s;
     block \<leftarrow> rsProposal s;
     let c = emit (SealCall (subView sub) (bHeader block) SealTypePrepare) c;
     let prepareSeal = SignWithoutHashing backend
       (PrepareSeal (keccak256 cr) (bHeader block) (sealRound (rsRound s)) SealTypePrepare);
     let prepare = NewPrepare (vSequence (subView sub)) (vRound (subView sub)) (subDigest sub) prepareSeal;
     (sent, c) \<leftarrow> signAndBroadcast backend (SetSource (coreAddress c) (MPrepare prepare)) Some c;
     Some c }"

definition broadcastCommit :: "Crypto \<Rightarrow> Backend \<Rightarrow> Core \<Rightarrow> Core option" where
  "broadcastCommit cr backend c = do {
     s \<leftarrow> current c;
     sub \<leftarrow> rsSubject (keccak256 cr) s;
     block \<leftarrow> rsProposal s;
     let c = emit (SealCall (subView sub) (bHeader block) SealTypeCommit) c;
     let commitSeal = SignWithoutHashing backend
       (PrepareSeal (keccak256 cr) (bHeader block) (sealRound (rsRound s)) SealTypeCommit);
     let commit = NewCommit (vSequence (subView sub)) (vRound (subView sub)) (subDigest sub) commitSeal;
     (sent, c) \<leftarrow> signAndBroadcast backend (SetSource (coreAddress c) (MCommit commit)) Some c;
     Some c }"

text \<open>The prepare messages that justify a prepared block, added to a signed ROUND-CHANGE.\<close>

fun extendRoundChange :: "Prepare list option \<Rightarrow> WBFTMessage \<Rightarrow> WBFTMessage option" where
  "extendRoundChange (Some ps) (MRoundChange m) = Some (MRoundChange (m\<lparr>Justification := ps\<rparr>))"
| "extendRoundChange _ m = Some m"

definition broadcastRoundChange :: "Crypto \<Rightarrow> Backend \<Rightarrow> int \<Rightarrow> Core \<Rightarrow> Core option" where
  "broadcastRoundChange cr backend rd c = do {
     c \<leftarrow> newRetrySendingRoundChangeTimer c;
     s \<leftarrow> current c;
     if bigCmp (rsRound s) rd > 0 then Some c
     else do {
       let roundChange = NewRoundChange (keccak256 cr) (rsSequence s) rd (preparedRound s) (preparedBlock s);
       (sent, c) \<leftarrow> signAndBroadcast backend (MRoundChange roundChange) (extendRoundChange (WBFTPreparedPrepares c)) c;
       Some c } }"

definition broadcastNextRoundChange :: "Crypto \<Rightarrow> Backend \<Rightarrow> Core \<Rightarrow> Core option" where
  "broadcastNextRoundChange cr backend c = do {
     cv \<leftarrow> currentView c;
     broadcastRoundChange cr backend (vRound cv + 1) c }"

text \<open>The signed parts of collected ROUND-CHANGE messages; a message of another type is a panic.\<close>

fun signedParts :: "WBFTMessage list \<Rightarrow> SignedRoundChangePayload list option" where
  "signedParts [] = Some []"
| "signedParts (m # ms) = do {
     rc \<leftarrow> asRoundChange m;
     rest \<leftarrow> signedParts ms;
     Some (SignedRoundChangePayload.truncate rc # rest) }"

definition extendPreprepare :: "wbftMsgSet option \<Rightarrow> Prepare list option \<Rightarrow> WBFTMessage \<Rightarrow> WBFTMessage option" where
  "extendPreprepare rcs ps msg =
     (case msg of
        MPreprepare m \<Rightarrow> do {
          m \<leftarrow> (case rcs of None \<Rightarrow> Some m
                | Some ms \<Rightarrow> do { js \<leftarrow> signedParts (Values ms); Some (m\<lparr>JustificationRoundChanges := js\<rparr>) });
          Some (MPreprepare (case ps of None \<Rightarrow> m | Some ps \<Rightarrow> m\<lparr>JustificationPrepares := ps\<rparr>)) }
      | _ \<Rightarrow> Some msg)"

definition sendPreprepareMsg :: "Backend \<Rightarrow> Request \<Rightarrow> Core \<Rightarrow> Core option" where
  "sendPreprepareMsg backend request c = do {
     s \<leftarrow> current c;
     proposal \<leftarrow> reqProposal request;
     if bigCmp (rsSequence s) (Block_Number proposal) = 0 \<and> Core_IsProposer backend c
     then do {
       let preprepare = NewPreprepare (rsSequence s) (rsRound s) proposal;
       (sent, c) \<leftarrow> signAndBroadcast backend (SetSource (coreAddress c) (MPreprepare preprepare))
         (extendPreprepare (RCMessages request) (reqPrepareMessages request)) c;
       Some (if sent then c\<lparr>current := Some (s\<lparr>preprepareSent := rsRound s\<rparr>)\<rparr> else c) }
     else Some c }"

section \<open>Block proposal requests\<close>

definition checkRequestMsg :: "Core \<Rightarrow> Request \<Rightarrow> goError option" where
  "checkRequestMsg c request =
     (case reqProposal request of None \<Rightarrow> Some errInvalidMessage
      | Some proposal \<Rightarrow>
        (case current c of None \<Rightarrow> Some errCurrentIsNil
         | Some s \<Rightarrow>
           let cmp = bigCmp (rsSequence s) (Block_Number proposal)
           in if cmp > 0 then Some errOldMessage else if cmp < 0 then Some errFutureMessage else None))"

definition storeRequestMsg :: "Request \<Rightarrow> Core \<Rightarrow> Core option" where
  "storeRequestMsg request c = do {
     proposal \<leftarrow> reqProposal request;
     q \<leftarrow> Push (pendingRequests c) request (sint (- bigUint64 (Block_Number proposal)));
     Some (c\<lparr>pendingRequests := q\<rparr>) }"

fun drainRequests :: "nat \<Rightarrow> Core \<Rightarrow> Core option" where
  "drainRequests 0 c = None"
| "drainRequests (Suc fuel) c =
    (if Empty (pendingRequests c) then Some c
     else do {
       ((r, prio), q) \<leftarrow> Pop (pendingRequests c);
       let err = checkRequestMsg c r;
       if err = Some errFutureMessage
       then do { q \<leftarrow> Push q r prio; Some (c\<lparr>pendingRequests := q\<rparr>) }
       else do {
         proposal \<leftarrow> reqProposal r;
         if err \<noteq> None then drainRequests fuel (c\<lparr>pendingRequests := q\<rparr>)
         else drainRequests fuel (sendEvent (RequestEvent (Some proposal)) (c\<lparr>pendingRequests := q\<rparr>)) } })"

definition processPendingRequests :: "Core \<Rightarrow> Core option" where
  "processPendingRequests c = drainRequests (nat (PrqueSize (pendingRequests c)) + 1) c"

definition handleRequest :: "Backend \<Rightarrow> Request \<Rightarrow> Core \<Rightarrow> (goError option \<times> Core) option" where
  "handleRequest backend request c =
     (case checkRequestMsg c request of
        Some err \<Rightarrow> if err = errInvalidMessage then Some (Some err, c)
                    else do { p \<leftarrow> reqProposal request; Some (Some err, c) }
      | None \<Rightarrow> do {
          s \<leftarrow> current c;
          let s = s\<lparr>pendingRequest := Some request\<rparr>;
          let c = c\<lparr>current := Some s\<rparr>;
          c \<leftarrow> (if coreState c = StateAcceptRequest \<and> bigUint64 (rsRound s) = 0
                then sendPreprepareMsg backend request c else Some c);
          Some (None, c) })"

section \<open>Changing state and round\<close>

definition setState :: "State \<Rightarrow> Core \<Rightarrow> Core option" where
  "setState st c = do {
     let c = c\<lparr>coreState := st\<rparr>;
     c \<leftarrow> (if st = StateAcceptRequest then processPendingRequests c else Some c);
     processBacklog c }"

definition updateRoundState :: "Crypto \<Rightarrow> Backend \<Rightarrow> defaultSet \<Rightarrow> View \<Rightarrow> bool \<Rightarrow> Core \<Rightarrow> Core option" where
  "updateRoundState cr backend nextValSet view roundChange c = do {
     c \<leftarrow> (case current c of
         Some s \<Rightarrow>
           if roundChange then
             let bad = (case preparedBlock s of None \<Rightarrow> False
                        | Some b \<Rightarrow> HasBadProposal backend (Block_Hash (keccak256 cr) b));
                 s' = (if bad then s\<lparr>preparedRound := None, preparedBlock := None\<rparr> else s);
                 c' = (if bad then ClearExtraSeals (rsSequence s + 1) c else c)
             in Some (c'\<lparr>current := Some (newRoundState view nextValSet (rsPreprepare s') (preparedRound s')
                  (preparedBlock s') (pendingRequest s'))\<rparr>)
           else do {
             c \<leftarrow> updatePriorState c;
             Some (c\<lparr>current := Some (newRoundState view nextValSet None None None None)\<rparr>) }
       | None \<Rightarrow> Some (c\<lparr>current := Some (newRoundState view nextValSet None None None None)\<rparr>));
     Some (c\<lparr>valSet := Some nextValSet\<rparr>) }"

text \<open>Which kind of round \<open>startNewRound\<close> starts: none, the first of a new sequence, or a later one of
  the current sequence.\<close>

datatype RoundKind = NoRound | NewSequence | RoundChangeTo

definition roundKind :: "Block option \<Rightarrow> int \<Rightarrow> Core \<Rightarrow> RoundKind option" where
  "roundKind lastProposal rd c =
     (case current c of
        None \<Rightarrow> Some NewSequence
      | Some s \<Rightarrow> do {
          lp \<leftarrow> lastProposal;
          Some (if bigCmp (Block_Number lp) (rsSequence s) \<ge> 0 then NewSequence
                else if bigCmp (Block_Number lp) (sint (bigUint64 (rsSequence s) - 1)) = 0
                then (if bigCmp rd 0 = 0 then NoRound
                      else if bigCmp rd (rsRound s) < 0 then NoRound else RoundChangeTo)
                else NoRound) })"

text \<open>The view and the validators of the round to be started.\<close>

definition nextView :: "Backend \<Rightarrow> Block option \<Rightarrow> int \<Rightarrow> bool \<Rightarrow> Core \<Rightarrow> (View \<times> defaultSet \<times> Core) option" where
  "nextView backend lastProposal rd roundChange c =
     (if roundChange
      then do {
        s \<leftarrow> current c;
        vs \<leftarrow> valSet c;
        Some (\<lparr>vRound = rd, vSequence = rsSequence s\<rparr>, vs, c) }
      else do {
        lp \<leftarrow> lastProposal;
        c \<leftarrow> addEffectiveSealToExtraSeal c;
        Some (\<lparr>vRound = 0, vSequence = Block_Number lp + 1\<rparr>, backendValidators backend lp, c) })"

definition resetRoundChanges :: "Block option \<Rightarrow> int \<Rightarrow> Core \<Rightarrow> Core option" where
  "resetRoundChanges lastProposal rd c = do {
     c \<leftarrow> (if bigUint64 rd = 0
           then do {
             lp \<leftarrow> lastProposal;
             vs \<leftarrow> valSet c;
             Some (ClearExtraSeals (Block_Number lp)
               (c\<lparr>WBFTPreparedPrepares := None, rcSet := Some (newRoundChangeSet vs)\<rparr>)) }
           else do {
             rcs \<leftarrow> rcSet c;
             Some (c\<lparr>rcSet := Some (ClearLowerThan rd rcs)\<rparr>) });
     rcs \<leftarrow> rcSet c;
     Some (c\<lparr>rcSet := Some (NewRound rd rcs)\<rparr>) }"

definition startNewRound :: "Crypto \<Rightarrow> Backend \<Rightarrow> int \<Rightarrow> Core \<Rightarrow> Core option" where
  "startNewRound cr backend rd c = do {
     let (lastProposal, lastProposer) = LastProposal backend;
     kind \<leftarrow> roundKind lastProposal rd c;
     if kind = NoRound then Some c
     else do {
       (if current c = None then Some () else do { vs \<leftarrow> valSet c; Some () });
       let roundChange = (kind = RoundChangeTo);
       (newView, nextValSet, c) \<leftarrow> nextView backend lastProposal rd roundChange c;
       c \<leftarrow> updateRoundState cr backend nextValSet newView roundChange c;
       vs \<leftarrow> valSet c;
       let c = c\<lparr>valSet := Some (CalcProposer vs lastProposer (bigUint64 (vRound newView)))\<rparr>;
       c \<leftarrow> setState StateAcceptRequest c;
       c \<leftarrow> resetRoundChanges lastProposal rd c;
       let c = emit (NotifyNewRound rd) c;
       s \<leftarrow> current c;
       newRoundChangeTimer (Some (rsSequence s)) (Some (rsRound s)) c } }"

end
