(* ===== verification/Core_Handlers.thy ===== *)
theory Core_Handlers
  imports Core_Rounds
begin

text \<open>
  Handling of events (\<open>core/handler.go\<close>, \<open>core/final_committed.go\<close>) and of the four protocol messages
  (the receiving halves of \<open>core/preprepare.go\<close>, \<open>core/prepare.go\<close>, \<open>core/commit.go\<close> and
  \<open>core/roundchange.go\<close>). A handler returns the error of the Go function and the new state.
\<close>

section \<open>PRE-PREPARE\<close>

definition handlePreprepareMsg :: "Crypto \<Rightarrow> Backend \<Rightarrow> Preprepare \<Rightarrow> Core \<Rightarrow> (goError option \<times> Core) option" where
  "handlePreprepareMsg cr backend m c = do {
     vs \<leftarrow> valSet c;
     if \<not> IsProposer vs (pSource m) then do { p \<leftarrow> GetProposer vs; Some (Some errNotFromProposer, c) }
     else if bigCmp (pSequence m) (Block_Number (Proposal m)) \<noteq> 0 then Some (Some errInvalidPreparedBlock, c)
     else if bigUint64 (pRound m) > 0
             \<and> isJustified (keccak256 cr) (Proposal m) (payloadView m) (JustificationRoundChanges m)
                  (JustificationPrepares m) (QuorumSize vs) \<noteq> None
     then Some (Some errInvalidPreparedBlock, c)
     else case backendVerify backend (Proposal m) of
         (duration, Some err) \<Rightarrow>
           Some (Some err,
             if err = ErrFutureBlock
             then (stopFuturePreprepareTimer c)\<lparr>futurePreprepareTimer := Some (m, duration)\<rparr> else c)
       | (duration, None) \<Rightarrow>
           if coreState c = StateAcceptRequest
           then do {
             c \<leftarrow> newRoundChangeTimer (map_option rsSequence (current c)) (map_option rsRound (current c)) c;
             s \<leftarrow> current c;
             c \<leftarrow> setState StatePreprepared (c\<lparr>current := Some (SetPreprepare m s)\<rparr>);
             c \<leftarrow> broadcastPrepare cr backend c;
             Some (None, c) }
           else Some (None, c) }"

text \<open>The function run when the timer of a future block fires.\<close>

definition futurePreprepareFires :: "Core \<Rightarrow> Core option" where
  "futurePreprepareFires c =
     (case futurePreprepareTimer c of None \<Rightarrow> Some c
      | Some (m, duration) \<Rightarrow> do {
          vs \<leftarrow> valSet c;
          Some (sendEvent (BacklogEvent (snd (GetByAddress vs (pSource m))) (MPreprepare m))
            (c\<lparr>futurePreprepareTimer := None\<rparr>)) })"

section \<open>PREPARE\<close>

fun preparedPrepares :: "WBFTMessage list \<Rightarrow> Prepare list option" where
  "preparedPrepares [] = Some []"
| "preparedPrepares (m # ms) = do {
     p \<leftarrow> asPrepare m;
     rest \<leftarrow> preparedPrepares ms;
     Some (NewPrepareWithSigAndSource (vSequence (msgView m)) (vRound (msgView m)) (Digest p) (msgSignature m)
       (Source m) (prSeal p) # rest) }"

definition handlePrepareMsg :: "Crypto \<Rightarrow> Backend \<Rightarrow> Prepare \<Rightarrow> Core \<Rightarrow> (goError option \<times> Core) option" where
  "handlePrepareMsg cr backend m c = do {
     s \<leftarrow> current c;
     vs \<leftarrow> valSet c;
     block \<leftarrow> rsProposal s;
     if Digest m \<noteq> Block_Hash (keccak256 cr) block then Some (Some errInvalidMessage, c)
     else do {
       err \<leftarrow> verifySeal cr (Some vs) (bHeader block) (sealRound (pRound m)) SealTypePrepare (prSeal m) (pSource m);
       if err \<noteq> None then Some (Some errInvalidMessage, c)
       else do {
         let s = s\<lparr>WBFTPrepares := MsgSet_Add (MPrepare m) (WBFTPrepares s)\<rparr>;
         let c = c\<lparr>current := Some s\<rparr>;
         if MsgSet_Size (WBFTPrepares s) \<ge> QuorumSize vs \<and> State_Cmp (coreState c) StatePrepared < 0
         then do {
           ps \<leftarrow> preparedPrepares (Values (WBFTPrepares s));
           let s = s\<lparr>preparedRound := Some (rsRound s)\<rparr>;
           let s = (if Block_Hash (keccak256 cr) block = Digest m then s\<lparr>preparedBlock := Some block\<rparr> else s);
           c \<leftarrow> setState StatePrepared (c\<lparr>current := Some s, WBFTPreparedPrepares := Some ps\<rparr>);
           c \<leftarrow> broadcastCommit cr backend c;
           Some (None, c) }
         else Some (None, c) } } }"

section \<open>COMMIT\<close>

definition sealBytes :: "bytes \<Rightarrow> bytes" where
  "sealBytes seal = take IstanbulExtraSeal (seal @ replicate IstanbulExtraSeal 0)"

definition sealDataOf :: "defaultSet \<Rightarrow> address \<Rightarrow> bytes \<Rightarrow> SealData" where
  "sealDataOf vs src seal =
    (let idx = fst (GetByAddress vs src)
     in if idx < 0 then \<lparr>Sealer = 0, sdSeal = []\<rparr> else \<lparr>Sealer = word_of_int idx, sdSeal = sealBytes seal\<rparr>)"

fun preparedSealsOf :: "defaultSet \<Rightarrow> WBFTMessage list \<Rightarrow> SealData list option" where
  "preparedSealsOf vs [] = Some []"
| "preparedSealsOf vs (m # ms) = do {
     sd \<leftarrow> (if fst (GetByAddress vs (Source m)) < 0 then Some (sealDataOf vs (Source m) [])
           else map_option (\<lambda>p. sealDataOf vs (Source m) (prSeal p)) (asPrepare m));
     rest \<leftarrow> preparedSealsOf vs ms;
     Some (sd # rest) }"

fun committedSealsOf :: "defaultSet \<Rightarrow> WBFTMessage list \<Rightarrow> SealData list option" where
  "committedSealsOf vs [] = Some []"
| "committedSealsOf vs (m # ms) = do {
     sd \<leftarrow> (if fst (GetByAddress vs (Source m)) < 0 then Some (sealDataOf vs (Source m) [])
           else map_option (\<lambda>p. sealDataOf vs (Source m) (CommitSeal p)) (asCommit m));
     rest \<leftarrow> committedSealsOf vs ms;
     Some (sd # rest) }"

definition commitWBFT :: "Crypto \<Rightarrow> Backend \<Rightarrow> Core \<Rightarrow> Core option" where
  "commitWBFT cr backend c = do {
     c \<leftarrow> setState StateCommitted c;
     s \<leftarrow> current c;
     case rsProposal s of None \<Rightarrow> Some c
     | Some proposal \<Rightarrow> do {
         vs \<leftarrow> valSet c;
         preparedSeals \<leftarrow> preparedSealsOf vs (Values (WBFTPrepares s));
         committedSeals \<leftarrow> committedSealsOf vs (Values (WBFTCommits s));
         let c = emit (CommitBlock proposal preparedSeals committedSeals (rsRound s)) c;
         if backendCommit backend proposal preparedSeals committedSeals (rsRound s) \<noteq> None
         then broadcastNextRoundChange cr backend c else Some c } }"

definition handleCommitMsg :: "Crypto \<Rightarrow> Backend \<Rightarrow> Commit \<Rightarrow> Core \<Rightarrow> (goError option \<times> Core) option" where
  "handleCommitMsg cr backend m c = do {
     s \<leftarrow> current c;
     vs \<leftarrow> valSet c;
     block \<leftarrow> rsProposal s;
     if cDigest m \<noteq> Block_Hash (keccak256 cr) block then Some (Some errInvalidMessage, c)
     else do {
       err \<leftarrow> verifySeal cr (Some vs) (bHeader block) (sealRound (pRound m)) SealTypeCommit (CommitSeal m) (pSource m);
       if err \<noteq> None then Some (Some errInvalidMessage, c)
       else do {
         let s = s\<lparr>WBFTCommits := MsgSet_Add (MCommit m) (WBFTCommits s)\<rparr>;
         let c = c\<lparr>current := Some s\<rparr>;
         c \<leftarrow> (if MsgSet_Size (WBFTCommits s) \<ge> QuorumSize vs then commitWBFT cr backend c else Some c);
         Some (None, c) } } }"

section \<open>ROUND-CHANGE\<close>

text \<open>The certificate a ROUND-CHANGE message carries, if it has one: prepared round, block and PREPAREs.\<close>

definition roundChangeCertificate :: "Crypto \<Rightarrow> View \<Rightarrow> RoundChange \<Rightarrow>
    goError + (int option \<times> Block option \<times> Prepare list)" where
  "roundChangeCertificate cr cv m =
     (case (PreparedRound m, PreparedBlock m) of
        (Some pr, Some pb) \<Rightarrow>
          if Justification m = [] then Inr (None, None, [])
          else if bigCmp (Block_Number pb) (vSequence cv) \<noteq> 0
          then Inl (ErrorNew ''prepared block number does not match current sequence'')
          else if Block_Hash (keccak256 cr) pb \<noteq> PreparedDigest m
          then Inl (ErrorNew ''prepared block hash does not match prepared digest in ROUND-CHANGE message'')
          else Inr (Some pr, Some pb, Justification m)
      | _ \<Rightarrow> Inr (None, None, []))"

definition addRoundChange :: "Crypto \<Rightarrow> RoundChange \<Rightarrow> Core \<Rightarrow> (goError option \<times> Core) option" where
  "addRoundChange cr m c = do {
     cv \<leftarrow> currentView c;
     rcs \<leftarrow> rcSet c;
     if bigCmp (pRound m) (vRound cv) \<ge> 0
     then (case roundChangeCertificate cr cv m of
         Inl err \<Rightarrow> Some (Some err, c)
       | Inr (pr, pb, prepares) \<Rightarrow> do {
           vs \<leftarrow> valSet c;
           rcs \<leftarrow> Rcs_Add (pRound m) (MRoundChange m) pr pb prepares (QuorumSize vs) rcs;
           Some (None, c\<lparr>rcSet := Some rcs\<rparr>) })
     else Some (None, c) }"

text \<open>The proposer of the current round has a quorum of ROUND-CHANGE messages for it.\<close>

definition proposeJustified :: "Crypto \<Rightarrow> Backend \<Rightarrow> Core \<Rightarrow> (goError option \<times> Core) option" where
  "proposeJustified cr backend c = do {
     s \<leftarrow> current c;
     vs \<leftarrow> valSet c;
     rcs \<leftarrow> rcSet c;
     let rd = rsRound s;
     let request = pendingRequest s;
     case (case snd (rcsHighestPrepared rd rcs) of
             Some b \<Rightarrow> Some (Some b) | None \<Rightarrow> map_option reqProposal request) of
       None \<Rightarrow> Some (Some (ErrorNew ''no proposal as pending request is nil''), c)
     | Some proposal \<Rightarrow> do {
         rms \<leftarrow> mapGet (roundChanges rcs) (bigUint64 rd);
         js \<leftarrow> signedParts (Values rms);
         let prepares = mapGet (prepareMessages rcs) (bigUint64 rd);
         block \<leftarrow> proposal;
         if isJustified (keccak256 cr) block \<lparr>vRound = rd, vSequence = rsSequence s\<rparr> js
              (case prepares of None \<Rightarrow> [] | Some ps \<Rightarrow> ps) (QuorumSize vs) \<noteq> None
         then Some (None, c)
         else do {
           c \<leftarrow> sendPreprepareMsg backend
             \<lparr>reqProposal = Some block, RCMessages = Some rms, reqPrepareMessages = prepares\<rparr> c;
           Some (None, c) } } }"

definition handleRoundChangeMsg :: "Crypto \<Rightarrow> Backend \<Rightarrow> RoundChange \<Rightarrow> Core \<Rightarrow> (goError option \<times> Core) option" where
  "handleRoundChangeMsg cr backend m c = do {
     cv \<leftarrow> currentView c;
     let currentRound = vRound cv;
     (err, c) \<leftarrow> addRoundChange cr m c;
     if err \<noteq> None then Some (err, c)
     else do {
       rcs \<leftarrow> rcSet c;
       vs \<leftarrow> valSet c;
       s \<leftarrow> current c;
       let num = higherRoundMessages currentRound rcs;
       if of_int num > F vs \<and> of_int num \<le> F vs + 1
       then do {
         let newRound = getMinRoundChange currentRound rcs;
         c \<leftarrow> startNewRound cr backend newRound c;
         c \<leftarrow> broadcastRoundChange cr backend newRound c;
         Some (None, c) }
       else if getRCMessagesForGivenRound currentRound rcs \<ge> QuorumSize vs \<and> Core_IsProposer backend c
               \<and> bigCmp (preprepareSent s) currentRound < 0
       then proposeJustified cr backend c
       else Some (None, c) } }"

section \<open>Signatures\<close>

text \<open>Each verification yields the source that the message or payload is then given.\<close>

definition verifyPart :: "Crypto \<Rightarrow> Core \<Rightarrow> bytes option \<Rightarrow> bytes \<Rightarrow> View \<Rightarrow> (goError + address) option" where
  "verifyPart cr c payload sig view =
     (case payload of
        None \<Rightarrow> Some (Inl (ErrorNew ''rlp: cannot encode negative big.Int''))
      | Some payload \<Rightarrow> do {
          res \<leftarrow> checkValidatorSignature cr c payload sig view;
          Some (case res of Inl e \<Rightarrow> Inl errInvalidSigner | Inr source \<Rightarrow> Inr source) })"

fun verifyPrepares :: "Crypto \<Rightarrow> Core \<Rightarrow> Prepare list \<Rightarrow> (goError + Prepare list) option" where
  "verifyPrepares cr c [] = Some (Inr [])"
| "verifyPrepares cr c (p # ps) = do {
     res \<leftarrow> verifyPart cr c (Prepare_signing p) (pSignature p) (payloadView p);
     case res of Inl e \<Rightarrow> Some (Inl e)
     | Inr source \<Rightarrow> do {
         rest \<leftarrow> verifyPrepares cr c ps;
         Some (case rest of Inl e \<Rightarrow> Inl e | Inr ps \<Rightarrow> Inr (p\<lparr>pSource := source\<rparr> # ps)) } }"

fun verifyRoundChanges :: "Crypto \<Rightarrow> Core \<Rightarrow> SignedRoundChangePayload list \<Rightarrow>
    (goError + SignedRoundChangePayload list) option" where
  "verifyRoundChanges cr c [] = Some (Inr [])"
| "verifyRoundChanges cr c (p # ps) = do {
     res \<leftarrow> verifyPart cr c (SignedRoundChange_signing p) (pSignature p) (payloadView p);
     case res of Inl e \<Rightarrow> Some (Inl e)
     | Inr source \<Rightarrow> do {
         rest \<leftarrow> verifyRoundChanges cr c ps;
         Some (case rest of Inl e \<Rightarrow> Inl e | Inr ps \<Rightarrow> Inr (p\<lparr>pSource := source\<rparr> # ps)) } }"

definition verifyJustification :: "Crypto \<Rightarrow> Core \<Rightarrow> WBFTMessage \<Rightarrow> (goError + WBFTMessage) option" where
  "verifyJustification cr c m =
     (case m of
        MRoundChange rc \<Rightarrow> do {
          res \<leftarrow> verifyPrepares cr c (Justification rc);
          Some (case res of Inl e \<Rightarrow> Inl e | Inr ps \<Rightarrow> Inr (MRoundChange (rc\<lparr>Justification := ps\<rparr>))) }
      | MPreprepare p \<Rightarrow> do {
          res \<leftarrow> verifyRoundChanges cr c (JustificationRoundChanges p);
          case res of Inl e \<Rightarrow> Some (Inl e)
          | Inr rcs \<Rightarrow> do {
              res \<leftarrow> verifyPrepares cr c (JustificationPrepares p);
              Some (case res of Inl e \<Rightarrow> Inl e
                | Inr ps \<Rightarrow> Inr (MPreprepare (p\<lparr>JustificationRoundChanges := rcs, JustificationPrepares := ps\<rparr>))) } }
      | _ \<Rightarrow> Some (Inr m))"

definition verifySignatures :: "Crypto \<Rightarrow> Core \<Rightarrow> WBFTMessage \<Rightarrow> (goError + WBFTMessage) option" where
  "verifySignatures cr c m = do {
     res \<leftarrow> verifyPart cr c (EncodePayloadForSigning m) (msgSignature m) (msgView m);
     case res of Inl e \<Rightarrow> Some (Inl e)
     | Inr source \<Rightarrow> verifyJustification cr c (SetSource source m) }"

section \<open>Events\<close>

fun asPreprepare :: "WBFTMessage \<Rightarrow> Preprepare option" where
  "asPreprepare (MPreprepare m) = Some m"
| "asPreprepare _ = None"

definition deliverMessage :: "Crypto \<Rightarrow> Backend \<Rightarrow> WBFTMessage \<Rightarrow> Core \<Rightarrow> (goError option \<times> Core) option" where
  "deliverMessage cr backend m c =
     (if Code m = PreprepareCode then do { p \<leftarrow> asPreprepare m; handlePreprepareMsg cr backend p c }
      else if Code m = PrepareCode then do { p \<leftarrow> asPrepare m; handlePrepareMsg cr backend p c }
      else if Code m = CommitCode then do { p \<leftarrow> asCommit m; handleCommitMsg cr backend p c }
      else if Code m = RoundChangeCode then do { p \<leftarrow> asRoundChange m; handleRoundChangeMsg cr backend p c }
      else Some (Some errInvalidMessage, c))"

definition handleDecodedMessage :: "Crypto \<Rightarrow> Backend \<Rightarrow> WBFTMessage \<Rightarrow> Core \<Rightarrow> (goError option \<times> Core) option" where
  "handleDecodedMessage cr backend m c = do {
     err \<leftarrow> checkMessage c (Code m) (msgView m);
     case err of
       None \<Rightarrow> deliverMessage cr backend m c
     | Some e \<Rightarrow>
         if e = errFutureMessage then do { c \<leftarrow> addToBacklog m c; Some (Some e, c) }
         else if e = errExtraSealMessage then addToExtraSeal cr m c
         else Some (Some e, c) }"

definition handleEncodedMsg :: "Crypto \<Rightarrow> Backend \<Rightarrow> uint64 \<Rightarrow> bytes \<Rightarrow> Core \<Rightarrow> (goError option \<times> Core) option" where
  "handleEncodedMsg cr backend code data c =
     (if code \<notin> MessageCodes then Some (Some (ErrorNew ''invalid message event code''), c)
      else case Decode (keccak256 cr) code data of
          Inl e \<Rightarrow> Some (Some e, c)
        | Inr m \<Rightarrow> do {
            res \<leftarrow> verifySignatures cr c m;
            case res of Inl e \<Rightarrow> Some (Some e, c)
            | Inr m \<Rightarrow> handleDecodedMessage cr backend m c })"

definition handleTimeoutMsg :: "Crypto \<Rightarrow> Backend \<Rightarrow> Core \<Rightarrow> Core option" where
  "handleTimeoutMsg cr backend c = do {
     s \<leftarrow> current c;
     let nextRound = rsRound s + 1;
     c \<leftarrow> startNewRound cr backend nextRound c;
     broadcastRoundChange cr backend nextRound c }"

definition handleFinalCommittedMsg :: "Crypto \<Rightarrow> Backend \<Rightarrow> Core \<Rightarrow> Core option" where
  "handleFinalCommittedMsg cr backend c = startNewRound cr backend 0 c"

fun handleEvent :: "Crypto \<Rightarrow> Backend \<Rightarrow> CoreEvent \<Rightarrow> Core \<Rightarrow> Core option" where
  "handleEvent cr backend (RequestEvent proposal) c = do {
     let r = \<lparr>reqProposal = proposal, RCMessages = None, reqPrepareMessages = None\<rparr>;
     (err, c) \<leftarrow> handleRequest backend r c;
     if err = Some errFutureMessage then storeRequestMsg r c else Some c }"
| "handleEvent cr backend (MessageEvent code payload) c = do {
     (err, c) \<leftarrow> handleEncodedMsg cr backend code payload c;
     if err \<noteq> None then Some c else do { vs \<leftarrow> valSet c; Some (emit (Gossip code payload) c) } }"
| "handleEvent cr backend (BacklogEvent src m) c = do {
     (err, c) \<leftarrow> handleDecodedMessage cr backend m c;
     if err \<noteq> None then Some c
     else case EncodeMsg m of None \<Rightarrow> Some c
       | Some data \<Rightarrow> do { vs \<leftarrow> valSet c; Some (emit (Gossip (Code m) data) c) } }"
| "handleEvent cr backend (TimeoutEvent canceled) c =
     (if canceled \<in> canceledFlags c then Some c else handleTimeoutMsg cr backend c)"
| "handleEvent cr backend FinalCommittedEvent c = handleFinalCommittedMsg cr backend c"
| "handleEvent cr backend (RetryTimeoutEvent rd) c = broadcastRoundChange cr backend rd c"

definition Start :: "Crypto \<Rightarrow> Backend \<Rightarrow> Core \<Rightarrow> Core option" where
  "Start cr backend c = startNewRound cr backend 0 c"

definition Stop :: "Core \<Rightarrow> Core" where
  "Stop c = (stopTimer c)\<lparr>current := None\<rparr>"

end
