(* ===== verification/Core_Frames.thy ===== *)
theory Core_Frames
  imports Core_Handlers
begin

text \<open>
  What the parts of an event handler leave alone. \<open>quiet\<close> relates states that agree on everything votes
  depend on; timers, queues and posted events are quiet.
\<close>

section \<open>Quiet steps\<close>

definition quiet :: "Core \<Rightarrow> Core \<Rightarrow> bool" where
  "quiet c c' \<longleftrightarrow> current c' = current c \<and> coreState c' = coreState c \<and> valSet c' = valSet c
     \<and> rcSet c' = rcSet c \<and> outbox c' = outbox c \<and> coreAddress c' = coreAddress c"

lemma quiet_refl [simp]: "quiet c c"
  by (simp add: quiet_def)

lemma quiet_trans: "quiet c c1 \<Longrightarrow> quiet c1 c2 \<Longrightarrow> quiet c c2"
  by (simp add: quiet_def)

lemma quiet_stopTimer: "quiet c (stopTimer c)"
  by (simp add: quiet_def timer_defs split: option.splits)

lemma quiet_newRoundChangeTimer:
  assumes "newRoundChangeTimer seq rd c = Some c'"
  shows "quiet c c'"
  using assms quiet_stopTimer [of c]
  by (auto simp: newRoundChangeTimer_def Let_def bind_eq_Some_conv quiet_def split: option.splits)

lemma quiet_newRetry:
  assumes "newRetrySendingRoundChangeTimer c = Some c'"
  shows "quiet c c'"
  using assms by (auto simp: newRetrySendingRoundChangeTimer_def timer_defs bind_eq_Some_conv quiet_def
    split: option.splits)

lemma quiet_processSource:
  assumes "processSource a q c = Some c'"
  shows "quiet c c'"
  using assms by (auto simp: processSource_def bind_eq_Some_conv Let_def quiet_def split: option.splits)

lemma quiet_processBacklogs: "processBacklogs L c = Some c' \<Longrightarrow> quiet c c'"
  by (induction L c rule: processBacklogs.induct)
    (auto simp: bind_eq_Some_conv intro: quiet_trans dest: quiet_processSource)

lemma quiet_processBacklog: "processBacklog c = Some c' \<Longrightarrow> quiet c c'"
  using quiet_processBacklogs by (simp add: processBacklog_def)

lemma quiet_drainRequests: "drainRequests fuel c = Some c' \<Longrightarrow> quiet c c'"
proof (induction fuel arbitrary: c)
  case (Suc fuel)
  have upd: "quiet c (c\<lparr>pendingRequests := q\<rparr>)" "quiet c (sendEvent e (c\<lparr>pendingRequests := q\<rparr>))" for q e
    by (simp_all add: quiet_def sendEvent_def)
  show ?case using Suc.prems
    by (auto simp: bind_eq_Some_conv Let_def split: if_splits intro: upd quiet_trans [OF upd(1)] quiet_trans [OF upd(2)]
      dest!: Suc.IH)
qed simp

lemma quiet_processPendingRequests: "processPendingRequests c = Some c' \<Longrightarrow> quiet c c'"
  unfolding processPendingRequests_def by (rule quiet_drainRequests)

lemma setState_quiet:
  assumes "setState st c = Some c'"
  shows "quiet (c\<lparr>coreState := st\<rparr>) c'"
  using assms quiet_processPendingRequests quiet_processBacklog
  by (fastforce simp: setState_def Let_def bind_eq_Some_conv split: if_splits intro: quiet_trans)

lemma quiet_addToBacklog: "addToBacklog m c = Some c' \<Longrightarrow> quiet c c'"
  using addToBacklog_frame by (fastforce simp: quiet_def)

lemma quiet_ClearExtraSeals: "quiet c (ClearExtraSeals n c)"
  by (simp add: ClearExtraSeals_def quiet_def)

lemma quiet_addPrepareSeals: "addPrepareSeals ms c = Some c' \<Longrightarrow> quiet c c'"
  by (induction ms c rule: addPrepareSeals.induct)
    (auto simp: bind_eq_Some_conv addToPrepareExtraSeal_def quiet_def)

lemma quiet_addCommitSeals: "addCommitSeals ms c = Some c' \<Longrightarrow> quiet c c'"
  by (induction ms c rule: addCommitSeals.induct)
    (auto simp: bind_eq_Some_conv addToCommitExtraSeal_def quiet_def)

lemma quiet_addEffectiveSeal: "addEffectiveSealToExtraSeal c = Some c' \<Longrightarrow> quiet c c'"
  using quiet_addPrepareSeals quiet_addCommitSeals
  by (fastforce simp: addEffectiveSealToExtraSeal_def bind_eq_Some_conv split: option.splits intro: quiet_trans)

lemma quiet_addToExtraSeal:
  assumes "addToExtraSeal cr m c = Some (err, c')"
  shows "quiet c c'"
  using assms
  by (cases m) (auto simp: addToExtraSeal_def bind_eq_Some_conv addToPrepareExtraSeal_def addToCommitExtraSeal_def
    quiet_def split: option.splits if_splits)

lemma quiet_storeRequestMsg: "storeRequestMsg r c = Some c' \<Longrightarrow> quiet c c'"
  by (auto simp: storeRequestMsg_def bind_eq_Some_conv quiet_def)

text \<open>Sending a message only adds to the outbox: the call of \<open>Sign\<close>, and the broadcast.\<close>

lemma signAndBroadcast_frame:
  assumes "signAndBroadcast backend m ext c = Some (sent, c')"
  shows "\<exists>xs. c' = c\<lparr>outbox := outbox c @ xs\<rparr>
    \<and> (xs = [] \<or> xs = [SignCall m] \<or> (\<exists>a b. xs = [SignCall m, Broadcast a b]))"
proof (cases "EncodePayloadForSigning m")
  case None
  then show ?thesis using assms by (intro exI [of _ "[]"]) (simp add: signAndBroadcast_def)
next
  case (Some e)
  let ?c = "c\<lparr>outbox := outbox c @ [SignCall m]\<rparr>"
  note def = assms [unfolded signAndBroadcast_def Some option.case Let_def emit_def]
  show ?thesis
  proof (cases "backendSign backend e")
    case None
    then show ?thesis using def by (intro exI [of _ "[SignCall m]"]) simp
  next
    case (Some sg)
    then obtain m' where m': "ext (SetSignature sg m) = Some m'"
      and rest: "(case EncodeMsg m' of None \<Rightarrow> Some (False, ?c)
        | Some payload \<Rightarrow> Option.bind (valSet ?c) (\<lambda>vs. Some (if backendBroadcast backend (Code m') payload \<noteq> None
            then (False, ?c) else (True, ?c\<lparr>outbox := outbox ?c @ [Broadcast m' payload]\<rparr>)))) = Some (sent, c')"
      using def by (simp only: option.case bind_eq_Some_conv) blast
    show ?thesis
    proof (cases "EncodeMsg m'")
      case None
      then show ?thesis using rest by (intro exI [of _ "[SignCall m]"]) simp
    next
      case (Some payload)
      then have "c' = ?c \<or> c' = ?c\<lparr>outbox := outbox ?c @ [Broadcast m' payload]\<rparr>"
        using rest by (simp add: bind_eq_Some_conv split: if_splits)
      then show ?thesis
      proof
        assume "c' = ?c"
        then show ?thesis by (intro exI [of _ "[SignCall m]"]) simp
      next
        assume "c' = ?c\<lparr>outbox := outbox ?c @ [Broadcast m' payload]\<rparr>"
        then show ?thesis by (intro exI [of _ "[SignCall m, Broadcast m' payload]"]) simp
      qed
    qed
  qed
qed

lemma signAndBroadcast_signed:
  assumes "signAndBroadcast backend m ext c = Some (sent, c')" "EncodePayloadForSigning m \<noteq> None"
  shows "SignCall m \<in> set (outbox c')"
  using assms by (auto simp: signAndBroadcast_def Let_def emit_def bind_eq_Some_conv split: option.splits if_splits)

end
