(* ===== verification/Voter.thy ===== *)
theory Voter
  imports Core_State
begin

text \<open>
  What one validator may vote for, abstracted from messages, queues and timers. The consensus core is
  shown to refine this voter in \<open>Core_Refinement\<close>; the rules that agreement between validators rests on
  are proved here, once, for every sequence of steps of the voter.

  The predicates \<open>J\<close>, \<open>P\<close> and \<open>C\<close> are what the voter needs to see before it accepts a proposal, commits
  to it and decides it. A voter is \<open>calm\<close> if it votes for a round change only into a round it has entered
  or from a round it has decided, and never gives up its lock within a sequence.
\<close>

section \<open>Votes and steps\<close>

datatype Vote =
    VPrepare int int hash
  | VCommit int int hash
  | VDecide int int hash
  | VRoundChange int int "(int \<times> hash) option"

record Voter =
  voSeq :: int
  voRound :: int
  voPhase :: State
  voAccepted :: "hash option"
  voLock :: "(int \<times> hash) option"
  voVotes :: "Vote list"

type_synonym evidence = "int \<Rightarrow> int \<Rightarrow> hash \<Rightarrow> bool"

inductive vstep :: "evidence \<Rightarrow> evidence \<Rightarrow> evidence \<Rightarrow> bool \<Rightarrow> Voter \<Rightarrow> Voter \<Rightarrow> bool" for J P C calm where
  newSequence: "voSeq v < s \<Longrightarrow>
     vstep J P C calm v (v\<lparr>voSeq := s, voRound := 0, voPhase := StateAcceptRequest, voAccepted := None, voLock := None\<rparr>)"
| newRound: "voRound v < r \<Longrightarrow>
     vstep J P C calm v (v\<lparr>voRound := r, voPhase := StateAcceptRequest, voAccepted := None\<rparr>)"
| unlock: "\<not> calm \<Longrightarrow> vstep J P C calm v (v\<lparr>voLock := None\<rparr>)"
| accept: "voPhase v = StateAcceptRequest \<Longrightarrow> J (voSeq v) (voRound v) d \<Longrightarrow>
     vstep J P C calm v (v\<lparr>voPhase := StatePreprepared, voAccepted := Some d,
       voVotes := voVotes v @ [VPrepare (voSeq v) (voRound v) d]\<rparr>)"
| commit: "voPhase v = StatePreprepared \<Longrightarrow> voAccepted v = Some d \<Longrightarrow> P (voSeq v) (voRound v) d \<Longrightarrow>
     vstep J P C calm v (v\<lparr>voPhase := StatePrepared, voLock := Some (voRound v, d),
       voVotes := voVotes v @ [VCommit (voSeq v) (voRound v) d]\<rparr>)"
| decide: "voPhase v = StatePrepared \<Longrightarrow> voAccepted v = Some d \<Longrightarrow> C (voSeq v) (voRound v) d \<Longrightarrow>
     vstep J P C calm v (v\<lparr>voPhase := StateCommitted,
       voVotes := voVotes v @ [VDecide (voSeq v) (voRound v) d]\<rparr>)"
| roundChange: "voRound v \<le> r \<Longrightarrow>
     (calm \<Longrightarrow> r = voRound v \<or> r = voRound v + 1 \<and> voPhase v = StateCommitted) \<Longrightarrow>
     vstep J P C calm v (v\<lparr>voVotes := voVotes v @ [VRoundChange (voSeq v) r (voLock v)]\<rparr>)"

abbreviation vsteps :: "evidence \<Rightarrow> evidence \<Rightarrow> evidence \<Rightarrow> bool \<Rightarrow> Voter \<Rightarrow> Voter \<Rightarrow> bool" where
  "vsteps J P C calm \<equiv> (vstep J P C calm)\<^sup>*\<^sup>*"

fun backed :: "evidence \<Rightarrow> evidence \<Rightarrow> evidence \<Rightarrow> Vote \<Rightarrow> bool" where
  "backed J P C (VPrepare s r d) \<longleftrightarrow> J s r d"
| "backed J P C (VCommit s r d) \<longleftrightarrow> P s r d"
| "backed J P C (VDecide s r d) \<longleftrightarrow> C s r d"
| "backed J P C (VRoundChange s r l) \<longleftrightarrow> True"

lemma vsteps_backed:
  assumes "vsteps J P C calm v v'"
  shows "\<exists>new. voVotes v' = voVotes v @ new \<and> (\<forall>x \<in> set new. backed J P C x)"
  using assms
proof (induction rule: rtranclp_induct)
  case (step v1 v2)
  then obtain new where new: "voVotes v1 = voVotes v @ new" "\<forall>x \<in> set new. backed J P C x" by blast
  from step.hyps(2) have "\<exists>more. voVotes v2 = voVotes v1 @ more \<and> (\<forall>x \<in> set more. backed J P C x)"
    by cases auto
  then obtain more where "voVotes v2 = voVotes v1 @ more" "\<forall>x \<in> set more. backed J P C x" by blast
  with new show ?case by (intro exI [of _ "new @ more"]) auto
qed simp

section \<open>The view only grows\<close>

definition viewLe :: "int \<Rightarrow> int \<Rightarrow> int \<Rightarrow> int \<Rightarrow> bool" where
  "viewLe s r s' r' \<longleftrightarrow> s < s' \<or> s = s' \<and> r \<le> r'"

lemma vsteps_view:
  assumes "vsteps J P C calm v v'"
  shows "viewLe (voSeq v) (voRound v) (voSeq v') (voRound v')"
  using assms
proof (induction rule: rtranclp_induct)
  case (step v1 v2)
  from step.hyps(2) have "viewLe (voSeq v1) (voRound v1) (voSeq v2) (voRound v2)"
    by cases (auto simp: viewLe_def)
  with step.IH show ?case by (auto simp: viewLe_def)
qed (simp add: viewLe_def)

section \<open>Rules of the votes\<close>

text \<open>The last conjuncts of \<open>vote_inv\<close> are the rules that matter in the end; the others make them inductive.\<close>

definition castInView :: "Voter \<Rightarrow> bool" where
  "castInView v \<longleftrightarrow>
     (\<forall>s r d. VPrepare s r d \<in> set (voVotes v) \<longrightarrow> viewLe s r (voSeq v) (voRound v))
   \<and> (\<forall>s r l. VRoundChange s r l \<in> set (voVotes v) \<longrightarrow> s \<le> voSeq v)"

definition phaseVotes :: "Voter \<Rightarrow> bool" where
  "phaseVotes v \<longleftrightarrow>
     (voPhase v = StateAcceptRequest \<longrightarrow> (\<forall>d. VPrepare (voSeq v) (voRound v) d \<notin> set (voVotes v)))
   \<and> (voPhase v \<noteq> StateAcceptRequest \<longrightarrow>
       (\<exists>d. voAccepted v = Some d \<and> VPrepare (voSeq v) (voRound v) d \<in> set (voVotes v)))
   \<and> (voPhase v = StatePreprepared \<longrightarrow> (\<forall>d. VCommit (voSeq v) (voRound v) d \<notin> set (voVotes v)))
   \<and> (voPhase v \<in> {StatePrepared, StateCommitted} \<longrightarrow>
       (\<exists>d. voAccepted v = Some d \<and> VCommit (voSeq v) (voRound v) d \<in> set (voVotes v)))"

definition onePrepare :: "Vote set \<Rightarrow> bool" where
  "onePrepare X \<longleftrightarrow> (\<forall>s r d d'. VPrepare s r d \<in> X \<longrightarrow> VPrepare s r d' \<in> X \<longrightarrow> d = d')"

definition commitPrepared :: "Vote set \<Rightarrow> bool" where
  "commitPrepared X \<longleftrightarrow> (\<forall>s r d. VCommit s r d \<in> X \<longrightarrow> VPrepare s r d \<in> X)
     \<and> (\<forall>s r d. VDecide s r d \<in> X \<longrightarrow> VCommit s r d \<in> X)"

definition lockOk :: "Voter \<Rightarrow> bool" where
  "lockOk v \<longleftrightarrow>
     (\<forall>r d. VCommit (voSeq v) r d \<in> set (voVotes v) \<longrightarrow> (\<exists>pr d'. voLock v = Some (pr, d') \<and> r \<le> pr))
   \<and> (\<forall>pr d. voLock v = Some (pr, d) \<longrightarrow> VCommit (voSeq v) pr d \<in> set (voVotes v))
   \<and> (\<forall>r l. VRoundChange (voSeq v) r l \<in> set (voVotes v) \<longrightarrow>
        r \<le> voRound v \<or> r = voRound v + 1 \<and> voPhase v = StateCommitted)"

definition reportsLock :: "Vote set \<Rightarrow> bool" where
  "reportsLock X \<longleftrightarrow>
     (\<forall>s r l r0 d. VRoundChange s r l \<in> X \<longrightarrow> VCommit s r0 d \<in> X \<longrightarrow> r0 < r \<longrightarrow>
        (\<exists>pr d'. l = Some (pr, d') \<and> r0 \<le> pr \<and> VCommit s pr d' \<in> X))"

definition locksCommitted :: "Vote set \<Rightarrow> bool" where
  "locksCommitted X \<longleftrightarrow> (\<forall>s r pr d. VRoundChange s r (Some (pr, d)) \<in> X \<longrightarrow> VCommit s pr d \<in> X)"

definition vote_inv :: "bool \<Rightarrow> Voter \<Rightarrow> bool" where
  "vote_inv calm v \<longleftrightarrow> castInView v \<and> phaseVotes v \<and> onePrepare (set (voVotes v)) \<and> commitPrepared (set (voVotes v))
     \<and> (calm \<longrightarrow> lockOk v \<and> reportsLock (set (voVotes v)) \<and> locksCommitted (set (voVotes v)))"

lemmas vote_inv_defs = castInView_def phaseVotes_def onePrepare_def commitPrepared_def viewLe_def

lemma castInView_step:
  assumes "vstep J P C calm v v'" "castInView v"
  shows "castInView v'"
proof -
  have "viewLe (voSeq v) (voRound v) (voSeq v') (voRound v')" using assms(1) by cases (auto simp: viewLe_def)
  moreover have "VPrepare s r d \<in> set (voVotes v) \<or> s = voSeq v' \<and> r = voRound v'"
    if "VPrepare s r d \<in> set (voVotes v')" for s r d using assms(1) that by cases auto
  moreover have "VRoundChange s r l \<in> set (voVotes v) \<or> s = voSeq v'"
    if "VRoundChange s r l \<in> set (voVotes v')" for s r l using assms(1) that by cases auto
  ultimately show ?thesis using assms(2) unfolding castInView_def viewLe_def by fastforce
qed

lemma onePrepare_step:
  assumes "vstep J P C calm v v'" "phaseVotes v" "onePrepare (set (voVotes v))"
  shows "onePrepare (set (voVotes v'))"
  using assms by cases (auto simp: onePrepare_def phaseVotes_def)

lemma commitPrepared_step:
  assumes "vstep J P C calm v v'" "phaseVotes v" "commitPrepared (set (voVotes v))"
  shows "commitPrepared (set (voVotes v'))"
  using assms by cases (auto simp: commitPrepared_def phaseVotes_def)

lemma not_yet_cast:
  assumes "castInView v" "commitPrepared (set (voVotes v))" "\<not> viewLe s r (voSeq v) (voRound v)"
  shows "VPrepare s r d \<notin> set (voVotes v)" "VCommit s r d \<notin> set (voVotes v)"
  using assms unfolding castInView_def commitPrepared_def by blast+

lemma phaseVotes_step:
  assumes "vstep J P C calm v v'" "castInView v" "phaseVotes v" "commitPrepared (set (voVotes v))"
  shows "phaseVotes v'"
  using assms(1)
proof cases
  case (newSequence s)
  then show ?thesis using not_yet_cast [OF assms(2,4), of s 0] by (simp add: phaseVotes_def viewLe_def)
next
  case (newRound r)
  then show ?thesis using not_yet_cast [OF assms(2,4), of "voSeq v" r] by (simp add: phaseVotes_def viewLe_def)
next
  case (accept d)
  then show ?thesis using assms(3,4) by (auto simp: phaseVotes_def commitPrepared_def)
qed (use assms(3) in \<open>auto simp: phaseVotes_def\<close>)

lemma lockOk_step:
  assumes "vstep J P C True v v'" "castInView v" "commitPrepared (set (voVotes v))" "lockOk v"
  shows "lockOk v'"
  using assms(1)
proof cases
  case (newSequence s)
  then have "VCommit s r d \<notin> set (voVotes v)" for r d
    using not_yet_cast [OF assms(2,3), of s r] by (simp add: viewLe_def)
  moreover have "VRoundChange s r l \<notin> set (voVotes v)" for r l
    using newSequence assms(2) unfolding castInView_def by force
  ultimately show ?thesis using newSequence by (simp add: lockOk_def)
next
  case (newRound r)
  then show ?thesis using assms(4) unfolding lockOk_def by fastforce
next
  case (accept d)
  then show ?thesis using assms(4) unfolding lockOk_def by fastforce
next
  case (commit d)
  have "r \<le> voRound v" if "VCommit (voSeq v) r d0 \<in> set (voVotes v)" for r d0
    using that not_yet_cast [OF assms(2,3), of "voSeq v" r] by (auto simp: viewLe_def)
  with commit assms(4) show ?thesis unfolding lockOk_def by fastforce
next
  case (decide d)
  then show ?thesis using assms(4) unfolding lockOk_def by fastforce
next
  case (roundChange r)
  then show ?thesis using assms(4) unfolding lockOk_def by fastforce
qed simp

lemma reportsLock_step:
  assumes "vstep J P C True v v'" "lockOk v" "reportsLock (set (voVotes v))"
  shows "reportsLock (set (voVotes v'))"
  using assms(1)
proof cases
  case (commit d)
  have "r \<le> voRound v" if "VRoundChange (voSeq v) r l \<in> set (voVotes v)" for r l
    using that commit assms(2) by (fastforce simp: lockOk_def)
  with commit assms(3) show ?thesis unfolding reportsLock_def by fastforce
next
  case (roundChange r)
  then show ?thesis using assms(2,3) unfolding reportsLock_def lockOk_def by fastforce
qed (use assms(3) in \<open>auto simp: reportsLock_def\<close>)

lemma locksCommitted_step:
  assumes "vstep J P C True v v'" "lockOk v" "locksCommitted (set (voVotes v))"
  shows "locksCommitted (set (voVotes v'))"
  using assms by cases (auto simp: locksCommitted_def lockOk_def)

lemma vote_inv_steps:
  assumes "vsteps J P C calm v v'" "vote_inv calm v"
  shows "vote_inv calm v'"
  using assms
proof (induction rule: rtranclp_induct)
  case (step v1 v2)
  then show ?case
    using castInView_step phaseVotes_step onePrepare_step commitPrepared_step lockOk_step reportsLock_step
      locksCommitted_step
    unfolding vote_inv_def by (cases calm) metis+
qed

end
