(* ===== verification/Agreement.thy ===== *)
theory Agreement
  imports Voter
begin

text \<open>
  Agreement of the correct validators, from the rules of their votes. A log lists the votes of the
  correct validators in the order in which they were cast. The locale states what is needed of the logs
  of a system: any two quorums share a correct validator, every vote is backed by votes cast before it,
  and the votes of each correct validator obey the rules of \<open>Voter\<close>. \<open>Consensus_System\<close> interprets it on
  the runs of the consensus cores.
\<close>

section \<open>Evidence in a log\<close>

type_synonym vote_log = "(address \<times> Vote) list"

definition isQuorum :: "address set \<Rightarrow> int \<Rightarrow> address set \<Rightarrow> bool" where
  "isQuorum V q Q \<longleftrightarrow> Q \<subseteq> V \<and> q \<le> int (card Q)"

definition logP :: "address set \<Rightarrow> address set \<Rightarrow> int \<Rightarrow> vote_log \<Rightarrow> evidence" where
  "logP V H q lg s r d \<longleftrightarrow> (\<exists>Q. isQuorum V q Q \<and> (\<forall>a \<in> Q \<inter> H. (a, VPrepare s r d) \<in> set lg))"

definition logC :: "address set \<Rightarrow> address set \<Rightarrow> int \<Rightarrow> vote_log \<Rightarrow> evidence" where
  "logC V H q lg s r d \<longleftrightarrow> (\<exists>Q. isQuorum V q Q \<and> (\<forall>a \<in> Q \<inter> H. (a, VCommit s r d) \<in> set lg))"

text \<open>A proposal of a later round: a quorum reports no lock, or none above a round in which a quorum has
  prepared the proposal.\<close>

definition logNil :: "address set \<Rightarrow> address set \<Rightarrow> int \<Rightarrow> vote_log \<Rightarrow> int \<Rightarrow> int \<Rightarrow> bool" where
  "logNil V H q lg s r \<longleftrightarrow> (\<exists>Q. isQuorum V q Q \<and> (\<forall>a \<in> Q \<inter> H. (a, VRoundChange s r None) \<in> set lg))"

definition logLocked :: "address set \<Rightarrow> address set \<Rightarrow> int \<Rightarrow> vote_log \<Rightarrow> int \<Rightarrow> int \<Rightarrow> int \<Rightarrow> bool" where
  "logLocked V H q lg s r pr \<longleftrightarrow> (\<exists>Q. isQuorum V q Q \<and>
     (\<forall>a \<in> Q \<inter> H. \<exists>l. (a, VRoundChange s r l) \<in> set lg \<and> (\<forall>p0 d0. l = Some (p0, d0) \<longrightarrow> p0 \<le> pr)))"

definition logJ :: "address set \<Rightarrow> address set \<Rightarrow> int \<Rightarrow> vote_log \<Rightarrow> evidence" where
  "logJ V H q lg s r d \<longleftrightarrow> r = 0 \<or> logNil V H q lg s r
     \<or> (\<exists>pr. logLocked V H q lg s r pr \<and> logP V H q lg s pr d)"

definition logBacked :: "address set \<Rightarrow> address set \<Rightarrow> int \<Rightarrow> vote_log \<Rightarrow> Vote \<Rightarrow> bool" where
  "logBacked V H q lg = backed (logJ V H q lg) (logP V H q lg) (logC V H q lg)"

definition votesOf :: "vote_log \<Rightarrow> address \<Rightarrow> Vote set" where
  "votesOf lg a = {x. (a, x) \<in> set lg}"

section \<open>Agreement\<close>

locale vote_logs =
  fixes Logs :: "'k \<Rightarrow> vote_log set" and V :: "'k \<Rightarrow> address set" and H :: "'k \<Rightarrow> address set" and q :: "'k \<Rightarrow> int"
  assumes share: "lg \<in> Logs k \<Longrightarrow> isQuorum (V k) (q k) Q \<Longrightarrow> isQuorum (V k) (q k) Q' \<Longrightarrow> \<exists>a \<in> H k. a \<in> Q \<and> a \<in> Q'"
    and backing: "lg \<in> Logs k \<Longrightarrow> i < length lg \<Longrightarrow> logBacked (V k) (H k) (q k) (take i lg) (snd (lg ! i))"
    and correct: "lg \<in> Logs k \<Longrightarrow> (a, x) \<in> set lg \<Longrightarrow> a \<in> H k"
    and rules: "lg \<in> Logs k \<Longrightarrow> a \<in> H k \<Longrightarrow>
      onePrepare (votesOf lg a) \<and> commitPrepared (votesOf lg a) \<and> reportsLock (votesOf lg a)"
begin

lemma cast_backed:
  assumes "lg \<in> Logs k" "(a, x) \<in> set lg"
  shows "\<exists>i < length lg. lg ! i = (a, x) \<and> logBacked (V k) (H k) (q k) (take i lg) x"
  using assms backing [OF assms(1)] by (metis in_set_conv_nth snd_conv)

lemma one_prepare:
  assumes "lg \<in> Logs k" "(a, VPrepare s r d) \<in> set lg" "(a, VPrepare s r d') \<in> set lg"
  shows "d = d'"
  using rules [OF assms(1) correct [OF assms(1,2)]] assms(2,3) by (auto simp: onePrepare_def votesOf_def)

lemma commit_quorum:
  assumes "lg \<in> Logs k" "(a, VDecide s r d) \<in> set lg"
  obtains Q where "isQuorum (V k) (q k) Q" "\<forall>a \<in> Q \<inter> H k. (a, VCommit s r d) \<in> set lg"
proof -
  obtain i where "logC (V k) (H k) (q k) (take i lg) s r d"
    using cast_backed [OF assms] by (auto simp: logBacked_def)
  then show thesis using that by (auto simp: logC_def dest: in_set_takeD)
qed

lemma prepare_quorum:
  assumes "lg \<in> Logs k" "(a, VCommit s r d) \<in> set lg"
  obtains Q where "isQuorum (V k) (q k) Q" "\<forall>a \<in> Q \<inter> H k. (a, VPrepare s r d) \<in> set lg"
proof -
  obtain i where "logP (V k) (H k) (q k) (take i lg) s r d"
    using cast_backed [OF assms] by (auto simp: logBacked_def)
  then show thesis using that by (auto simp: logP_def dest: in_set_takeD)
qed

lemma lock_reported:
  assumes "lg \<in> Logs k" "(a, VCommit s r d) \<in> set lg" "(a, VRoundChange s r' l) \<in> set lg" "r < r'"
  shows "\<exists>pr d'. l = Some (pr, d') \<and> r \<le> pr"
  using rules [OF assms(1) correct [OF assms(1,2)]] assms(2-4) unfolding reportsLock_def votesOf_def by blast

text \<open>Once a quorum commits to \<open>d\<close> in round \<open>r\<close>, no correct validator prepares anything else later.\<close>

lemma locked_value:
  assumes L: "lg \<in> Logs k"
    and Q: "isQuorum (V k) (q k) Q" "\<forall>a \<in> Q \<inter> H k. (a, VCommit s r d) \<in> set lg"
    and i: "i < length lg" "lg ! i = (b, VPrepare s r' d')" and r: "0 \<le> r" "r < r'"
  shows "d' = d"
  using i r
proof (induction i arbitrary: b r' rule: less_induct)
  case (less i)
  let ?pre = "take i lg"
  have sub: "x \<in> set lg" if "x \<in> set ?pre" for x using that by (rule in_set_takeD)
  have J: "logJ (V k) (H k) (q k) ?pre s r' d'" using backing [OF L less.prems(1)] less.prems(2) by (simp add: logBacked_def)
  have r': "r' \<noteq> 0" using less.prems by linarith
  have "\<not> logNil (V k) (H k) (q k) ?pre s r'"
  proof
    assume "logNil (V k) (H k) (q k) ?pre s r'"
    then obtain N where N: "isQuorum (V k) (q k) N" "\<forall>a \<in> N \<inter> H k. (a, VRoundChange s r' None) \<in> set ?pre"
      by (auto simp: logNil_def)
    obtain a where "a \<in> H k" "a \<in> Q" "a \<in> N" using share [OF L Q(1) N(1)] by blast
    then show False using lock_reported [OF L _ _ less.prems(4), of a s d None] Q(2) N(2) sub by blast
  qed
  then obtain pr where pr: "logLocked (V k) (H k) (q k) ?pre s r' pr" "logP (V k) (H k) (q k) ?pre s pr d'"
    using J r' by (auto simp: logJ_def)
  obtain N where N: "isQuorum (V k) (q k) N"
    "\<forall>a \<in> N \<inter> H k. \<exists>l. (a, VRoundChange s r' l) \<in> set ?pre \<and> (\<forall>p0 d0. l = Some (p0, d0) \<longrightarrow> p0 \<le> pr)"
    using pr(1) by (auto simp: logLocked_def)
  obtain W where W: "isQuorum (V k) (q k) W" "\<forall>a \<in> W \<inter> H k. (a, VPrepare s pr d') \<in> set ?pre"
    using pr(2) by (auto simp: logP_def)
  obtain a where a: "a \<in> H k" "a \<in> Q" "a \<in> N" using share [OF L Q(1) N(1)] by blast
  then have com: "(a, VCommit s r d) \<in> set lg" using Q(2) by blast
  obtain l where l: "(a, VRoundChange s r' l) \<in> set ?pre" "\<forall>p0 d0. l = Some (p0, d0) \<longrightarrow> p0 \<le> pr"
    using N(2) a by blast
  have "r \<le> pr" using lock_reported [OF L com sub [OF l(1)] less.prems(4)] l(2) by force
  show ?case
  proof (cases "r = pr")
    case True
    obtain U where U: "isQuorum (V k) (q k) U" "\<forall>a \<in> U \<inter> H k. (a, VPrepare s r d) \<in> set lg"
      using prepare_quorum [OF L com] by blast
    obtain c where "c \<in> H k" "c \<in> U" "c \<in> W" using share [OF L U(1) W(1)] by blast
    then show ?thesis using one_prepare [OF L, of c s r d' d] U(2) W(2) sub True by blast
  next
    case False
    obtain c where "c \<in> H k" "c \<in> W" using share [OF L W(1) W(1)] by blast
    then have "(c, VPrepare s pr d') \<in> set ?pre" using W(2) by blast
    then obtain j where "j < i" "lg ! j = (c, VPrepare s pr d')" by (auto simp: in_set_conv_nth)
    then show ?thesis using less.IH [of j c pr] less.prems(1,3) False \<open>r \<le> pr\<close> by simp
  qed
qed

lemma decisions_agree_ordered:
  assumes L: "lg \<in> Logs k" and dec: "(a, VDecide s r d) \<in> set lg" "(b, VDecide s r' d') \<in> set lg"
    and r: "0 \<le> r" "r \<le> r'"
  shows "d = d'"
proof -
  obtain Q where Q: "isQuorum (V k) (q k) Q" "\<forall>a \<in> Q \<inter> H k. (a, VCommit s r d) \<in> set lg"
    using commit_quorum [OF L dec(1)] .
  obtain Q' where Q': "isQuorum (V k) (q k) Q'" "\<forall>a \<in> Q' \<inter> H k. (a, VCommit s r' d') \<in> set lg"
    using commit_quorum [OF L dec(2)] .
  obtain c where c: "c \<in> H k" "c \<in> Q" "c \<in> Q'" using share [OF L Q(1) Q'(1)] by blast
  then have p: "(c, VPrepare s r d) \<in> set lg" "(c, VPrepare s r' d') \<in> set lg"
    using rules [OF L c(1)] Q(2) Q'(2) by (auto simp: commitPrepared_def votesOf_def)
  show ?thesis
  proof (cases "r = r'")
    case True
    then show ?thesis using one_prepare [OF L p(1)] p(2) by blast
  next
    case False
    obtain i where "i < length lg" "lg ! i = (c, VPrepare s r' d')" using p(2) by (auto simp: in_set_conv_nth)
    then show ?thesis using locked_value [OF L Q] r False by force
  qed
qed

lemma decisions_agree:
  assumes "lg \<in> Logs k" "(a, VDecide s r d) \<in> set lg" "(b, VDecide s r' d') \<in> set lg" "0 \<le> r" "0 \<le> r'"
  shows "d = d'"
  using decisions_agree_ordered [OF assms(1-3)] decisions_agree_ordered [OF assms(1,3,2)] assms(4,5)
  by (cases "r \<le> r'") auto

end

end
