(* ===== verification/Core_Refinement.thy ===== *)
theory Core_Refinement
  imports Core_Frames Voter
begin

text \<open>
  The consensus core refines the abstract voter: whatever an event handler does is a sequence of voter
  steps. \<open>voterOf\<close> is the abstraction; the votes are read off the recorded calls of the backend. A step
  needs as evidence the seals that the handlers have verified, and a justified proposal. A \<open>World\<close> holds
  the cryptography, the validators of every sequence and what is known of the seals, ROUND-CHANGE and PREPARE payloads
  that a node receives.
\<close>

section \<open>The abstraction\<close>

fun voteOf :: "Crypto \<Rightarrow> Effect \<Rightarrow> Vote list" where
  "voteOf cr (SealCall view h SealTypePrepare) =
     [VPrepare (vSequence view) (vRound view) (Header_Hash (keccak256 cr) h)]"
| "voteOf cr (SealCall view h SealTypeCommit) =
     [VCommit (vSequence view) (vRound view) (Header_Hash (keccak256 cr) h)]"
| "voteOf cr (SignCall (MRoundChange m)) =
     [VRoundChange (pSequence m) (pRound m) (map_option (\<lambda>pr. (pr, PreparedDigest m)) (PreparedRound m))]"
| "voteOf cr (CommitBlock b ps cs rd) = [VDecide (Block_Number b) rd (Block_Hash (keccak256 cr) b)]"
| "voteOf cr _ = []"

definition coreVotes :: "Crypto \<Rightarrow> Core \<Rightarrow> Vote list" where
  "coreVotes cr c = concat (map (voteOf cr) (outbox c))"

definition lockOf :: "Crypto \<Rightarrow> roundState \<Rightarrow> (int \<times> hash) option" where
  "lockOf cr s = (case (preparedRound s, preparedBlock s) of
     (Some r, Some b) \<Rightarrow> Some (r, Block_Hash (keccak256 cr) b) | _ \<Rightarrow> None)"

definition voterOf :: "Crypto \<Rightarrow> Core \<Rightarrow> roundState \<Rightarrow> Voter" where
  "voterOf cr c s = \<lparr>voSeq = rsSequence s, voRound = rsRound s, voPhase = coreState c,
     voAccepted = (if coreState c = StateAcceptRequest then None
                   else map_option (Block_Hash (keccak256 cr)) (rsProposal s)),
     voLock = lockOf cr s, voVotes = coreVotes cr c\<rparr>"

section \<open>Evidence\<close>

record World =
  wCrypto :: Crypto
  wVals :: "int \<Rightarrow> defaultSet"
  wHeader :: "Header \<Rightarrow> bool"
  wRounds :: int
  wSeal :: "bytes \<Rightarrow> bool"
  wRoundChange :: "SignedRoundChangePayload \<Rightarrow> bool"
  wPrepare :: "Prepare \<Rightarrow> bool"

definition sealValid :: "World \<Rightarrow> int \<Rightarrow> Header \<Rightarrow> int \<Rightarrow> SealType \<Rightarrow> bytes \<Rightarrow> address \<Rightarrow> bool" where
  "sealValid W sq h rd t seal a \<longleftrightarrow> wSeal W seal \<and> (\<exists>v \<in> set (validators (wVals W sq)). valAddress v = a
     \<and> blsVerify (wCrypto W) seal (valBLSPublicKey v) (PrepareSeal (keccak256 (wCrypto W)) h (sealRound rd) t))"

text \<open>Valid seals of a quorum for a block, in the round and phase.\<close>

definition sealsProve :: "World \<Rightarrow> int \<Rightarrow> Header \<Rightarrow> int \<Rightarrow> SealType \<Rightarrow> SealData list \<Rightarrow> bool" where
  "sealsProve W sq h rd t sds \<longleftrightarrow> (\<exists>ms. distinct (map fst ms) \<and> QuorumSize (wVals W sq) \<le> int (length ms)
     \<and> sds = map (\<lambda>m. sealDataOf (wVals W sq) (fst m) (snd m)) ms
     \<and> (\<forall>m \<in> set ms. sealValid W sq h rd t (snd m) (fst m)))"

definition sealQuorum :: "World \<Rightarrow> SealType \<Rightarrow> evidence" where
  "sealQuorum W t sq rd d \<longleftrightarrow> 0 \<le> rd \<and> rd < wRounds W \<and> (\<exists>b Q. Block_Hash (keccak256 (wCrypto W)) b = d \<and> Block_Number b = sq \<and> wHeader W (bHeader b)
     \<and> Q \<subseteq> set (AddressList (wVals W sq)) \<and> QuorumSize (wVals W sq) \<le> int (card Q)
     \<and> (\<forall>a \<in> Q. \<exists>seal. sealValid W sq (bHeader b) rd t seal a))"

definition justifiedProposal :: "World \<Rightarrow> evidence" where
  "justifiedProposal W sq rd d \<longleftrightarrow> rd = 0
     \<or> (\<exists>b rcs ps. Block_Hash (keccak256 (wCrypto W)) b = d \<and> Block_Number b = sq \<and> wHeader W (bHeader b)
         \<and> isJustified (keccak256 (wCrypto W)) b \<lparr>vRound = rd, vSequence = sq\<rparr> rcs ps (QuorumSize (wVals W sq)) = None
         \<and> (\<forall>rc \<in> set rcs. wRoundChange W rc) \<and> (\<forall>p \<in> set ps. wPrepare W p))"

section \<open>The invariant of the core\<close>

text \<open>The validators are those the world has for the sequence; only the proposer changes.\<close>

definition sameValidators :: "defaultSet \<Rightarrow> defaultSet \<Rightarrow> bool" where
  "sameValidators vs0 vs \<longleftrightarrow> validators vs = validators vs0"

definition votesCollected :: "World \<Rightarrow> roundState \<Rightarrow> Block \<Rightarrow> bool" where
  "votesCollected W s b \<longleftrightarrow> msgSet_wf (WBFTPrepares s) \<and> msgSet_wf (WBFTCommits s)
     \<and> (\<forall>m \<in> set (Values (WBFTPrepares s)). \<exists>p. m = MPrepare p
          \<and> sealValid W (rsSequence s) (bHeader b) (rsRound s) SealTypePrepare (prSeal p) (pSource p))
     \<and> (\<forall>m \<in> set (Values (WBFTCommits s)). \<exists>p. m = MCommit p
          \<and> sealValid W (rsSequence s) (bHeader b) (rsRound s) SealTypeCommit (CommitSeal p) (pSource p))"

definition proposalOk :: "World \<Rightarrow> State \<Rightarrow> roundState \<Rightarrow> bool" where
  "proposalOk W st s \<longleftrightarrow>
     (if st = StateAcceptRequest then Values (WBFTPrepares s) = [] \<and> Values (WBFTCommits s) = []
        \<and> msgSet_wf (WBFTPrepares s) \<and> msgSet_wf (WBFTCommits s)
      else (\<exists>b. rsProposal s = Some b \<and> Block_Number b = rsSequence s \<and> wHeader W (bHeader b) \<and> votesCollected W s b)
        \<and> rsRound s < wRounds W
        \<and> (st \<noteq> StatePreprepared \<longrightarrow> QuorumSize (wVals W (rsSequence s)) \<le> MsgSet_Size (WBFTPrepares s)))"

definition core_ok :: "World \<Rightarrow> Core \<Rightarrow> roundState \<Rightarrow> bool" where
  "core_ok W c s \<longleftrightarrow> current c = Some s \<and> (\<exists>vs. valSet c = Some vs \<and> sameValidators (wVals W (rsSequence s)) vs)
     \<and> 0 \<le> rsRound s \<and> proposalOk W (coreState c) s
     \<and> (preparedRound s = None \<longleftrightarrow> preparedBlock s = None)
     \<and> (\<exists>rcs. rcSet c = Some rcs \<and> smallRounds rcs)"

definition headerNumber :: "Header \<Rightarrow> int" where
  "headerNumber h = (case Number h of None \<Rightarrow> 0 | Some n \<Rightarrow> n)"

lemma headerNumber_block [simp]: "headerNumber (bHeader b) = Block_Number b"
  by (simp add: headerNumber_def Block_Number_def)

text \<open>What every recorded call satisfies, given the votes cast: a signed message has the code of its kind, a signed
  PREPARE is one that was sealed, what is sealed is a proposal of the sequence in a round within the bound, and a committed block comes with the seals of two quorums.\<close>

fun effectOk :: "World \<Rightarrow> Vote set \<Rightarrow> Effect \<Rightarrow> bool" where
  "effectOk W X (SignCall m) \<longleftrightarrow> Code m = kindCode m
     \<and> (\<forall>p. m = MPrepare p \<longrightarrow> VPrepare (pSequence p) (pRound p) (Digest p) \<in> X)"
| "effectOk W X (SealCall view h t) \<longleftrightarrow> wHeader W h \<and> headerNumber h = vSequence view
     \<and> 0 \<le> vRound view \<and> vRound view < wRounds W"
| "effectOk W X (CommitBlock b ps cs rd) \<longleftrightarrow> wHeader W (bHeader b) \<and> 0 \<le> rd
     \<and> sealsProve W (Block_Number b) (bHeader b) rd SealTypePrepare ps
     \<and> sealsProve W (Block_Number b) (bHeader b) rd SealTypeCommit cs"
| "effectOk W X _ \<longleftrightarrow> True"

definition effectsOk :: "World \<Rightarrow> Core \<Rightarrow> bool" where
  "effectsOk W c \<longleftrightarrow> (\<forall>x \<in> set (outbox c). effectOk W (set (coreVotes (wCrypto W) c)) x)"

lemma effectOk_mono: "effectOk W X x \<Longrightarrow> X \<subseteq> Y \<Longrightarrow> effectOk W Y x"
  by (cases "(W, X, x)" rule: effectOk.cases) auto

lemma effectsOk_same: "outbox c' = outbox c \<Longrightarrow> effectsOk W c' = effectsOk W c"
  by (simp add: effectsOk_def coreVotes_def)

lemma sameValidators_simps:
  assumes "sameValidators vs0 vs"
  shows "QuorumSize vs = QuorumSize vs0" "F vs = F vs0" "GetByAddress vs = GetByAddress vs0"
    "AddressList vs = AddressList vs0" "verifySeal cr (Some vs) = verifySeal cr (Some vs0)"
  using assms by (auto simp: sameValidators_def QuorumSize_def F_def Size_def GetByAddress_def AddressList_def
    verifySeal_def fun_eq_iff)

lemma sameValidators_CalcProposer: "sameValidators vs0 vs \<Longrightarrow> sameValidators vs0 (CalcProposer vs a r)"
  by (simp add: sameValidators_def CalcProposer_def)

lemma quiet_voter: "quiet c c' \<Longrightarrow> voterOf cr c' s = voterOf cr c s"
  by (simp add: quiet_def voterOf_def coreVotes_def)

lemma quiet_core_ok: "quiet c c' \<Longrightarrow> core_ok W c' s = core_ok W c s"
  by (simp add: quiet_def core_ok_def)

lemma quiet_signs: "quiet c c' \<Longrightarrow> effectsOk cr c' = effectsOk cr c"
  by (rule effectsOk_same) (simp add: quiet_def)

section \<open>Sending\<close>

definition isBroadcast :: "Effect \<Rightarrow> bool" where
  "isBroadcast x \<longleftrightarrow> (\<exists>m p. x = Broadcast m p)"

definition signsOnly :: "WBFTMessage \<Rightarrow> Effect list \<Rightarrow> bool" where
  "signsOnly m xs \<longleftrightarrow> xs = [] \<or> xs = [SignCall m] \<or> (\<exists>a b. xs = [SignCall m, Broadcast a b])"

lemma signAndBroadcast_signs:
  assumes "signAndBroadcast backend m ext c = Some (sent, c')"
  shows "\<exists>xs. c' = c\<lparr>outbox := outbox c @ xs\<rparr> \<and> signsOnly m xs"
  using signAndBroadcast_frame [OF assms] by (simp add: signsOnly_def)

lemma signsOnly_votes:
  assumes "signsOnly m xs" "\<And>rc. m \<noteq> MRoundChange rc"
  shows "concat (map (voteOf cr) xs) = []"
  using assms by (cases m) (auto simp: signsOnly_def)

lemma Code_simps [simp]:
  "Code (MPreprepare x) = pCode x" "Code (MPrepare p) = pCode p" "Code (MCommit m) = pCode m" "Code (MRoundChange r) = pCode r"
  by (simp_all add: Code_def payload_defs)

lemma signsOnly_effectOk:
  assumes "signsOnly m xs" "Code m = kindCode m" "\<And>p. m = MPrepare p \<Longrightarrow> VPrepare (pSequence p) (pRound p) (Digest p) \<in> X" "x \<in> set xs"
  shows "effectOk W X x"
  using assms by (cases m) (auto simp: signsOnly_def)

lemma broadcastPrepare_effect:
  assumes "broadcastPrepare cr backend c = Some c'" "current c = Some s" "rsProposal s = Some b"
  shows "\<exists>p xs. c' = c\<lparr>outbox := outbox c @ SealCall \<lparr>vRound = rsRound s, vSequence = rsSequence s\<rparr> (bHeader b) SealTypePrepare # xs\<rparr>
    \<and> signsOnly (MPrepare p) xs \<and> pSequence p = rsSequence s \<and> pRound p = rsRound s
    \<and> Digest p = Block_Hash (keccak256 cr) b \<and> pCode p = PrepareCode"
proof -
  obtain pp where pp: "rsPreprepare s = Some pp" "Proposal pp = b" using assms(3) by (auto simp: rsProposal_def)
  let ?sc = "SealCall \<lparr>vRound = rsRound s, vSequence = rsSequence s\<rparr> (bHeader b) SealTypePrepare"
  let ?p = "(NewPrepare (rsSequence s) (rsRound s) (Block_Hash (keccak256 cr) b) (SignWithoutHashing backend
      (PrepareSeal (keccak256 cr) (bHeader b) (sealRound (rsRound s)) SealTypePrepare)))\<lparr>pSource := coreAddress c\<rparr>"
  obtain sent where "signAndBroadcast backend (MPrepare ?p) Some (emit ?sc c) = Some (sent, c')"
    using assms pp by (auto simp: broadcastPrepare_def rsSubject_def bind_eq_Some_conv Let_def emit_def)
  from signAndBroadcast_signs [OF this] obtain xs where
    "c' = (emit ?sc c)\<lparr>outbox := outbox (emit ?sc c) @ xs\<rparr>" "signsOnly (MPrepare ?p) xs" by blast
  then show ?thesis by (intro exI [of _ ?p] exI [of _ xs]) (simp add: emit_def payload_defs)
qed

lemma broadcastCommit_effect:
  assumes "broadcastCommit cr backend c = Some c'" "current c = Some s" "rsProposal s = Some b"
  shows "\<exists>p xs. c' = c\<lparr>outbox := outbox c @ SealCall \<lparr>vRound = rsRound s, vSequence = rsSequence s\<rparr> (bHeader b) SealTypeCommit # xs\<rparr>
    \<and> signsOnly (MCommit p) xs \<and> pCode p = CommitCode"
proof -
  obtain pp where pp: "rsPreprepare s = Some pp" "Proposal pp = b" using assms(3) by (auto simp: rsProposal_def)
  let ?sc = "SealCall \<lparr>vRound = rsRound s, vSequence = rsSequence s\<rparr> (bHeader b) SealTypeCommit"
  obtain p sent where "signAndBroadcast backend (MCommit p) Some (emit ?sc c) = Some (sent, c')" "pCode p = CommitCode"
    using assms pp by (auto simp: broadcastCommit_def rsSubject_def bind_eq_Some_conv Let_def emit_def payload_defs)
  moreover from signAndBroadcast_signs [OF this(1)] obtain xs where
    "c' = (emit ?sc c)\<lparr>outbox := outbox (emit ?sc c) @ xs\<rparr>" "signsOnly (MCommit p) xs" by blast
  ultimately show ?thesis by (intro exI [of _ p] exI [of _ xs]) (simp add: emit_def)
qed

lemma broadcastRoundChange_effect:
  assumes "broadcastRoundChange cr backend rd c = Some c'" "current c = Some s"
  shows "\<exists>c1 xs. quiet c c1 \<and> c' = c1\<lparr>outbox := outbox c1 @ xs\<rparr>
    \<and> (xs = [] \<or> rsRound s \<le> rd
        \<and> signsOnly (MRoundChange (NewRoundChange (keccak256 cr) (rsSequence s) rd (preparedRound s) (preparedBlock s))) xs)"
proof -
  obtain c1 where c1: "newRetrySendingRoundChangeTimer c = Some c1" "quiet c c1"
    using assms(1) quiet_newRetry by (auto simp: broadcastRoundChange_def bind_eq_Some_conv)
  then have cur: "current c1 = Some s" using assms(2) by (simp add: quiet_def)
  show ?thesis
  proof (cases "bigCmp (rsRound s) rd > 0")
    case True
    then have "c' = c1" using assms(1) c1(1) cur by (simp add: broadcastRoundChange_def)
    then show ?thesis using c1(2) by (intro exI [of _ c1] exI [of _ "[]"]) simp
  next
    case False
    then obtain sent where "signAndBroadcast backend
        (MRoundChange (NewRoundChange (keccak256 cr) (rsSequence s) rd (preparedRound s) (preparedBlock s)))
        (extendRoundChange (WBFTPreparedPrepares c1)) c1 = Some (sent, c')"
      using assms(1) c1(1) cur by (auto simp: broadcastRoundChange_def bind_eq_Some_conv Let_def)
    from signAndBroadcast_signs [OF this] obtain xs where "c' = c1\<lparr>outbox := outbox c1 @ xs\<rparr>"
      "signsOnly (MRoundChange (NewRoundChange (keccak256 cr) (rsSequence s) rd (preparedRound s) (preparedBlock s))) xs"
      by blast
    then show ?thesis using c1(2) False by (intro exI [of _ c1] exI [of _ xs]) (simp add: bigCmp_def split: if_splits)
  qed
qed

lemma sendPreprepareMsg_effect:
  assumes "sendPreprepareMsg backend r c = Some c'" "current c = Some s"
  shows "\<exists>n xs m. c' = c\<lparr>outbox := outbox c @ xs, current := Some (s\<lparr>preprepareSent := n\<rparr>)\<rparr>
    \<and> signsOnly (MPreprepare m) xs \<and> pCode m = PreprepareCode"
proof (cases "\<exists>p. reqProposal r = Some p \<and> bigCmp (rsSequence s) (Block_Number p) = 0 \<and> Core_IsProposer backend c")
  case True
  then obtain p where p: "reqProposal r = Some p" "bigCmp (rsSequence s) (Block_Number p) = 0" "Core_IsProposer backend c"
    by blast
  then obtain m sent c1 where c1: "signAndBroadcast backend (MPreprepare m)
      (extendPreprepare (RCMessages r) (reqPrepareMessages r)) c = Some (sent, c1)"
    "c' = (if sent then c1\<lparr>current := Some (s\<lparr>preprepareSent := rsRound s\<rparr>)\<rparr> else c1)" "pCode m = PreprepareCode"
    using assms by (auto simp: sendPreprepareMsg_def bind_eq_Some_conv Let_def payload_defs)
  from signAndBroadcast_signs [OF c1(1)] obtain xs where xs: "c1 = c\<lparr>outbox := outbox c @ xs\<rparr>" "signsOnly (MPreprepare m) xs"
    by blast
  then have "c' = c\<lparr>outbox := outbox c @ xs, current := Some (s\<lparr>preprepareSent := (if sent then rsRound s else preprepareSent s)\<rparr>)\<rparr>"
    using c1(2) assms(2) by simp
  then show ?thesis using xs(2) c1(3) by blast
next
  case False
  then have "c' = c" using assms by (auto simp: sendPreprepareMsg_def bind_eq_Some_conv split: if_splits)
  then show ?thesis using assms(2)
    by (intro exI [of _ "preprepareSent s"] exI [of _ "[]"] exI [of _ "NewPreprepare 0 0 undefined"])
      (simp add: signsOnly_def payload_defs)
qed

section \<open>Refinement\<close>

abbreviation worldSteps :: "World \<Rightarrow> bool \<Rightarrow> Voter \<Rightarrow> Voter \<Rightarrow> bool" where
  "worldSteps W \<equiv> vsteps (justifiedProposal W) (sealQuorum W SealTypePrepare) (sealQuorum W SealTypeCommit)"

definition refines :: "World \<Rightarrow> bool \<Rightarrow> Core \<Rightarrow> Core \<Rightarrow> bool" where
  "refines W calm c c' \<longleftrightarrow> (\<forall>s. core_ok W c s \<and> effectsOk W c \<longrightarrow>
     (\<exists>s'. core_ok W c' s' \<and> effectsOk W c'
        \<and> worldSteps W calm (voterOf (wCrypto W) c s) (voterOf (wCrypto W) c' s')))"

lemma refinesI:
  assumes "\<And>s. core_ok W c s \<Longrightarrow> effectsOk W c \<Longrightarrow>
     \<exists>s'. core_ok W c' s' \<and> effectsOk W c'
        \<and> worldSteps W calm (voterOf (wCrypto W) c s) (voterOf (wCrypto W) c' s')"
  shows "refines W calm c c'"
  using assms by (simp add: refines_def)

lemma refines_quiet: "quiet c c' \<Longrightarrow> refines W calm c c'"
  by (auto simp: refines_def quiet_voter quiet_core_ok quiet_signs)

lemma refines_trans: "refines W calm c c1 \<Longrightarrow> refines W calm c1 c2 \<Longrightarrow> refines W calm c c2"
  unfolding refines_def by (meson rtranclp_trans)

text \<open>Effects that are no votes, and fields that the voter does not depend on.\<close>

lemma coreVotes_append: "coreVotes cr (c\<lparr>outbox := outbox c @ xs\<rparr>) = coreVotes cr c @ concat (map (voteOf cr) xs)"
  by (simp add: coreVotes_def)

lemma effectsOk_append:
  assumes "effectsOk W c"
    and "\<And>x. x \<in> set xs \<Longrightarrow> effectOk W (set (coreVotes (wCrypto W) c @ concat (map (voteOf (wCrypto W)) xs))) x"
  shows "effectsOk W (c\<lparr>outbox := outbox c @ xs\<rparr>)"
  using assms effectOk_mono unfolding effectsOk_def coreVotes_append by fastforce

lemma core_ok_outbox [simp]: "core_ok W (c\<lparr>outbox := xs\<rparr>) s = core_ok W c s"
  by (simp add: core_ok_def)

lemma refines_emit:
  assumes "concat (map (voteOf (wCrypto W)) xs) = []" "\<And>x. x \<in> set xs \<Longrightarrow> effectOk W {} x"
  shows "refines W calm c (c\<lparr>outbox := outbox c @ xs\<rparr>)"
proof (rule refinesI)
  fix s assume s: "core_ok W c s" "effectsOk W c"
  have "voterOf (wCrypto W) (c\<lparr>outbox := outbox c @ xs\<rparr>) s = voterOf (wCrypto W) c s"
    using assms(1) coreVotes_append [of "wCrypto W" c xs] by (simp add: voterOf_def)
  moreover have "core_ok W (c\<lparr>outbox := outbox c @ xs\<rparr>) s" using s(1) by (simp add: core_ok_def)
  ultimately show "\<exists>s'. core_ok W (c\<lparr>outbox := outbox c @ xs\<rparr>) s'
      \<and> effectsOk W (c\<lparr>outbox := outbox c @ xs\<rparr>)
      \<and> worldSteps W calm (voterOf (wCrypto W) c s) (voterOf (wCrypto W) (c\<lparr>outbox := outbox c @ xs\<rparr>) s')"
    using effectsOk_append [OF s(2), of xs] effectOk_mono [OF assms(2)] by (intro exI [of _ s]) auto
qed

text \<open>The request a proposer works on, and whether it has sent it, do not matter to votes.\<close>

lemma proposalOk_request:
  "proposalOk W st (s\<lparr>pendingRequest := p, preprepareSent := n\<rparr>) = proposalOk W st s"
  by (cases "st = StateAcceptRequest") (simp_all add: proposalOk_def votesCollected_def rsProposal_def)

lemma refines_request:
  assumes "current c = Some s" "s' = s\<lparr>pendingRequest := p, preprepareSent := n\<rparr>"
  shows "refines W calm c (c\<lparr>current := Some s'\<rparr>)"
proof (rule refinesI)
  fix s0 assume s0: "core_ok W c s0" "effectsOk W c"
  then have "s0 = s" using assms(1) by (simp add: core_ok_def)
  moreover have "voterOf (wCrypto W) (c\<lparr>current := Some s'\<rparr>) s' = voterOf (wCrypto W) c s"
    by (simp add: assms(2) voterOf_def coreVotes_def rsProposal_def lockOf_def)
  moreover have "core_ok W (c\<lparr>current := Some s'\<rparr>) s'"
    using s0(1) \<open>s0 = s\<close> by (simp add: assms(2) core_ok_def proposalOk_request)
  moreover have "effectsOk W (c\<lparr>current := Some s'\<rparr>)"
    using s0(2) effectsOk_same [of "c\<lparr>current := Some s'\<rparr>" c] by simp
  ultimately show "\<exists>s1. core_ok W (c\<lparr>current := Some s'\<rparr>) s1 \<and> effectsOk W (c\<lparr>current := Some s'\<rparr>)
      \<and> worldSteps W calm (voterOf (wCrypto W) c s0) (voterOf (wCrypto W) (c\<lparr>current := Some s'\<rparr>) s1)"
    by (intro exI [of _ s']) simp
qed

section \<open>Proposals and round changes\<close>

lemma refines_signs:
  assumes "signsOnly m xs" "\<And>rc. m \<noteq> MRoundChange rc" "\<And>p. m \<noteq> MPrepare p" "Code m = kindCode m"
  shows "refines W calm c (c\<lparr>outbox := outbox c @ xs\<rparr>)"
  using signsOnly_votes [OF assms(1,2)] signsOnly_effectOk [OF assms(1,4)] assms(3) by (blast intro: refines_emit)

lemma refines_sendPreprepareMsg:
  assumes "sendPreprepareMsg backend r c = Some c'"
  shows "refines W calm c c'"
proof -
  obtain s where s: "current c = Some s" using assms by (auto simp: sendPreprepareMsg_def bind_eq_Some_conv)
  obtain n xs m where c': "c' = (c\<lparr>outbox := outbox c @ xs\<rparr>)\<lparr>current := Some (s\<lparr>preprepareSent := n\<rparr>)\<rparr>"
    "signsOnly (MPreprepare m) xs" "pCode m = PreprepareCode" using sendPreprepareMsg_effect [OF assms s] by auto
  have "refines W calm c (c\<lparr>outbox := outbox c @ xs\<rparr>)" by (rule refines_signs [OF c'(2)]) (simp_all add: c'(3))
  moreover have "refines W calm (c\<lparr>outbox := outbox c @ xs\<rparr>) c'"
    unfolding c'(1) using s by (intro refines_request [where s = s and p = "pendingRequest s"]) simp_all
  ultimately show ?thesis by (rule refines_trans)
qed

lemma refines_handleRequest:
  assumes "handleRequest backend r c = Some (err, c')"
  shows "refines W calm c c'"
proof (cases "checkRequestMsg c r")
  case None
  obtain s where s: "current c = Some s" using assms None by (auto simp: handleRequest_def bind_eq_Some_conv)
  let ?c = "c\<lparr>current := Some (s\<lparr>pendingRequest := Some r\<rparr>)\<rparr>"
  have "refines W calm c ?c"
    using s by (intro refines_request [where s = s and n = "preprepareSent s"]) simp_all
  moreover have "c' = ?c \<or> sendPreprepareMsg backend r ?c = Some c'"
    using assms None s by (auto simp: handleRequest_def bind_eq_Some_conv Let_def split: if_splits)
  then have "refines W calm ?c c'" using refines_sendPreprepareMsg refines_quiet [OF quiet_refl] by blast
  ultimately show ?thesis by (rule refines_trans)
next
  case (Some e)
  then have "c' = c" using assms by (auto simp: handleRequest_def bind_eq_Some_conv split: if_splits)
  then show ?thesis by (simp add: refines_quiet)
qed

lemma round_change_vote:
  assumes "preparedRound s = None \<longleftrightarrow> preparedBlock s = None"
    and "signsOnly (MRoundChange (NewRoundChange (keccak256 cr) (rsSequence s) rd (preparedRound s) (preparedBlock s))) xs"
    and "xs \<noteq> []"
  shows "concat (map (voteOf cr) xs) = [VRoundChange (rsSequence s) rd (lockOf cr s)]"
  using assms by (auto simp: signsOnly_def NewRoundChange_def payload_defs lockOf_def)

lemma refines_broadcastRoundChange:
  assumes bc: "broadcastRoundChange (wCrypto W) backend rd c = Some c'"
    and entered: "\<And>s. current c = Some s \<Longrightarrow> calm \<Longrightarrow> rsRound s \<le> rd \<Longrightarrow>
      rd = rsRound s \<or> rd = rsRound s + 1 \<and> coreState c = StateCommitted"
  shows "refines W calm c c'"
proof (rule refinesI)
  fix s assume s: "core_ok W c s" "effectsOk W c"
  let ?cr = "wCrypto W"
  let ?m = "MRoundChange (NewRoundChange (keccak256 ?cr) (rsSequence s) rd (preparedRound s) (preparedBlock s))"
  have cur: "current c = Some s" using s(1) by (simp add: core_ok_def)
  obtain c1 xs where c1: "quiet c c1" "c' = c1\<lparr>outbox := outbox c1 @ xs\<rparr>"
    and xs: "xs = [] \<or> rsRound s \<le> rd \<and> signsOnly ?m xs" using broadcastRoundChange_effect [OF bc cur] by blast
  have ok: "core_ok W c' s" "voterOf ?cr c1 s = voterOf ?cr c s" "effectsOk W c1"
    using c1 s quiet_core_ok [OF c1(1)] quiet_voter [OF c1(1)] quiet_signs [OF c1(1)] by simp_all
  show "\<exists>s'. core_ok W c' s' \<and> effectsOk W c' \<and> worldSteps W calm (voterOf ?cr c s) (voterOf ?cr c' s')"
  proof (cases "xs = []")
    case True
    then show ?thesis using ok c1(2) by (intro exI [of _ s]) simp
  next
    case False
    then have le: "rsRound s \<le> rd" and so: "signsOnly ?m xs" using xs by auto
    have v: "concat (map (voteOf ?cr) xs) = [VRoundChange (rsSequence s) rd (lockOf ?cr s)]"
      using round_change_vote [OF _ so False] s(1) by (simp add: core_ok_def)
    have "Code ?m = kindCode ?m" by (simp add: NewRoundChange_def payload_defs)
    then have "effectsOk W c'" unfolding c1(2) using effectsOk_append [OF ok(3)] signsOnly_effectOk [OF so] by blast
    moreover have "voterOf ?cr c' s = (voterOf ?cr c s)\<lparr>voVotes := voVotes (voterOf ?cr c s)
        @ [VRoundChange (voSeq (voterOf ?cr c s)) rd (voLock (voterOf ?cr c s))]\<rparr>"
      using ok(2) c1(2) v coreVotes_append [of ?cr c1 xs] by (simp add: voterOf_def)
    moreover have "vstep J P C calm (voterOf ?cr c s) ((voterOf ?cr c s)\<lparr>voVotes := voVotes (voterOf ?cr c s)
        @ [VRoundChange (voSeq (voterOf ?cr c s)) rd (voLock (voterOf ?cr c s))]\<rparr>)" for J P C
      using entered [OF cur] le by (intro vstep.roundChange) (auto simp: voterOf_def)
    ultimately show ?thesis using ok(1) by (intro exI [of _ s]) (simp add: r_into_rtranclp)
  qed
qed

section \<open>Accepting a proposal\<close>

lemma verifySeal_valid:
  assumes "verifySeal (wCrypto W) (Some vs) h (sealRound rd) t seal a = Some None"
    and "sameValidators (wVals W sq) vs" "wSeal W seal"
  shows "sealValid W sq h rd t seal a"
proof -
  obtain v where v: "snd (GetByAddress vs a) = Some v"
    "blsVerify (wCrypto W) seal (valBLSPublicKey v) (PrepareSeal (keccak256 (wCrypto W)) h (sealRound rd) t)"
    using assms(1) by (auto simp: verifySeal_def bind_eq_Some_conv split: if_splits)
  with GetByAddress_snd_SomeD [OF v(1)] assms(2,3) show ?thesis
    by (auto simp: sealValid_def sameValidators_def)
qed

lemma handlePreprepareMsg_cases:
  assumes "handlePreprepareMsg cr backend m c = Some (err, c')"
  obtains "quiet c c'"
  | vs c1 s c2 where "valSet c = Some vs" "pSequence m = Block_Number (Proposal m)" "coreState c = StateAcceptRequest"
    "bigUint64 (pRound m) > 0 \<Longrightarrow> isJustified (keccak256 cr) (Proposal m) (payloadView m) (JustificationRoundChanges m)
       (JustificationPrepares m) (QuorumSize vs) = None"
    "quiet c c1" "current c1 = Some s" "setState StatePreprepared (c1\<lparr>current := Some (SetPreprepare m s)\<rparr>) = Some c2"
    "broadcastPrepare cr backend c2 = Some c'"
proof -
  obtain vs where vs: "valSet c = Some vs" using assms by (auto simp: handlePreprepareMsg_def bind_eq_Some_conv)
  note def = assms [unfolded handlePreprepareMsg_def vs Option.bind.bind_lunit]
  have fut: "quiet c ((stopFuturePreprepareTimer c)\<lparr>futurePreprepareTimer := t\<rparr>)" for t
    by (simp add: quiet_def stopFuturePreprepareTimer_def)
  show thesis
  proof (cases "quiet c c'")
    case False
    have "IsProposer vs (pSource m)" using def False by (auto simp: bind_eq_Some_conv split: if_splits)
    moreover have "bigCmp (pSequence m) (Block_Number (Proposal m)) = 0" using def False calculation by (auto split: if_splits)
    moreover have "bigUint64 (pRound m) > 0 \<longrightarrow> isJustified (keccak256 cr) (Proposal m) (payloadView m)
        (JustificationRoundChanges m) (JustificationPrepares m) (QuorumSize vs) = None"
      using def False calculation by (auto split: if_splits)
    moreover have "snd (backendVerify backend (Proposal m)) = None" "coreState c = StateAcceptRequest"
      using def False calculation fut by (auto split: if_splits prod.splits option.splits)
    moreover from this obtain c1 s c2 where c1:
      "newRoundChangeTimer (map_option rsSequence (current c)) (map_option rsRound (current c)) c = Some c1"
      "current c1 = Some s" "setState StatePreprepared (c1\<lparr>current := Some (SetPreprepare m s)\<rparr>) = Some c2"
      "broadcastPrepare cr backend c2 = Some c'"
      using def calculation by (auto simp: bind_eq_Some_conv split: prod.splits if_splits)
    ultimately show thesis using that(2) [OF vs _ _ _ quiet_newRoundChangeTimer [OF c1(1)] c1(2-4)]
      by (simp add: bigCmp_def split: if_splits)
  qed (rule that(1))
qed

lemma bigUint64_pos: "0 < r \<Longrightarrow> r < 2 ^ 64 \<Longrightarrow> 0 < bigUint64 r"
  by (simp add: bigUint64_def word_less_alt uint_word_of_int)

text \<open>A voter step that a state change makes, with the votes it adds.\<close>

lemma voterOf_extend:
  assumes "quiet c1 c2" "c' = c2\<lparr>outbox := outbox c2 @ xs\<rparr>"
  shows "voterOf cr c' s = (voterOf cr c1 s)\<lparr>voVotes := voVotes (voterOf cr c1 s) @ concat (map (voteOf cr) xs)\<rparr>"
  using assms quiet_voter [OF assms(1), of cr s] coreVotes_append [of cr c2 xs] by (simp add: voterOf_def)

lemma refines_preprepare:
  assumes h: "handlePreprepareMsg (wCrypto W) backend m c = Some (err, c')"
    and view: "\<And>s. current c = Some s \<Longrightarrow> pSequence m = rsSequence s \<and> pRound m = rsRound s \<and> rsRound s < 2 ^ 63
      \<and> rsRound s < wRounds W"
    and auth: "\<And>rc. rc \<in> set (JustificationRoundChanges m) \<Longrightarrow> wRoundChange W rc"
      "\<And>p. p \<in> set (JustificationPrepares m) \<Longrightarrow> wPrepare W p" "wHeader W (bHeader (Proposal m))"
  shows "refines W calm c c'"
  using h
proof (cases rule: handlePreprepareMsg_cases)
  case 1
  then show ?thesis by (rule refines_quiet)
next
  case (2 vs c1 s c2)
  let ?cr = "wCrypto W" and ?s = "SetPreprepare m s" and ?b = "Proposal m"
  let ?c = "c1\<lparr>current := Some ?s, coreState := StatePreprepared\<rparr>"
  have cur: "current c = Some s" using 2(5,6) by (simp add: quiet_def)
  have q2: "quiet ?c c2" using setState_quiet [OF 2(7)] by simp
  have "current c2 = Some ?s" "rsProposal ?s = Some ?b" using q2 by (simp_all add: quiet_def SetPreprepare_def rsProposal_def)
  from broadcastPrepare_effect [OF 2(8) this] obtain p xs where
    c': "c' = c2\<lparr>outbox := outbox c2 @ SealCall \<lparr>vRound = rsRound s, vSequence = rsSequence s\<rparr> (bHeader ?b) SealTypePrepare # xs\<rparr>"
    and so: "signsOnly (MPrepare p) xs"
    and p: "pSequence p = rsSequence s" "pRound p = rsRound s" "Digest p = Block_Hash (keccak256 ?cr) ?b" "pCode p = PrepareCode"
    by (auto simp: SetPreprepare_def)
  show ?thesis
  proof (rule refinesI)
    fix s0 assume s0: "core_ok W c s0" "effectsOk W c"
    have [simp]: "s0 = s" using s0(1) cur by (simp add: core_ok_def)
    have votes: "concat (map (voteOf ?cr) xs) = []" by (rule signsOnly_votes [OF so]) simp
    let ?v = "voterOf ?cr c s" and ?d = "Block_Hash (keccak256 ?cr) ?b"
    have "justifiedProposal W (rsSequence s) (rsRound s) ?d"
    proof (cases "rsRound s = 0")
      case False
      then have "0 < rsRound s" "rsRound s < 2 ^ 64" using s0(1) view [OF cur] by (auto simp: core_ok_def)
      then have "isJustified (keccak256 ?cr) ?b (payloadView m) (JustificationRoundChanges m) (JustificationPrepares m) (QuorumSize vs) = None"
        using 2(4) bigUint64_pos view [OF cur] by simp
      moreover have "payloadView m = \<lparr>vRound = rsRound s, vSequence = rsSequence s\<rparr>"
        using view [OF cur] by (simp add: payloadView_def)
      moreover have "QuorumSize vs = QuorumSize (wVals W (rsSequence s))"
        using s0(1) 2(1) sameValidators_simps(1) by (auto simp: core_ok_def)
      ultimately show ?thesis unfolding justifiedProposal_def using 2(2) view [OF cur] auth
        by (intro disjI2 exI [of _ ?b] exI [of _ "JustificationRoundChanges m"] exI [of _ "JustificationPrepares m"]) simp
    qed (simp add: justifiedProposal_def)
    then have step: "worldSteps W calm ?v (?v\<lparr>voPhase := StatePreprepared, voAccepted := Some ?d,
        voVotes := voVotes ?v @ [VPrepare (voSeq ?v) (voRound ?v) ?d]\<rparr>)"
      using 2(3) by (intro r_into_rtranclp vstep.accept) (simp_all add: voterOf_def)
    have "voterOf ?cr c' ?s = ?v\<lparr>voPhase := StatePreprepared, voAccepted := Some ?d,
        voVotes := voVotes ?v @ [VPrepare (voSeq ?v) (voRound ?v) ?d]\<rparr>"
      unfolding voterOf_extend [OF q2 c'] using votes 2(5)
      by (simp add: voterOf_def coreVotes_def quiet_def SetPreprepare_def rsProposal_def lockOf_def Block_Hash_def)
    moreover have "core_ok W c' ?s"
      using s0(1) q2 2(2,3,5) view [OF cur] auth(3) unfolding c'
      by (auto simp: core_ok_def quiet_def proposalOk_def votesCollected_def SetPreprepare_def rsProposal_def)
    moreover have "effectsOk W c'"
      unfolding c' using signsOnly_effectOk [OF so, where W = W] p s0 q2 2(2,5) auth(3) view [OF cur] effectsOk_same [of c2 c W]
      by (intro effectsOk_append) (auto simp: quiet_def Block_Hash_def core_ok_def)
    ultimately show "\<exists>s'. core_ok W c' s' \<and> effectsOk W c' \<and> worldSteps W calm (voterOf ?cr c s0) (voterOf ?cr c' s')"
      using step by (intro exI [of _ ?s]) simp
  qed
qed

section \<open>Collecting PREPAREs\<close>

definition addPrepareTo :: "Prepare \<Rightarrow> roundState \<Rightarrow> roundState" where
  "addPrepareTo m s = s\<lparr>WBFTPrepares := MsgSet_Add (MPrepare m) (WBFTPrepares s)\<rparr>"

lemma handlePrepareMsg_cases:
  assumes "handlePrepareMsg cr backend m c = Some (err, c')"
  obtains "c' = c"
  | s vs b where "current c = Some s" "valSet c = Some vs" "rsProposal s = Some b"
    "verifySeal cr (Some vs) (bHeader b) (sealRound (pRound m)) SealTypePrepare (prSeal m) (pSource m) = Some None"
    "c' = c\<lparr>current := Some (addPrepareTo m s)\<rparr>"
  | s vs b ps c2 where "current c = Some s" "valSet c = Some vs" "rsProposal s = Some b"
    "verifySeal cr (Some vs) (bHeader b) (sealRound (pRound m)) SealTypePrepare (prSeal m) (pSource m) = Some None"
    "MsgSet_Size (WBFTPrepares (addPrepareTo m s)) \<ge> QuorumSize vs"
    "setState StatePrepared (c\<lparr>current := Some ((addPrepareTo m s)\<lparr>preparedRound := Some (rsRound s), preparedBlock := Some b\<rparr>),
       WBFTPreparedPrepares := Some ps\<rparr>) = Some c2"
    "broadcastCommit cr backend c2 = Some c'"
proof -
  obtain s vs b where s: "current c = Some s" "valSet c = Some vs" "rsProposal s = Some b"
    using assms by (auto simp: handlePrepareMsg_def bind_eq_Some_conv)
  note def = assms [unfolded handlePrepareMsg_def s Option.bind.bind_lunit, simplified Let_def, folded addPrepareTo_def]
  show thesis
  proof (cases "c' = c")
    case False
    have dig: "Digest m = Block_Hash (keccak256 cr) b" using def False by (auto split: if_splits)
    have seal: "verifySeal cr (Some vs) (bHeader b) (sealRound (pRound m)) SealTypePrepare (prSeal m) (pSource m) = Some None"
      using def False dig by (auto simp: bind_eq_Some_conv split: if_splits)
    note def = def [unfolded dig seal, simplified]
    show thesis
    proof (cases "QuorumSize vs \<le> MsgSet_Size (WBFTPrepares (addPrepareTo m s)) \<and> State_Cmp (coreState c) StatePrepared < 0")
      case True
      then obtain ps c2 where "setState StatePrepared (c\<lparr>current := Some ((addPrepareTo m s)\<lparr>preparedRound := Some (rsRound s),
          preparedBlock := Some b\<rparr>), WBFTPreparedPrepares := Some ps\<rparr>) = Some c2" "broadcastCommit cr backend c2 = Some c'"
        using def by (auto simp: bind_eq_Some_conv addPrepareTo_def)
      then show thesis using that(3) [OF s seal] True by blast
    next
      case False
      then have "c' = c\<lparr>current := Some (addPrepareTo m s)\<rparr>" using def by (auto simp: addPrepareTo_def)
      then show thesis by (rule that(2) [OF s seal])
    qed
  qed (rule that(1))
qed

lemma votesCollected_addPrepare:
  assumes "votesCollected W s b" "sealValid W (rsSequence s) (bHeader b) (rsRound s) SealTypePrepare (prSeal m) (pSource m)"
  shows "votesCollected W (addPrepareTo m s) b"
  using assms Values_AddD [of _ "MPrepare m" "WBFTPrepares s"] by (auto simp: votesCollected_def addPrepareTo_def)

lemma Source_simps [simp]:
  "Source (MPreprepare x) = pSource x" "Source (MPrepare p) = pSource p" "Source (MCommit m) = pSource m"
  "Source (MRoundChange r) = pSource r"
  by (simp_all add: Source_def payload_defs)

lemma prepare_sealQuorum:
  assumes "votesCollected W s b" "QuorumSize (wVals W (rsSequence s)) \<le> MsgSet_Size (WBFTPrepares s)" "Block_Number b = rsSequence s"
    and "wHeader W (bHeader b)" "0 \<le> rsRound s" "rsRound s < wRounds W"
  shows "sealQuorum W SealTypePrepare (rsSequence s) (rsRound s) (Block_Hash (keccak256 (wCrypto W)) b)"
proof -
  let ?Q = "Source ` set (Values (WBFTPrepares s))"
  have wf: "msgSet_wf (WBFTPrepares s)" using assms(1) by (simp add: votesCollected_def)
  have valid: "\<exists>seal. sealValid W (rsSequence s) (bHeader b) (rsRound s) SealTypePrepare seal a" if "a \<in> ?Q" for a
    using that assms(1) by (force simp: votesCollected_def)
  then have "?Q \<subseteq> set (AddressList (wVals W (rsSequence s)))" by (force simp: sealValid_def AddressList_def)
  moreover have "QuorumSize (wVals W (rsSequence s)) \<le> int (card ?Q)" using card_sources [OF wf] assms(2) by simp
  ultimately show ?thesis unfolding sealQuorum_def using assms(3-6) valid by blast
qed

lemma refines_addPrepare:
  assumes "current c = Some s" "coreState c = StatePreprepared" "rsProposal s = Some b"
    and "sealValid W (rsSequence s) (bHeader b) (rsRound s) SealTypePrepare (prSeal m) (pSource m)"
  shows "refines W calm c (c\<lparr>current := Some (addPrepareTo m s)\<rparr>)"
proof (rule refinesI)
  let ?c = "c\<lparr>current := Some (addPrepareTo m s)\<rparr>" and ?cr = "wCrypto W"
  fix s0 assume s0: "core_ok W c s0" "effectsOk W c"
  then have [simp]: "s0 = s" using assms(1) by (simp add: core_ok_def)
  have "core_ok W ?c (addPrepareTo m s)"
    using s0(1) votesCollected_addPrepare assms by (auto simp: core_ok_def proposalOk_def addPrepareTo_def rsProposal_def)
  moreover have "effectsOk W ?c" "voterOf ?cr ?c (addPrepareTo m s) = voterOf ?cr c s"
    using s0(2) effectsOk_same [of ?c c] by (simp_all add: voterOf_def coreVotes_def rsProposal_def lockOf_def addPrepareTo_def)
  ultimately show "\<exists>s'. core_ok W ?c s' \<and> effectsOk W ?c \<and> worldSteps W calm (voterOf ?cr c s0) (voterOf ?cr ?c s')"
    by (intro exI [of _ "addPrepareTo m s"]) simp
qed

text \<open>A quorum of PREPAREs: the block is recorded as prepared, and the COMMIT is sent.\<close>

lemma refines_prepared:
  assumes cur: "current c = Some s" "rsProposal s = Some b" and st: "coreState c = StatePreprepared"
    and q: "QuorumSize (wVals W (rsSequence s)) \<le> MsgSet_Size (WBFTPrepares s)"
    and c2: "quiet (c\<lparr>current := Some (s\<lparr>preparedRound := Some (rsRound s), preparedBlock := Some b\<rparr>),
        WBFTPreparedPrepares := ps, coreState := StatePrepared\<rparr>) c2"
    and c': "broadcastCommit (wCrypto W) backend c2 = Some c'"
  shows "refines W calm c c'"
proof (rule refinesI)
  let ?cr = "wCrypto W" and ?s = "s\<lparr>preparedRound := Some (rsRound s), preparedBlock := Some b\<rparr>"
  fix s0 assume s0: "core_ok W c s0" "effectsOk W c"
  then have [simp]: "s0 = s" using cur(1) by (simp add: core_ok_def)
  let ?v = "voterOf ?cr c s" and ?d = "Block_Hash (keccak256 ?cr) b"
  let ?v' = "?v\<lparr>voPhase := StatePrepared, voLock := Some (voRound ?v, ?d), voVotes := voVotes ?v @ [VCommit (voSeq ?v) (voRound ?v) ?d]\<rparr>"
  have b: "Block_Number b = rsSequence s" "votesCollected W s b" "wHeader W (bHeader b)" "0 \<le> rsRound s" "rsRound s < wRounds W"
    using s0(1) st cur(2) by (auto simp: core_ok_def proposalOk_def)
  then have col: "votesCollected W ?s b" by (simp add: votesCollected_def)
  have step: "worldSteps W calm ?v ?v'"
    using st cur(2) prepare_sealQuorum [OF b(2) q b(1,3-5)] by (intro r_into_rtranclp vstep.commit) (simp_all add: voterOf_def)
  have "current c2 = Some ?s" "rsProposal ?s = Some b" using c2 cur(2) by (simp_all add: quiet_def rsProposal_def)
  from broadcastCommit_effect [OF c' this] obtain p xs where
    e: "c' = c2\<lparr>outbox := outbox c2 @ SealCall \<lparr>vRound = rsRound s, vSequence = rsSequence s\<rparr> (bHeader b) SealTypeCommit # xs\<rparr>"
    and so: "signsOnly (MCommit p) xs" "pCode p = CommitCode" by auto
  have votes: "concat (map (voteOf ?cr) xs) = []" by (rule signsOnly_votes [OF so(1)]) simp
  have "voterOf ?cr c' ?s = ?v'"
    unfolding voterOf_extend [OF c2 e] using votes st cur(2)
    by (simp add: voterOf_def coreVotes_def rsProposal_def lockOf_def Block_Hash_def)
  moreover have "core_ok W c' ?s"
    using s0(1) c2 b(1,3-5) col cur(2) q unfolding e by (auto simp: core_ok_def quiet_def proposalOk_def rsProposal_def)
  moreover have "effectsOk W c'"
    unfolding e using signsOnly_effectOk [OF so(1), where W = W] so(2) s0 c2 b(1,3-5) effectsOk_same [of c2 c W]
    by (intro effectsOk_append) (auto simp: quiet_def core_ok_def)
  ultimately show "\<exists>s'. core_ok W c' s' \<and> effectsOk W c' \<and> worldSteps W calm (voterOf ?cr c s0) (voterOf ?cr c' s')"
    using step by (intro exI [of _ ?s]) simp
qed

lemma refines_assuming: "(\<And>s. core_ok W c s \<Longrightarrow> refines W calm c c') \<Longrightarrow> refines W calm c c'"
  by (auto simp: refines_def)

lemma refines_prepare:
  assumes h: "handlePrepareMsg (wCrypto W) backend m c = Some (err, c')"
    and st: "coreState c = StatePreprepared" and auth: "wSeal W (prSeal m)"
    and view: "\<And>s. current c = Some s \<Longrightarrow> pRound m = rsRound s"
  shows "refines W calm c c'"
proof (rule refines_assuming)
  fix s0 assume s0: "core_ok W c s0"
  have valid: "sealValid W (rsSequence s) (bHeader b) (rsRound s) SealTypePrepare (prSeal m) (pSource m)"
    "QuorumSize vs = QuorumSize (wVals W (rsSequence s))"
    if "current c = Some s" "valSet c = Some vs"
      "verifySeal (wCrypto W) (Some vs) (bHeader b) (sealRound (pRound m)) SealTypePrepare (prSeal m) (pSource m) = Some None"
    for s vs b
    using that s0 verifySeal_valid [OF _ _ auth] view [OF that(1)] sameValidators_simps(1) by (auto simp: core_ok_def)
  show "refines W calm c c'"
    using h
  proof (cases rule: handlePrepareMsg_cases)
    case 1
    then show ?thesis by (simp add: refines_quiet)
  next
    case (2 s vs b)
    then show ?thesis using refines_addPrepare [OF 2(1) _ 2(3) valid(1) [OF 2(1,2,4)]] st by simp
  next
    case (3 s vs b ps c2)
    let ?c = "c\<lparr>current := Some (addPrepareTo m s)\<rparr>"
    have "refines W calm c ?c" using st by (intro refines_addPrepare [OF 3(1) _ 3(3) valid(1) [OF 3(1,2,4)]]) simp
    moreover have "refines W calm ?c c'"
      by (rule refines_prepared [where ps = "Some ps" and s = "addPrepareTo m s" and b = b, OF _ _ _ _ _ 3(7)])
        (use 3(3,5) st valid(2) [OF 3(1,2,4)] setState_quiet [OF 3(6)] in \<open>auto simp: addPrepareTo_def rsProposal_def\<close>)
    ultimately show ?thesis by (rule refines_trans)
  qed
qed

section \<open>Collecting COMMITs\<close>

definition addCommitTo :: "Commit \<Rightarrow> roundState \<Rightarrow> roundState" where
  "addCommitTo m s = s\<lparr>WBFTCommits := MsgSet_Add (MCommit m) (WBFTCommits s)\<rparr>"

lemma handleCommitMsg_cases:
  assumes "handleCommitMsg cr backend m c = Some (err, c')"
  obtains "c' = c"
  | s vs b where "current c = Some s" "valSet c = Some vs" "rsProposal s = Some b"
    "verifySeal cr (Some vs) (bHeader b) (sealRound (pRound m)) SealTypeCommit (CommitSeal m) (pSource m) = Some None"
    "c' = c\<lparr>current := Some (addCommitTo m s)\<rparr>
     \<or> QuorumSize vs \<le> MsgSet_Size (WBFTCommits (addCommitTo m s))
       \<and> commitWBFT cr backend (c\<lparr>current := Some (addCommitTo m s)\<rparr>) = Some c'"
proof -
  obtain s vs b where s: "current c = Some s" "valSet c = Some vs" "rsProposal s = Some b"
    using assms by (auto simp: handleCommitMsg_def bind_eq_Some_conv)
  note def = assms [unfolded handleCommitMsg_def s Option.bind.bind_lunit, simplified Let_def, folded addCommitTo_def]
  show thesis
  proof (cases "c' = c")
    case False
    have dig: "cDigest m = Block_Hash (keccak256 cr) b" using def False by (auto split: if_splits)
    have seal: "verifySeal cr (Some vs) (bHeader b) (sealRound (pRound m)) SealTypeCommit (CommitSeal m) (pSource m) = Some None"
      using def False dig by (auto simp: bind_eq_Some_conv split: if_splits)
    note def = def [unfolded dig seal, simplified]
    have "c' = c\<lparr>current := Some (addCommitTo m s)\<rparr>
     \<or> QuorumSize vs \<le> MsgSet_Size (WBFTCommits (addCommitTo m s))
       \<and> commitWBFT cr backend (c\<lparr>current := Some (addCommitTo m s)\<rparr>) = Some c'"
      using def by (auto simp: bind_eq_Some_conv addCommitTo_def split: if_splits)
    then show thesis by (rule that(2) [OF s seal])
  qed (rule that(1))
qed

lemma votesCollected_addCommit:
  assumes "votesCollected W s b" "sealValid W (rsSequence s) (bHeader b) (rsRound s) SealTypeCommit (CommitSeal m) (pSource m)"
  shows "votesCollected W (addCommitTo m s) b"
  using assms Values_AddD [of _ "MCommit m" "WBFTCommits s"] by (auto simp: votesCollected_def addCommitTo_def)

lemma commit_sealQuorum:
  assumes "votesCollected W s b" "QuorumSize (wVals W (rsSequence s)) \<le> MsgSet_Size (WBFTCommits s)" "Block_Number b = rsSequence s"
    and "wHeader W (bHeader b)" "0 \<le> rsRound s" "rsRound s < wRounds W"
  shows "sealQuorum W SealTypeCommit (rsSequence s) (rsRound s) (Block_Hash (keccak256 (wCrypto W)) b)"
proof -
  let ?Q = "Source ` set (Values (WBFTCommits s))"
  have wf: "msgSet_wf (WBFTCommits s)" using assms(1) by (simp add: votesCollected_def)
  have valid: "\<exists>seal. sealValid W (rsSequence s) (bHeader b) (rsRound s) SealTypeCommit seal a" if "a \<in> ?Q" for a
    using that assms(1) by (force simp: votesCollected_def)
  then have "?Q \<subseteq> set (AddressList (wVals W (rsSequence s)))" by (force simp: sealValid_def AddressList_def)
  moreover have "QuorumSize (wVals W (rsSequence s)) \<le> int (card ?Q)" using card_sources [OF wf] assms(2) by simp
  ultimately show ?thesis unfolding sealQuorum_def using assms(3-6) valid by blast
qed

lemma refines_addCommit:
  assumes "current c = Some s" "coreState c \<noteq> StateAcceptRequest" "rsProposal s = Some b"
    and "sealValid W (rsSequence s) (bHeader b) (rsRound s) SealTypeCommit (CommitSeal m) (pSource m)"
  shows "refines W calm c (c\<lparr>current := Some (addCommitTo m s)\<rparr>)"
proof (rule refinesI)
  let ?c = "c\<lparr>current := Some (addCommitTo m s)\<rparr>" and ?cr = "wCrypto W"
  fix s0 assume s0: "core_ok W c s0" "effectsOk W c"
  then have [simp]: "s0 = s" using assms(1) by (simp add: core_ok_def)
  have "core_ok W ?c (addCommitTo m s)"
    using s0(1) votesCollected_addCommit assms by (auto simp: core_ok_def proposalOk_def addCommitTo_def rsProposal_def)
  moreover have "effectsOk W ?c" "voterOf ?cr ?c (addCommitTo m s) = voterOf ?cr c s"
    using s0(2) effectsOk_same [of ?c c] by (simp_all add: voterOf_def coreVotes_def rsProposal_def lockOf_def addCommitTo_def)
  ultimately show "\<exists>s'. core_ok W ?c s' \<and> effectsOk W ?c \<and> worldSteps W calm (voterOf ?cr c s0) (voterOf ?cr ?c s')"
    by (intro exI [of _ "addCommitTo m s"]) simp
qed

text \<open>The seals handed to the backend with the block.\<close>

lemma preparedSealsOf_map:
  assumes "preparedSealsOf vs ms = Some sds" "\<And>m. m \<in> set ms \<Longrightarrow> \<exists>p. m = MPrepare p"
  shows "sds = map (\<lambda>m. sealDataOf vs (Source m) (prSeal (the (asPrepare m)))) ms"
  using assms by (induction ms arbitrary: sds) (fastforce simp: bind_eq_Some_conv sealDataOf_def Let_def split: if_splits)+

lemma committedSealsOf_map:
  assumes "committedSealsOf vs ms = Some sds" "\<And>m. m \<in> set ms \<Longrightarrow> \<exists>p. m = MCommit p"
  shows "sds = map (\<lambda>m. sealDataOf vs (Source m) (CommitSeal (the (asCommit m)))) ms"
  using assms by (induction ms arbitrary: sds) (fastforce simp: bind_eq_Some_conv sealDataOf_def Let_def split: if_splits)+

lemma sealsProve_messages:
  assumes wf: "msgSet_wf ms" "QuorumSize (wVals W sq) \<le> MsgSet_Size ms"
    and sds: "sds = map (\<lambda>m. sealDataOf (wVals W sq) (Source m) (f m)) (Values ms)"
    and valid: "\<And>m. m \<in> set (Values ms) \<Longrightarrow> sealValid W sq h rd t (f m) (Source m)"
  shows "sealsProve W sq h rd t sds"
  unfolding sealsProve_def using assms distinct_sources [OF wf(1)]
  by (intro exI [of _ "map (\<lambda>m. (Source m, f m)) (Values ms)"]) (simp add: Values_def MsgSet_Size_def comp_def)

lemma sealsProve_collected:
  assumes "votesCollected W s b" "sameValidators (wVals W (rsSequence s)) vs" "Block_Number b = rsSequence s"
    and "QuorumSize (wVals W (rsSequence s)) \<le> MsgSet_Size (WBFTPrepares s)"
    and "QuorumSize (wVals W (rsSequence s)) \<le> MsgSet_Size (WBFTCommits s)"
    and "preparedSealsOf vs (Values (WBFTPrepares s)) = Some ps" "committedSealsOf vs (Values (WBFTCommits s)) = Some cs"
  shows "sealsProve W (Block_Number b) (bHeader b) (rsRound s) SealTypePrepare ps"
    "sealsProve W (Block_Number b) (bHeader b) (rsRound s) SealTypeCommit cs"
proof -
  have vs: "sealDataOf vs = sealDataOf (wVals W (rsSequence s))"
    using sameValidators_simps(3) [OF assms(2)] by (simp add: sealDataOf_def fun_eq_iff)
  show "sealsProve W (Block_Number b) (bHeader b) (rsRound s) SealTypePrepare ps"
    using preparedSealsOf_map [OF assms(6)] assms(1,3,4) vs
    by (intro sealsProve_messages [where f = "\<lambda>m. prSeal (the (asPrepare m))" and ms = "WBFTPrepares s"])
      (fastforce simp: votesCollected_def)+
  show "sealsProve W (Block_Number b) (bHeader b) (rsRound s) SealTypeCommit cs"
    using committedSealsOf_map [OF assms(7)] assms(1,3,5) vs
    by (intro sealsProve_messages [where f = "\<lambda>m. CommitSeal (the (asCommit m))" and ms = "WBFTCommits s"])
      (fastforce simp: votesCollected_def)+
qed

lemma commitWBFT_cases:
  assumes "commitWBFT cr backend c = Some c'" "current c = Some s" "rsProposal s = Some b"
  obtains c2 ps cs vs where "quiet (c\<lparr>coreState := StateCommitted\<rparr>) c2" "valSet c = Some vs"
    "preparedSealsOf vs (Values (WBFTPrepares s)) = Some ps" "committedSealsOf vs (Values (WBFTCommits s)) = Some cs"
    "c' = emit (CommitBlock b ps cs (rsRound s)) c2
     \<or> broadcastNextRoundChange cr backend (emit (CommitBlock b ps cs (rsRound s)) c2) = Some c'"
proof -
  obtain c2 where c2: "setState StateCommitted c = Some c2" using assms(1) by (auto simp: commitWBFT_def bind_eq_Some_conv)
  note q = setState_quiet [OF c2]
  then have "current c2 = Some s" using assms(2) by (simp add: quiet_def)
  with c2 assms(1,3) obtain ps cs vs where "valSet c2 = Some vs" "preparedSealsOf vs (Values (WBFTPrepares s)) = Some ps"
    "committedSealsOf vs (Values (WBFTCommits s)) = Some cs" "c' = emit (CommitBlock b ps cs (rsRound s)) c2
     \<or> broadcastNextRoundChange cr backend (emit (CommitBlock b ps cs (rsRound s)) c2) = Some c'"
    by (auto simp: commitWBFT_def bind_eq_Some_conv Let_def split: if_splits)
  with q show thesis by (intro that) (simp_all add: quiet_def)
qed

lemma refines_decide:
  assumes "quiet (c\<lparr>coreState := StateCommitted\<rparr>) c2" "current c = Some s" "rsProposal s = Some b"
    and "coreState c = StatePrepared" "QuorumSize (wVals W (rsSequence s)) \<le> MsgSet_Size (WBFTCommits s)"
    and seals: "valSet c = Some vs" "preparedSealsOf vs (Values (WBFTPrepares s)) = Some ps"
      "committedSealsOf vs (Values (WBFTCommits s)) = Some cs"
  shows "refines W calm c (emit (CommitBlock b ps cs (rsRound s)) c2)"
proof (rule refinesI)
  let ?c = "emit (CommitBlock b ps cs (rsRound s)) c2" and ?cr = "wCrypto W"
  fix s0 assume s0: "core_ok W c s0" "effectsOk W c"
  then have [simp]: "s0 = s" using assms(2) by (simp add: core_ok_def)
  let ?v = "voterOf ?cr c s" and ?d = "Block_Hash (keccak256 ?cr) b"
  have b: "Block_Number b = rsSequence s" "votesCollected W s b" "wHeader W (bHeader b)"
    "QuorumSize (wVals W (rsSequence s)) \<le> MsgSet_Size (WBFTPrepares s)" "0 \<le> rsRound s" "rsRound s < wRounds W"
    using s0(1) assms(3,4) by (auto simp: core_ok_def proposalOk_def)
  have sv: "sameValidators (wVals W (rsSequence s)) vs" using s0(1) seals(1) by (simp add: core_ok_def)
  have c: "?c = c2\<lparr>outbox := outbox c2 @ [CommitBlock b ps cs (rsRound s)]\<rparr>" by (simp add: emit_def)
  have "worldSteps W calm ?v (?v\<lparr>voPhase := StateCommitted, voVotes := voVotes ?v @ [VDecide (voSeq ?v) (voRound ?v) ?d]\<rparr>)"
    using commit_sealQuorum [OF b(2) assms(5) b(1,3,5,6)] assms(3,4)
    by (intro r_into_rtranclp vstep.decide) (simp_all add: voterOf_def)
  moreover have "voterOf ?cr ?c s = ?v\<lparr>voPhase := StateCommitted, voVotes := voVotes ?v @ [VDecide (voSeq ?v) (voRound ?v) ?d]\<rparr>"
    unfolding voterOf_extend [OF assms(1) c] using b(1) assms(4) by (simp add: voterOf_def coreVotes_def)
  moreover have "core_ok W ?c s" unfolding c using s0(1) assms(1,4)
    by (auto simp: core_ok_def quiet_def proposalOk_def)
  moreover have "effectsOk W ?c" unfolding c using s0 assms(1) effectsOk_same [of c2 c W] b(3)
      sealsProve_collected [OF b(2) sv b(1,4) assms(5) seals(2,3)]
    by (intro effectsOk_append) (auto simp: quiet_def core_ok_def)
  ultimately show "\<exists>s'. core_ok W ?c s' \<and> effectsOk W ?c \<and> worldSteps W calm (voterOf ?cr c s0) (voterOf ?cr ?c s')"
    by (intro exI [of _ s]) simp
qed

end
