(* ===== verification/Round_Refinement.thy ===== *)
theory Round_Refinement
  imports Core_Refinement
begin

text \<open>
  Starting a round, and every event of the core, as steps of the abstract voter. A step is \<open>calm\<close> if no
  block is reported bad and no round is left behind by a chain head that has moved on; then a
  ROUND-CHANGE is only sent into a round the node is in.
\<close>

section \<open>Starting a round\<close>

lemma updateRoundState_new:
  assumes "updateRoundState cr backend vs view False c = Some c'"
  shows "quiet c (c'\<lparr>current := current c, valSet := valSet c\<rparr>)" "valSet c' = Some vs"
    "current c' = Some (newRoundState view vs None None None None)"
  using assms by (auto simp: updateRoundState_def updatePriorState_def bind_eq_Some_conv quiet_def split: option.splits)

text \<open>The prepared round and block carried into a later round: dropped if the block is known to be bad.\<close>

definition carried :: "Crypto \<Rightarrow> Backend \<Rightarrow> roundState \<Rightarrow> int option \<times> Block option" where
  "carried cr backend s = (case preparedBlock s of
     Some b \<Rightarrow> if HasBadProposal backend (Block_Hash (keccak256 cr) b) then (None, None) else (preparedRound s, Some b)
   | None \<Rightarrow> (preparedRound s, None))"

lemma updateRoundState_change:
  assumes "updateRoundState cr backend vs view True c = Some c'" "current c = Some s"
  shows "quiet c (c'\<lparr>current := current c, valSet := valSet c\<rparr>)" "valSet c' = Some vs"
    "current c' = Some (newRoundState view vs (rsPreprepare s) (fst (carried cr backend s)) (snd (carried cr backend s))
       (pendingRequest s))"
  using assms by (auto simp: updateRoundState_def carried_def quiet_def Let_def ClearExtraSeals_def split: option.splits)

text \<open>The state after a round has been entered with round state \<open>s'\<close> and validators \<open>vs\<close>.\<close>

definition roundEntered :: "Core \<Rightarrow> int \<Rightarrow> defaultSet \<Rightarrow> roundState \<Rightarrow> Core \<Rightarrow> bool" where
  "roundEntered c rd vs s' c' \<longleftrightarrow> current c' = Some s' \<and> coreState c' = StateAcceptRequest
     \<and> valSet c' = Some vs \<and> outbox c' = outbox c @ [NotifyNewRound rd] \<and> coreAddress c' = coreAddress c
     \<and> (\<exists>rcs. rcSet c' = Some (NewRound rd rcs)
          \<and> (rcs = newRoundChangeSet vs \<or> (\<exists>old. rcSet c = Some old \<and> rcs = ClearLowerThan rd old)))"

lemma resetRoundChanges_result:
  assumes "resetRoundChanges lp rd c = Some c'"
  shows "quiet c (c'\<lparr>rcSet := rcSet c\<rparr>)"
    "\<exists>rcs. rcSet c' = Some (NewRound rd rcs)
       \<and> ((\<exists>vs. valSet c = Some vs \<and> rcs = newRoundChangeSet vs) \<or> (\<exists>old. rcSet c = Some old \<and> rcs = ClearLowerThan rd old))"
  using assms by (auto simp: resetRoundChanges_def bind_eq_Some_conv quiet_def ClearExtraSeals_def split: if_splits)

lemma enterRound:
  assumes "quiet c (c2\<lparr>current := current c, valSet := valSet c\<rparr>)" "current c2 = Some s'" "valSet c2 = Some vs0"
    and "setState StateAcceptRequest (c2\<lparr>valSet := Some vs\<rparr>) = Some c3" "resetRoundChanges lp rd c3 = Some c4"
    and "newRoundChangeTimer x y (emit (NotifyNewRound rd) c4) = Some c'"
  shows "roundEntered c rd vs s' c'"
proof -
  note q = setState_quiet [OF assms(4)] resetRoundChanges_result [OF assms(5)] quiet_newRoundChangeTimer [OF assms(6)]
  then show ?thesis using assms(1-3) by (auto simp: roundEntered_def quiet_def emit_def)
qed

lemma startNewRound_parts:
  assumes "startNewRound cr backend rd c = Some c'" "LastProposal backend = (lp, lpr)"
    "roundKind lp rd c = Some kind" "kind \<noteq> NoRound"
  shows "\<exists>x c2 vs1 c3 c4 (s1 :: roundState). nextView backend lp rd (kind = RoundChangeTo) c = Some x
    \<and> updateRoundState cr backend (fst (snd x)) (fst x) (kind = RoundChangeTo) (snd (snd x)) = Some c2 \<and> valSet c2 = Some vs1
    \<and> setState StateAcceptRequest (c2\<lparr>valSet := Some (CalcProposer vs1 lpr (bigUint64 (vRound (fst x))))\<rparr>) = Some c3
    \<and> resetRoundChanges lp rd c3 = Some c4
    \<and> newRoundChangeTimer (Some (rsSequence s1)) (Some (rsRound s1)) (emit (NotifyNewRound rd) c4) = Some c'"
proof -
  obtain u where "(if current c = None then Some () else Option.bind (valSet c) (\<lambda>vs. Some ())) = Some u"
    using assms by (auto simp: startNewRound_def bind_eq_Some_conv)
  then show ?thesis using assms
    by (simp add: startNewRound_def Let_def split_def bind_eq_Some_conv del: ex_simps split del: if_split)
      (elim exE conjE, intro exI conjI, assumption+)
qed

lemma startNewRound_cases:
  assumes start: "startNewRound cr backend rd c = Some c'" and s: "current c = Some s"
  obtains "c' = c" "roundKind (fst (LastProposal backend)) rd c = Some NoRound"
  | lp vs where "fst (LastProposal backend) = Some lp" "rsSequence s \<le> Block_Number lp"
    "sameValidators (backendValidators backend lp) vs"
    "roundEntered c rd vs (newRoundState \<lparr>vRound = 0, vSequence = Block_Number lp + 1\<rparr> (backendValidators backend lp)
       None None None None) c'"
  | vs0 vs where "rd \<noteq> 0" "rsRound s \<le> rd" "valSet c = Some vs0" "sameValidators vs0 vs"
    "\<exists>lp. fst (LastProposal backend) = Some lp \<and> Block_Number lp < rsSequence s"
    "roundEntered c rd vs (newRoundState \<lparr>vRound = rd, vSequence = rsSequence s\<rparr> vs0 (rsPreprepare s)
       (fst (carried cr backend s)) (snd (carried cr backend s)) (pendingRequest s)) c'"
proof -
  obtain lp lpr where lp: "LastProposal backend = (lp, lpr)" by (cases "LastProposal backend")
  obtain kind where kind: "roundKind lp rd c = Some kind"
    using start lp by (auto simp: startNewRound_def bind_eq_Some_conv)
  show thesis
  proof (cases "kind = NoRound")
    case True
    then show thesis using start lp kind that(1) by (simp add: startNewRound_def)
  next
    case False
    then obtain view nvs c1 c2 vs1 c3 c4 and s1 :: roundState where
      c1: "nextView backend lp rd (kind = RoundChangeTo) c = Some (view, nvs, c1)"
      and c2: "updateRoundState cr backend nvs view (kind = RoundChangeTo) c1 = Some c2" "valSet c2 = Some vs1"
      and c3: "setState StateAcceptRequest (c2\<lparr>valSet := Some (CalcProposer vs1 lpr (bigUint64 (vRound view)))\<rparr>) = Some c3"
      and c4: "resetRoundChanges lp rd c3 = Some c4"
      and c': "newRoundChangeTimer (Some (rsSequence s1)) (Some (rsRound s1)) (emit (NotifyNewRound rd) c4) = Some c'"
      using startNewRound_parts [OF start lp kind] by force
    let ?vs = "CalcProposer vs1 lpr (bigUint64 (vRound view))"
    have sv: "sameValidators vs1 ?vs" by (intro sameValidators_CalcProposer) (simp add: sameValidators_def)
    show thesis
    proof (cases "kind = RoundChangeTo")
      case True
      then have view: "view = \<lparr>vRound = rd, vSequence = rsSequence s\<rparr>" "valSet c = Some nvs" "c1 = c"
        using c1 s by (auto simp: nextView_def bind_eq_Some_conv)
      note u = updateRoundState_change [OF c2(1) [unfolded True simp_thms view(3)] s]
      have "vs1 = nvs" using u(2) c2(2) by simp
      moreover have "roundEntered c rd ?vs (newRoundState view nvs (rsPreprepare s)
       (fst (carried cr backend s)) (snd (carried cr backend s)) (pendingRequest s)) c'"
        by (rule enterRound [OF u(1,3,2) c3 c4 c'])
      moreover have "rd \<noteq> 0" "rsRound s \<le> rd" "\<exists>b. lp = Some b \<and> Block_Number b < rsSequence s"
        using kind True s by (auto simp: roundKind_def bind_eq_Some_conv bigCmp_def split: if_splits)
      ultimately show thesis using that(3) view sv lp by auto
    next
      case False
      then have "kind = NewSequence" using \<open>kind \<noteq> NoRound\<close> by (cases kind) simp_all
      then obtain b where b: "lp = Some b" "rsSequence s \<le> Block_Number b"
        using kind s by (auto simp: roundKind_def bind_eq_Some_conv bigCmp_def split: if_splits)
      have view: "view = \<lparr>vRound = 0, vSequence = Block_Number b + 1\<rparr>" "nvs = backendValidators backend b"
        "addEffectiveSealToExtraSeal c = Some c1" using c1 False b(1) by (auto simp: nextView_def bind_eq_Some_conv)
      note q1 = quiet_addEffectiveSeal [OF view(3)]
      have "updateRoundState cr backend nvs view False c1 = Some c2" using c2(1) False by simp
      note u = updateRoundState_new [OF this]
      have "vs1 = nvs" using u(2) c2(2) by simp
      moreover have "quiet c (c2\<lparr>current := current c, valSet := valSet c\<rparr>)" using q1 u(1) by (auto simp: quiet_def)
      then have "roundEntered c rd ?vs (newRoundState view nvs None None None None) c'"
        by (rule enterRound [OF _ u(3,2) c3 c4 c'])
      ultimately show thesis using that(2) b view sv lp by auto
    qed
  qed
qed

section \<open>Round numbers that fit\<close>

lemma smallRounds_new [simp]: "smallRounds (newRoundChangeSet vs)"
  by (simp add: smallRounds_def newRoundChangeSet_def)

lemma smallRounds_ensureRound:
  assumes "smallRounds rcs" "0 \<le> r" "r < 2 ^ 63"
  shows "smallRounds (ensureRound (bigUint64 r) rcs)"
proof -
  have "uint (bigUint64 r) < 2 ^ 63" using assms(2,3) by simp
  moreover have "x \<in> set (mapSet k v m) \<Longrightarrow> x = (k, v) \<or> x \<in> set m" for x k v and m :: "('a, 'b) gomap"
    by (induction m) (auto split: if_splits)
  ultimately show ?thesis using assms(1) unfolding smallRounds_def ensureRound_def by (fastforce split: if_splits)
qed

lemma smallRounds_NewRound: "smallRounds rcs \<Longrightarrow> 0 \<le> r \<Longrightarrow> r < 2 ^ 63 \<Longrightarrow> smallRounds (NewRound r rcs)"
  using smallRounds_ensureRound [of rcs r] by (simp add: NewRound_def Let_def smallRounds_def)

lemma smallRounds_Clear: "smallRounds rcs \<Longrightarrow> smallRounds (ClearLowerThan r rcs)"
  by (auto simp: smallRounds_def ClearLowerThan_def Let_def)

lemma smallRounds_addMessage: "smallRounds rcs \<Longrightarrow> smallRounds (addMessage k m rcs)"
proof -
  have "x \<in> set (mapSet k v m) \<Longrightarrow> fst x \<in> insert k (fst ` set m)" for x k v and m :: "('a, 'b) gomap"
    by (induction m) (auto split: if_splits)
  then show "smallRounds rcs \<Longrightarrow> smallRounds (addMessage k m rcs)"
    unfolding smallRounds_def addMessage_def
    by (fastforce simp: case_prod_unfold dest: map_of_SomeD split: option.splits)
qed

lemma smallRounds_Add:
  assumes "Rcs_Add r m pr pb ps q rcs = Some rcs'" "smallRounds rcs" "0 \<le> r" "r < 2 ^ 63"
  shows "smallRounds rcs'"
proof -
  let ?r = "addMessage (bigUint64 r) m (ensureRound (bigUint64 r) rcs)"
  have "smallRounds ?r" using assms(2-4) by (intro smallRounds_addMessage smallRounds_ensureRound)
  moreover have "roundChanges rcs' = roundChanges ?r"
    using assms(1) by (auto simp: Rcs_Add_def Let_def bind_eq_Some_conv split: option.splits if_splits)
  ultimately show ?thesis by (simp add: smallRounds_def)
qed

lemma roundEntered_smallRounds:
  assumes "roundEntered c rd vs s' c'" "rcSet c = Some rcs" "smallRounds rcs" "0 \<le> rd" "rd < 2 ^ 63"
  shows "\<exists>rcs. rcSet c' = Some rcs \<and> smallRounds rcs"
  using assms smallRounds_NewRound smallRounds_Clear by (fastforce simp: roundEntered_def)

section \<open>A new round is a voter step\<close>

lemma roundEntered_ok:
  assumes "roundEntered c rd vs s' c'" "core_ok W c s" "effectsOk W c" "0 \<le> rd" "rd < 2 ^ 63"
    and "sameValidators (wVals W (rsSequence s')) vs" "0 \<le> rsRound s'" "Values (WBFTPrepares s') = []" "Values (WBFTCommits s') = []"
    and "msgSet_wf (WBFTPrepares s')" "msgSet_wf (WBFTCommits s')" "preparedRound s' = None \<longleftrightarrow> preparedBlock s' = None"
  shows "core_ok W c' s'" "effectsOk W c'"
    "voterOf (wCrypto W) c' s' = (voterOf (wCrypto W) c s)\<lparr>voSeq := rsSequence s', voRound := rsRound s',
       voPhase := StateAcceptRequest, voAccepted := None, voLock := lockOf (wCrypto W) s'\<rparr>"
proof -
  obtain rcs where "rcSet c = Some rcs" "smallRounds rcs" using assms(2) by (auto simp: core_ok_def)
  then show "core_ok W c' s'"
    using roundEntered_smallRounds [OF assms(1) _ _ assms(4,5)] assms(1,6-12)
    by (auto simp: core_ok_def proposalOk_def roundEntered_def)
  show "effectsOk W c'" "voterOf (wCrypto W) c' s' = (voterOf (wCrypto W) c s)\<lparr>voSeq := rsSequence s',
      voRound := rsRound s', voPhase := StateAcceptRequest, voAccepted := None, voLock := lockOf (wCrypto W) s'\<rparr>"
    using assms(1,3) by (auto simp: effectsOk_def voterOf_def coreVotes_def roundEntered_def)
qed

lemma sameValidators_trans: "sameValidators a b \<Longrightarrow> sameValidators b c \<Longrightarrow> sameValidators a c"
  by (simp add: sameValidators_def)

lemma refines_startNewRound:
  assumes start: "startNewRound (wCrypto W) backend rd c = Some c'" and rd: "0 \<le> rd" "rd < 2 ^ 63"
    and vals: "\<And>b. sameValidators (wVals W (Block_Number b + 1)) (backendValidators backend b)"
    and new: "\<And>s. current c = Some s \<Longrightarrow> rd \<noteq> 0 \<Longrightarrow> rd \<noteq> rsRound s"
    and bad: "\<And>h. calm \<Longrightarrow> \<not> HasBadProposal backend h"
  shows "refines W calm c c'"
proof (rule refinesI)
  let ?cr = "wCrypto W"
  fix s assume s: "core_ok W c s" "effectsOk W c"
  let ?v = "voterOf ?cr c s"
  have cur: "current c = Some s" using s(1) by (simp add: core_ok_def)
  show "\<exists>s'. core_ok W c' s' \<and> effectsOk W c' \<and> worldSteps W calm ?v (voterOf ?cr c' s')"
    using start cur
  proof (cases rule: startNewRound_cases)
    case 1
    then show ?thesis using s by auto
  next
    case (2 lp vs)
    let ?s = "newRoundState \<lparr>vRound = 0, vSequence = Block_Number lp + 1\<rparr> (backendValidators backend lp) None None None None"
    have sv: "sameValidators (wVals W (rsSequence ?s)) vs"
      using sameValidators_trans [OF vals 2(3)] by (simp add: newRoundState_def)
    have "worldSteps W calm ?v (?v\<lparr>voSeq := Block_Number lp + 1, voRound := 0, voPhase := StateAcceptRequest,
        voAccepted := None, voLock := None\<rparr>)"
      using 2(2) by (intro r_into_rtranclp vstep.newSequence) (simp add: voterOf_def)
    moreover have "voterOf ?cr c' ?s = ?v\<lparr>voSeq := Block_Number lp + 1, voRound := 0, voPhase := StateAcceptRequest,
        voAccepted := None, voLock := None\<rparr>"
      using roundEntered_ok(3) [OF 2(4) s rd sv] by (simp add: newRoundState_def lockOf_def)
    moreover have "core_ok W c' ?s" "effectsOk W c'"
      using roundEntered_ok(1,2) [OF 2(4) s rd sv] by (simp_all add: newRoundState_def)
    ultimately show ?thesis by (intro exI [of _ ?s]) simp
  next
    case (3 vs0 vs)
    let ?p = "carried ?cr backend s"
    let ?s = "newRoundState \<lparr>vRound = rd, vSequence = rsSequence s\<rparr> vs0 (rsPreprepare s) (fst ?p) (snd ?p) (pendingRequest s)"
    have sv: "sameValidators (wVals W (rsSequence s)) vs" using s(1) 3(3,4) sameValidators_trans by (auto simp: core_ok_def)
    have iff: "fst ?p = None \<longleftrightarrow> snd ?p = None" using s(1) by (auto simp: carried_def core_ok_def split: option.splits)
    have "lockOf ?cr ?s = (if fst ?p = None \<and> snd ?p = None then None else lockOf ?cr s)"
      by (auto simp: lockOf_def newRoundState_def carried_def split: option.splits)
    then have lock: "lockOf ?cr ?s = lockOf ?cr s \<or> \<not> calm \<and> lockOf ?cr ?s = None"
      using bad iff by (auto simp: lockOf_def newRoundState_def carried_def split: option.splits if_splits)
    have lt: "rsRound s < rd" using 3(1,2) new [OF cur] by fastforce
    have "worldSteps W calm ?v (?v\<lparr>voRound := rd, voPhase := StateAcceptRequest, voAccepted := None, voLock := lockOf ?cr ?s\<rparr>)"
      using lock
    proof
      assume "lockOf ?cr ?s = lockOf ?cr s"
      then have eq: "?v\<lparr>voRound := rd, voPhase := StateAcceptRequest, voAccepted := None, voLock := lockOf ?cr ?s\<rparr>
          = ?v\<lparr>voRound := rd, voPhase := StateAcceptRequest, voAccepted := None\<rparr>" by (simp add: voterOf_def)
      show ?thesis unfolding eq using lt by (intro r_into_rtranclp vstep.newRound) (simp add: voterOf_def)
    next
      assume u: "\<not> calm \<and> lockOf ?cr ?s = None"
      let ?u = "?v\<lparr>voLock := None\<rparr>"
      have "worldSteps W calm ?v ?u" using u by (intro r_into_rtranclp vstep.unlock) simp
      also have "worldSteps W calm ?u (?u\<lparr>voRound := rd, voPhase := StateAcceptRequest, voAccepted := None\<rparr>)"
        using lt by (intro r_into_rtranclp vstep.newRound) (simp add: voterOf_def)
      also have "?u\<lparr>voRound := rd, voPhase := StateAcceptRequest, voAccepted := None\<rparr>
          = ?v\<lparr>voRound := rd, voPhase := StateAcceptRequest, voAccepted := None, voLock := lockOf ?cr ?s\<rparr>"
        using u by (simp add: voterOf_def)
      finally show ?thesis .
    qed
    moreover have "core_ok W c' ?s" "effectsOk W c'"
      "voterOf ?cr c' ?s = ?v\<lparr>voRound := rd, voPhase := StateAcceptRequest, voAccepted := None, voLock := lockOf ?cr ?s\<rparr>"
      using roundEntered_ok [OF 3(6) s rd] sv iff rd by (simp_all add: newRoundState_def voterOf_def)
    ultimately show ?thesis by (intro exI [of _ ?s]) simp
  qed
qed

section \<open>Calm steps\<close>

text \<open>The chain head is the block before the current sequence.\<close>

definition headBefore :: "Backend \<Rightarrow> Core \<Rightarrow> bool" where
  "headBefore backend c \<longleftrightarrow> (\<forall>s. current c = Some s \<longrightarrow>
     (\<exists>lp. fst (LastProposal backend) = Some lp \<and> Block_Number lp = rsSequence s - 1))"

definition boundedView :: "Core \<Rightarrow> bool" where
  "boundedView c \<longleftrightarrow> (\<forall>s. current c = Some s \<longrightarrow> 0 < rsSequence s \<and> rsSequence s < 2 ^ 63 \<and> rsRound s < 2 ^ 62)"

lemma sint_bigUint64:
  assumes "0 \<le> x" "x < 2 ^ 63"
  shows "sint (bigUint64 x) = x"
  using sint_small [of "bigUint64 x"] assms by simp

lemma startNewRound_calm:
  assumes "startNewRound cr backend rd c = Some c'" "current c = Some s" "headBefore backend c" "boundedView c"
    and "0 \<le> rsRound s" "rsRound s < rd"
  shows "\<exists>s'. current c' = Some s' \<and> rsRound s' = rd"
  using assms(1,2)
proof (cases rule: startNewRound_cases)
  case 1
  obtain lp where lp: "fst (LastProposal backend) = Some lp" "Block_Number lp = rsSequence s - 1"
    using assms(2,3) by (auto simp: headBefore_def)
  have seq: "0 < rsSequence s" "rsSequence s < 2 ^ 63" using assms(2,4) by (auto simp: boundedView_def)
  have "bigUint64 (rsSequence s) - 1 = bigUint64 (rsSequence s - 1)" by (simp add: bigUint64_def)
  moreover have "sint (bigUint64 (rsSequence s - 1)) = rsSequence s - 1" using seq by (intro sint_bigUint64) simp_all
  ultimately have "roundKind (fst (LastProposal backend)) rd c = Some RoundChangeTo"
    using lp assms(2,5,6) by (simp add: roundKind_def)
  then show ?thesis using 1(2) by simp
next
  case (2 lp vs)
  then show ?thesis using assms(2,3) by (auto simp: headBefore_def)
next
  case (3 vs0 vs)
  then show ?thesis by (auto simp: roundEntered_def newRoundState_def)
qed

section \<open>COMMIT and ROUND-CHANGE\<close>

lemma refines_commit:
  assumes h: "handleCommitMsg (wCrypto W) backend m c = Some (err, c')"
    and st: "coreState c = StatePrepared" and auth: "wSeal W (CommitSeal m)"
    and view: "\<And>s. current c = Some s \<Longrightarrow> pRound m = rsRound s"
  shows "refines W calm c c'"
  using h
proof (cases rule: handleCommitMsg_cases)
  case 1
  then show ?thesis by (simp add: refines_quiet)
next
  case (2 s vs b)
  show ?thesis
  proof (rule refines_assuming)
    fix s0 assume s0: "core_ok W c s0"
    let ?s = "addCommitTo m s" and ?c = "c\<lparr>current := Some (addCommitTo m s)\<rparr>"
    have sv: "sameValidators (wVals W (rsSequence s)) vs" using s0 2(1,2) by (simp add: core_ok_def)
    have "sealValid W (rsSequence s) (bHeader b) (rsRound s) SealTypeCommit (CommitSeal m) (pSource m)"
      using verifySeal_valid [OF _ sv auth] 2(4) view [OF 2(1)] by simp
    then have r: "refines W calm c ?c" using st 2(1,3) by (intro refines_addCommit) simp_all
    show "refines W calm c c'"
      using 2(5)
    proof
      assume q: "QuorumSize vs \<le> MsgSet_Size (WBFTCommits ?s) \<and> commitWBFT (wCrypto W) backend ?c = Some c'"
      have b: "current ?c = Some ?s" "rsProposal ?s = Some b" using 2(3) by (simp_all add: rsProposal_def addCommitTo_def)
      obtain c2 ps cs vs1 where c2: "quiet (?c\<lparr>coreState := StateCommitted\<rparr>) c2"
        and seals: "valSet ?c = Some vs1" "preparedSealsOf vs1 (Values (WBFTPrepares ?s)) = Some ps"
          "committedSealsOf vs1 (Values (WBFTCommits ?s)) = Some cs"
        and c': "c' = emit (CommitBlock b ps cs (rsRound ?s)) c2
         \<or> broadcastNextRoundChange (wCrypto W) backend (emit (CommitBlock b ps cs (rsRound ?s)) c2) = Some c'"
        by (rule commitWBFT_cases [OF conjunct2 [OF q] b])
      let ?e = "emit (CommitBlock b ps cs (rsRound ?s)) c2"
      have "refines W calm ?c ?e"
        using q st sameValidators_simps(1) [OF sv] by (intro refines_decide [OF c2 b _ _ seals]) (simp_all add: addCommitTo_def)
      moreover have "refines W calm ?e c'"
        using c'
      proof (elim disjE)
        assume "broadcastNextRoundChange (wCrypto W) backend ?e = Some c'"
        then obtain s1 where "current ?e = Some s1" "broadcastRoundChange (wCrypto W) backend (rsRound s1 + 1) ?e = Some c'"
          by (auto simp: broadcastNextRoundChange_def currentView_def bind_eq_Some_conv)
        moreover have "coreState ?e = StateCommitted" using c2 by (simp add: emit_def quiet_def)
        ultimately show ?thesis by (intro refines_broadcastRoundChange) auto
      qed (simp add: refines_quiet)
      ultimately show ?thesis using r by (blast intro: refines_trans)
    qed (use r in simp)
  qed
qed

lemma addRoundChange_result:
  assumes "addRoundChange cr m c = Some (err, c')" "rcSet c = Some rcs" "smallRounds rcs" "0 \<le> pRound m" "pRound m < 2 ^ 63"
  shows "\<exists>rcs'. c' = c\<lparr>rcSet := Some rcs'\<rparr> \<and> smallRounds rcs'"
proof (cases "c' = c")
  case True
  then show ?thesis using assms(2,3) by (intro exI [of _ rcs]) simp
next
  case False
  then obtain q pr pb ps rcs' where "Rcs_Add (pRound m) (MRoundChange m) pr pb ps q rcs = Some rcs'"
    "c' = c\<lparr>rcSet := Some rcs'\<rparr>"
    using assms(1,2) by (auto simp: addRoundChange_def bind_eq_Some_conv split: if_splits sum.splits)
  then show ?thesis using smallRounds_Add [OF _ assms(3-5)] by blast
qed

lemma refines_rcSet: "smallRounds rcs \<Longrightarrow> refines W calm c (c\<lparr>rcSet := Some rcs\<rparr>)"
  by (auto simp: refines_def core_ok_def effectsOk_def coreVotes_def voterOf_def)

lemma higher_round_exists:
  assumes "F vs < of_int (higherRoundMessages rd rcs)" "validators vs \<noteq> []" "smallRounds rcs" "0 \<le> rd" "rd < 2 ^ 63"
  shows "rd < getMinRoundChange rd rcs \<and> getMinRoundChange rd rcs < 2 ^ 63"
proof -
  have "0 \<le> F vs" using assms(2) by (cases "validators vs") (simp_all add: F_def Size_def)
  then have "(0 :: rat) < of_int (higherRoundMessages rd rcs)" using assms(1) by (rule le_less_trans)
  then have "higherRoundMessages rd rcs \<noteq> 0" by simp
  then have "concat (map (\<lambda>(k, rms). if k > bigUint64 rd then map fst (messages rms) else []) (roundChanges rcs)) \<noteq> []"
    unfolding higherRoundMessages_def by (intro notI) simp
  then obtain k ms where k: "(k, ms) \<in> set (roundChanges rcs)" "bigUint64 rd < k"
    by (auto simp: concat_eq_Nil_conv split: if_splits)
  obtain k' where k': "k' \<in> fst ` set (roundChanges rcs)" "bigUint64 rd < k'" "getMinRoundChange rd rcs = uint k'"
    using getMinRoundChange_min [OF assms(3) k] by blast
  then have "uint k' < 2 ^ 63" using assms(3) by (auto simp: smallRounds_def)
  moreover have "rd < uint k'" using k'(2) assms(4,5) by (simp add: word_less_alt)
  ultimately show ?thesis using k'(3) by simp
qed

lemma refines_proposeJustified:
  assumes "proposeJustified cr backend c = Some (err, c')"
  shows "refines W calm c c'"
proof -
  have "c' = c \<or> (\<exists>r. sendPreprepareMsg backend r c = Some c')"
    using assms by (auto simp: proposeJustified_def bind_eq_Some_conv Let_def split: option.splits if_splits)
  then show ?thesis using refines_sendPreprepareMsg refines_quiet [OF quiet_refl] by blast
qed

lemma handleRoundChangeMsg_cases:
  assumes "handleRoundChangeMsg cr backend m c = Some (err, c')" "current c = Some s"
  obtains c1 where "addRoundChange cr m c = Some (err, c1)" "c' = c1"
  | c1 rcs vs c2 where "addRoundChange cr m c = Some (None, c1)" "rcSet c1 = Some rcs" "valSet c1 = Some vs"
    "F vs < of_int (higherRoundMessages (rsRound s) rcs)"
    "startNewRound cr backend (getMinRoundChange (rsRound s) rcs) c1 = Some c2"
    "broadcastRoundChange cr backend (getMinRoundChange (rsRound s) rcs) c2 = Some c'"
  | c1 where "addRoundChange cr m c = Some (None, c1)" "proposeJustified cr backend c1 = Some (err, c')"
proof -
  have cv: "currentView c = Some \<lparr>vRound = rsRound s, vSequence = rsSequence s\<rparr>" using assms(2) by (simp add: currentView_def)
  obtain e c1 where a: "addRoundChange cr m c = Some (e, c1)"
    using assms(1) cv by (auto simp: handleRoundChangeMsg_def bind_eq_Some_conv Let_def)
  show thesis
  proof (cases "e = None")
    case False
    then show thesis using assms(1) cv a that(1) by (auto simp: handleRoundChangeMsg_def Let_def)
  next
    case True
    then obtain rcs vs where c1: "rcSet c1 = Some rcs" "valSet c1 = Some vs"
      using assms(1) cv a by (auto simp: handleRoundChangeMsg_def bind_eq_Some_conv Let_def)
    show thesis
    proof (cases "of_int (higherRoundMessages (rsRound s) rcs) > F vs \<and> of_int (higherRoundMessages (rsRound s) rcs) \<le> F vs + 1")
      case hi: True
      obtain c2 where "startNewRound cr backend (getMinRoundChange (rsRound s) rcs) c1 = Some c2"
        "broadcastRoundChange cr backend (getMinRoundChange (rsRound s) rcs) c2 = Some c'"
        using assms(1) cv a True c1 hi by (auto simp: handleRoundChangeMsg_def bind_eq_Some_conv Let_def)
      with a True c1 conjunct1 [OF hi] show thesis by (intro that(2)) simp_all
    next
      case False
      then have "err = None \<and> c' = c1 \<or> proposeJustified cr backend c1 = Some (err, c')"
        using assms(1) cv a True c1
        by (auto simp: handleRoundChangeMsg_def bind_eq_Some_conv Let_def split: if_splits)
      with a True show thesis using that(1,3) by blast
    qed
  qed
qed

lemma refines_roundChange:
  assumes h: "handleRoundChangeMsg (wCrypto W) backend m c = Some (err, c')"
    and vals: "\<And>b. sameValidators (wVals W (Block_Number b + 1)) (backendValidators backend b)" "\<And>n. validators (wVals W n) \<noteq> []"
    and view: "\<And>s. current c = Some s \<Longrightarrow> rsRound s \<le> pRound m \<and> pRound m \<le> rsRound s + 10"
    and bounds: "boundedView c" and calm: "calm \<Longrightarrow> headBefore backend c" "\<And>h. calm \<Longrightarrow> \<not> HasBadProposal backend h"
  shows "refines W calm c c'"
proof (rule refines_assuming)
  fix s assume s: "core_ok W c s"
  have cur: "current c = Some s" "0 \<le> rsRound s" "rsRound s < 2 ^ 62" using s bounds by (auto simp: core_ok_def boundedView_def)
  obtain rcs where rcs: "rcSet c = Some rcs" "smallRounds rcs" using s by (auto simp: core_ok_def)
  have rd: "0 \<le> pRound m" "pRound m < 2 ^ 63" using view [OF cur(1)] cur(2,3) by auto
  have add: "\<exists>rcs'. c1 = c\<lparr>rcSet := Some rcs'\<rparr> \<and> smallRounds rcs'" if "addRoundChange (wCrypto W) m c = Some (e, c1)" for e c1
    by (rule addRoundChange_result [OF that rcs rd])
  then have ref: "refines W calm c c1" if "addRoundChange (wCrypto W) m c = Some (e, c1)" for e c1
    using that refines_rcSet by blast
  show "refines W calm c c'"
    using h cur(1)
  proof (cases rule: handleRoundChangeMsg_cases)
    case (1 c1)
    then show ?thesis using ref by simp
  next
    case (2 c1 rcs1 vs c2)
    let ?r = "getMinRoundChange (rsRound s) rcs1"
    obtain rcs' where c1: "c1 = c\<lparr>rcSet := Some rcs'\<rparr>" "smallRounds rcs'" using add [OF 2(1)] by blast
    have eq: "rcs1 = rcs'" "valSet c = Some vs" using 2(2,3) c1(1) by simp_all
    then have "validators vs \<noteq> []" using s vals(2) by (auto simp: core_ok_def sameValidators_def)
    then have r: "rsRound s < ?r" "?r < 2 ^ 63" using higher_round_exists [OF 2(4)] c1(2) eq(1) cur by auto
    have cur1: "current c1 = Some s" using c1(1) cur(1) by simp
    have "refines W calm c1 c2"
      by (rule refines_startNewRound [OF 2(5)]) (use r cur cur1 vals(1) calm(2) in auto)
    moreover have "refines W calm c2 c'"
    proof (rule refines_broadcastRoundChange [OF 2(6)])
      fix s2 assume "current c2 = Some s2" "calm"
      moreover from this have "headBefore backend c1" "boundedView c1"
        using calm(1) bounds c1(1) by (simp_all add: headBefore_def boundedView_def)
      ultimately show "?r = rsRound s2 \<or> ?r = rsRound s2 + 1 \<and> coreState c2 = StateCommitted"
        using startNewRound_calm [OF 2(5) cur1] cur(2) r(1) by auto
    qed
    ultimately show ?thesis using ref [OF 2(1)] by (blast intro: refines_trans)
  next
    case (3 c1)
    then show ?thesis using ref refines_proposeJustified by (blast intro: refines_trans)
  qed
qed

section \<open>Events\<close>

text \<open>What a handler relies on in a message that its own checks do not establish.\<close>

fun authMsg :: "World \<Rightarrow> WBFTMessage \<Rightarrow> bool" where
  "authMsg W (MPreprepare m) \<longleftrightarrow> (\<forall>rc \<in> set (JustificationRoundChanges m). wRoundChange W rc)
     \<and> (\<forall>p \<in> set (JustificationPrepares m). wPrepare W p) \<and> wHeader W (bHeader (Proposal m))"
| "authMsg W (MPrepare m) \<longleftrightarrow> wSeal W (prSeal m)"
| "authMsg W (MCommit m) \<longleftrightarrow> wSeal W (CommitSeal m)"
| "authMsg W (MRoundChange m) \<longleftrightarrow> True"

definition calmMsg :: "Backend \<Rightarrow> Core \<Rightarrow> WBFTMessage \<Rightarrow> bool" where
  "calmMsg backend c m \<longleftrightarrow> (\<forall>h. \<not> HasBadProposal backend h) \<and> (Code m = RoundChangeCode \<longrightarrow> headBefore backend c)"

lemma msgView_simps:
  "msgView (MPreprepare x) = \<lparr>vRound = pRound x, vSequence = pSequence x\<rparr>"
  "msgView (MPrepare p) = \<lparr>vRound = pRound p, vSequence = pSequence p\<rparr>"
  "msgView (MCommit m) = \<lparr>vRound = pRound m, vSequence = pSequence m\<rparr>"
  "msgView (MRoundChange r) = \<lparr>vRound = pRound r, vSequence = pSequence r\<rparr>"
  by (simp_all add: msgView_def payloadView_def payload_defs)

lemma checkMessage_expected:
  assumes "checkMessage c (Code m) (msgView m) = Some None" "current c = Some s" "Code m \<in> MessageCodes"
  shows "expected (coreState c) \<lparr>vRound = rsRound s, vSequence = rsSequence s\<rparr> (Code m) (msgView m)"
  using assms(1,2) classify_None [OF assms(3)] by (auto simp: checkMessage_def currentView_def)

lemma deliverMessage_cases:
  assumes "deliverMessage cr backend m c = Some (err, c')"
  obtains "c' = c"
  | p where "m = MPreprepare p" "Code m = PreprepareCode" "handlePreprepareMsg cr backend p c = Some (err, c')"
  | p where "m = MPrepare p" "Code m = PrepareCode" "handlePrepareMsg cr backend p c = Some (err, c')"
  | p where "m = MCommit p" "Code m = CommitCode" "handleCommitMsg cr backend p c = Some (err, c')"
  | p where "m = MRoundChange p" "Code m = RoundChangeCode" "handleRoundChangeMsg cr backend p c = Some (err, c')"
  using assms by (cases m) (auto simp: deliverMessage_def split: if_splits)

lemma refines_deliver:
  assumes d: "deliverMessage (wCrypto W) backend m c = Some (err, c')"
    and ok: "checkMessage c (Code m) (msgView m) = Some None" and auth: "authMsg W m"
    and vals: "\<And>b. sameValidators (wVals W (Block_Number b + 1)) (backendValidators backend b)" "\<And>n. validators (wVals W n) \<noteq> []"
    and bounds: "boundedView c" "\<And>s. current c = Some s \<Longrightarrow> rsRound s < wRounds W" and calm: "calm \<Longrightarrow> calmMsg backend c m"
  shows "refines W calm c c'"
proof (rule refines_assuming)
  fix s assume "core_ok W c s"
  then have s: "current c = Some s" by (simp add: core_ok_def)
  note ex = checkMessage_expected [OF ok s]
  have b: "rsRound s < 2 ^ 63" "rsRound s < wRounds W" using bounds s by (auto simp: boundedView_def)
  show "refines W calm c c'"
    using d
  proof (cases rule: deliverMessage_cases)
    case 1
    then show ?thesis by (simp add: refines_quiet)
  next
    case (2 p)
    then show ?thesis using ex auth s b
      by (intro refines_preprepare [OF 2(3)]) (auto simp: expected_def MessageCodes_def msgView_simps code_defs)
  next
    case (3 p)
    then show ?thesis using ex auth s
      by (intro refines_prepare [OF 3(3)]) (auto simp: expected_def MessageCodes_def msgView_simps code_defs)
  next
    case (4 p)
    then show ?thesis using ex auth s
      by (intro refines_commit [OF 4(3)]) (auto simp: expected_def MessageCodes_def msgView_simps code_defs)
  next
    case (5 p)
    then show ?thesis using ex s vals bounds(1) calm
      by (intro refines_roundChange [OF 5(3)]) (auto simp: expected_def MessageCodes_def msgView_simps code_defs calmMsg_def)
  qed
qed

lemma refines_decoded:
  assumes "handleDecodedMessage (wCrypto W) backend m c = Some (err, c')" "authMsg W m"
    and vals: "\<And>b. sameValidators (wVals W (Block_Number b + 1)) (backendValidators backend b)" "\<And>n. validators (wVals W n) \<noteq> []"
    and bounds: "boundedView c" "\<And>s. current c = Some s \<Longrightarrow> rsRound s < wRounds W" and calm: "calm \<Longrightarrow> calmMsg backend c m"
  shows "refines W calm c c'"
proof -
  obtain e where e: "checkMessage c (Code m) (msgView m) = Some e"
    using assms(1) by (auto simp: handleDecodedMessage_def bind_eq_Some_conv)
  show ?thesis
  proof (cases "e = None")
    case True
    then have "deliverMessage (wCrypto W) backend m c = Some (err, c')" using assms(1) e by (simp add: handleDecodedMessage_def)
    then show ?thesis using e True assms by (intro refines_deliver) simp_all
  next
    case False
    then have "quiet c c'"
      using assms(1) e quiet_addToBacklog quiet_addToExtraSeal
      by (auto simp: handleDecodedMessage_def bind_eq_Some_conv split: if_splits)
    then show ?thesis by (rule refines_quiet)
  qed
qed

text \<open>The message an event carries, with the sources its signatures yield.\<close>

definition received :: "Crypto \<Rightarrow> Core \<Rightarrow> uint64 \<Rightarrow> bytes \<Rightarrow> WBFTMessage option" where
  "received cr c code payload =
     (if code \<notin> MessageCodes then None
      else case Decode (keccak256 cr) code payload of
          Inl e \<Rightarrow> None
        | Inr m \<Rightarrow> (case verifySignatures cr c m of Some (Inr m') \<Rightarrow> Some m' | _ \<Rightarrow> None))"

fun eventMsg :: "Crypto \<Rightarrow> Core \<Rightarrow> CoreEvent \<Rightarrow> WBFTMessage option" where
  "eventMsg cr c (MessageEvent code payload) = received cr c code payload"
| "eventMsg cr c (BacklogEvent src m) = Some m"
| "eventMsg cr c _ = None"

text \<open>No block is bad; a timeout or ROUND-CHANGE is handled while the chain head is still before the
  current sequence; a retry is not one of an earlier sequence.\<close>

definition calmEvent :: "Crypto \<Rightarrow> Backend \<Rightarrow> Core \<Rightarrow> CoreEvent \<Rightarrow> bool" where
  "calmEvent cr backend c ev \<longleftrightarrow> (\<forall>h. \<not> HasBadProposal backend h)
     \<and> (\<forall>m. eventMsg cr c ev = Some m \<longrightarrow> calmMsg backend c m)
     \<and> (\<forall>x. ev = TimeoutEvent x \<longrightarrow> headBefore backend c)
     \<and> (\<forall>rd s. ev = RetryTimeoutEvent rd \<longrightarrow> current c = Some s \<longrightarrow> rd \<le> rsRound s)"

lemma handleEncodedMsg_received:
  assumes "handleEncodedMsg cr backend code payload c = Some (err, c')"
  shows "c' = c \<or> (\<exists>m. received cr c code payload = Some m \<and> handleDecodedMessage cr backend m c = Some (err, c'))"
proof (cases "code \<in> MessageCodes")
  case True
  show ?thesis
  proof (cases "Decode (keccak256 cr) code payload")
    case (Inr m)
    then obtain res where res: "verifySignatures cr c m = Some res"
      using assms True by (auto simp: handleEncodedMsg_def bind_eq_Some_conv)
    then show ?thesis using assms True Inr by (cases res) (auto simp: handleEncodedMsg_def received_def)
  qed (use assms True in \<open>simp add: handleEncodedMsg_def\<close>)
qed (use assms in \<open>simp add: handleEncodedMsg_def\<close>)

lemma refines_gossip: "refines W calm c (emit (Gossip code data) c)"
  using refines_emit [of W "[Gossip code data]"] by (simp add: emit_def)

lemma refines_timeout:
  assumes h: "handleTimeoutMsg (wCrypto W) backend c = Some c'"
    and vals: "\<And>b. sameValidators (wVals W (Block_Number b + 1)) (backendValidators backend b)"
    and bounds: "boundedView c" and calm: "calm \<Longrightarrow> headBefore backend c" "\<And>h. calm \<Longrightarrow> \<not> HasBadProposal backend h"
  shows "refines W calm c c'"
proof (rule refines_assuming)
  fix s assume "core_ok W c s"
  then have s: "current c = Some s" "0 \<le> rsRound s" by (simp_all add: core_ok_def)
  have b: "rsRound s < 2 ^ 62" using bounds s by (auto simp: boundedView_def)
  obtain c1 where c1: "startNewRound (wCrypto W) backend (rsRound s + 1) c = Some c1"
    "broadcastRoundChange (wCrypto W) backend (rsRound s + 1) c1 = Some c'"
    using h s(1) by (auto simp: handleTimeoutMsg_def bind_eq_Some_conv Let_def)
  have "refines W calm c c1"
    by (rule refines_startNewRound [OF c1(1)]) (use s b vals calm(2) in auto)
  moreover have "refines W calm c1 c'"
    using startNewRound_calm [OF c1(1) s(1)] calm(1) bounds s(2)
    by (intro refines_broadcastRoundChange [OF c1(2)]) auto
  ultimately show "refines W calm c c'" by (rule refines_trans)
qed

theorem refines_event:
  assumes h: "handleEvent (wCrypto W) backend ev c = Some c'"
    and auth: "\<And>m. eventMsg (wCrypto W) c ev = Some m \<Longrightarrow> authMsg W m"
    and vals: "\<And>b. sameValidators (wVals W (Block_Number b + 1)) (backendValidators backend b)" "\<And>n. validators (wVals W n) \<noteq> []"
    and bounds: "boundedView c" "\<And>s. current c = Some s \<Longrightarrow> rsRound s < wRounds W"
    and calm: "calm \<Longrightarrow> calmEvent (wCrypto W) backend c ev"
  shows "refines W calm c c'"
proof (cases ev)
  case (RequestEvent p)
  then obtain err c1 r where c1: "handleRequest backend r c = Some (err, c1)" "c' = c1 \<or> storeRequestMsg r c1 = Some c'"
    using h by (auto simp: bind_eq_Some_conv Let_def split: if_splits)
  then have "refines W calm c1 c'" using refines_quiet quiet_storeRequestMsg quiet_refl by blast
  then show ?thesis using refines_handleRequest [OF c1(1)] by (blast intro: refines_trans)
next
  case (MessageEvent code payload)
  then obtain err c1 where c1: "handleEncodedMsg (wCrypto W) backend code payload c = Some (err, c1)"
    "c' = c1 \<or> c' = emit (Gossip code payload) c1" using h by (auto simp: bind_eq_Some_conv split: if_splits)
  have "refines W calm c c1"
    using handleEncodedMsg_received [OF c1(1)]
  proof (elim disjE exE conjE)
    fix m assume m: "received (wCrypto W) c code payload = Some m" "handleDecodedMessage (wCrypto W) backend m c = Some (err, c1)"
    then show ?thesis using auth vals bounds calm MessageEvent
      by (intro refines_decoded [OF m(2)]) (auto simp: calmEvent_def)
  qed (simp add: refines_quiet)
  moreover have "refines W calm c1 c'" using c1(2) refines_gossip refines_quiet [OF quiet_refl] by blast
  ultimately show ?thesis by (rule refines_trans)
next
  case (BacklogEvent src m)
  then obtain err c1 data where c1: "handleDecodedMessage (wCrypto W) backend m c = Some (err, c1)"
    "c' = c1 \<or> c' = emit (Gossip (Code m) data) c1" using h by (auto simp: bind_eq_Some_conv split: if_splits option.splits)
  have "refines W calm c c1"
    using auth vals bounds calm BacklogEvent by (intro refines_decoded [OF c1(1)]) (auto simp: calmEvent_def)
  moreover have "refines W calm c1 c'" using c1(2) refines_gossip refines_quiet [OF quiet_refl] by blast
  ultimately show ?thesis by (rule refines_trans)
next
  case (TimeoutEvent x)
  then have "c' = c \<or> handleTimeoutMsg (wCrypto W) backend c = Some c'" using h by (simp split: if_splits)
  then show ?thesis using refines_timeout [of W backend c c' calm] refines_quiet [OF quiet_refl] vals bounds(1) calm TimeoutEvent
    by (auto simp: calmEvent_def)
next
  case (RetryTimeoutEvent rd)
  then show ?thesis using h calm by (intro refines_broadcastRoundChange) (fastforce simp: calmEvent_def)+
next
  case FinalCommittedEvent
  then show ?thesis using h vals calm
    by (intro refines_startNewRound [where rd = 0]) (auto simp: handleFinalCommittedMsg_def calmEvent_def)
qed

end
