(* ===== verification/Progress.thy ===== *)
theory Progress
  imports Round_Refinement
begin

text \<open>
  A round that succeeds: in a fresh round the node accepts a valid proposal, answers a quorum of PREPAREs
  with its COMMIT, and hands the block to the backend on a quorum of COMMITs. Each handler is shown to
  return, with its effect on the state, whatever is in the backlog meanwhile.
\<close>

section \<open>Handlers that return\<close>

lemma setState_runs:
  assumes "backlog_inv c" "current c \<noteq> None" "valSet c \<noteq> None" "st \<noteq> StateAcceptRequest"
  shows "\<exists>c'. setState st c = Some c' \<and> quiet (c\<lparr>coreState := st\<rparr>) c' \<and> backlog_inv c'"
proof -
  have inv: "backlog_inv (c\<lparr>coreState := st\<rparr>)" using assms(1) by (simp add: backlog_inv_def)
  obtain vs where vs: "valSet (c\<lparr>coreState := st\<rparr>) = Some vs" using assms(3) by auto
  have "current (c\<lparr>coreState := st\<rparr>) \<noteq> None" using assms(2) by simp
  from processBacklog_ok [OF inv this vs] obtain c' where
    c': "processBacklog (c\<lparr>coreState := st\<rparr>) = Some c'" "backlog_inv c'" by (auto simp: processed_def)
  then have "setState st c = Some c'" using assms(4) by (simp add: setState_def)
  then show ?thesis using c'(2) setState_quiet by blast
qed

lemma signAndBroadcast_total:
  assumes "valSet c \<noteq> None" "\<And>m. ext m \<noteq> None"
  shows "\<exists>sent xs. signAndBroadcast backend m ext c = Some (sent, c\<lparr>outbox := outbox c @ xs\<rparr>)"
proof -
  obtain vs where vs: "valSet c = Some vs" using assms(1) by blast
  have "\<exists>r. signAndBroadcast backend m ext c = Some r"
  proof (cases "EncodePayloadForSigning m")
    case (Some e)
    show ?thesis
    proof (cases "backendSign backend e")
      case sg: (Some sg)
      obtain m' where "ext (SetSignature sg m) = Some m'" using assms(2) by blast
      then show ?thesis using Some sg vs by (cases "EncodeMsg m'") (auto simp: signAndBroadcast_def Let_def emit_def)
    qed (use Some in \<open>auto simp: signAndBroadcast_def\<close>)
  qed (auto simp: signAndBroadcast_def)
  then obtain sent c' where "signAndBroadcast backend m ext c = Some (sent, c')" by (metis surj_pair)
  then show ?thesis using signAndBroadcast_frame [of backend m ext c sent c'] by blast
qed

lemma broadcastRoundChange_runs:
  assumes "current c = Some s" "GetConfig (config c) (Some (rsSequence s)) \<noteq> None" "valSet c \<noteq> None"
  shows "\<exists>c'. broadcastRoundChange cr backend rd c = Some c'"
proof -
  obtain c1 where c1: "newRetrySendingRoundChangeTimer c = Some c1" "quiet c c1"
    using assms quiet_newRetry [of c] by (auto simp: newRetrySendingRoundChangeTimer_def)
  then have cur: "current c1 = Some s" "valSet c1 \<noteq> None" using assms by (simp_all add: quiet_def)
  have ext: "extendRoundChange ps m \<noteq> None" for ps m by (cases "(ps, m)" rule: extendRoundChange.cases) simp_all
  have "\<exists>sent xs. signAndBroadcast backend m (extendRoundChange ps) c1 = Some (sent, c1\<lparr>outbox := outbox c1 @ xs\<rparr>)" for m ps
    using cur(2) ext by (rule signAndBroadcast_total)
  then show ?thesis using c1(1) cur(1) by (simp add: broadcastRoundChange_def bind_eq_Some_conv Let_def) blast
qed

lemma broadcast_runs:
  assumes "current c = Some s" "rsProposal s = Some b" "valSet c \<noteq> None"
  shows "\<exists>xs. broadcastPrepare cr backend c = Some (c\<lparr>outbox := outbox c
      @ SealCall \<lparr>vRound = rsRound s, vSequence = rsSequence s\<rparr> (bHeader b) SealTypePrepare # xs\<rparr>)"
    "\<exists>xs. broadcastCommit cr backend c = Some (c\<lparr>outbox := outbox c
      @ SealCall \<lparr>vRound = rsRound s, vSequence = rsSequence s\<rparr> (bHeader b) SealTypeCommit # xs\<rparr>)"
proof -
  obtain p where p: "rsPreprepare s = Some p" "b = Proposal p" using assms(2) by (auto simp: rsProposal_def)
  let ?e = "\<lambda>t. emit (SealCall \<lparr>vRound = rsRound s, vSequence = rsSequence s\<rparr> (bHeader b) t) c"
  have "\<exists>sent xs. signAndBroadcast backend m Some (?e t) = Some (sent, ?e t\<lparr>outbox := outbox (?e t) @ xs\<rparr>)" for m t
    using assms(3) by (intro signAndBroadcast_total) (simp_all add: emit_def)
  then have run: "\<exists>sent xs. signAndBroadcast backend m Some (?e t) = Some (sent, c\<lparr>outbox := outbox c
      @ SealCall \<lparr>vRound = rsRound s, vSequence = rsSequence s\<rparr> (bHeader b) t # xs\<rparr>)" for m t
    by (simp add: emit_def)
  show "\<exists>xs. broadcastPrepare cr backend c = Some (c\<lparr>outbox := outbox c
      @ SealCall \<lparr>vRound = rsRound s, vSequence = rsSequence s\<rparr> (bHeader b) SealTypePrepare # xs\<rparr>)"
    using run [of _ SealTypePrepare] assms(1,2) p
    by (simp add: broadcastPrepare_def rsSubject_def Let_def bind_eq_Some_conv) meson
  show "\<exists>xs. broadcastCommit cr backend c = Some (c\<lparr>outbox := outbox c
      @ SealCall \<lparr>vRound = rsRound s, vSequence = rsSequence s\<rparr> (bHeader b) SealTypeCommit # xs\<rparr>)"
    using run [of _ SealTypeCommit] assms(1,2) p
    by (simp add: broadcastCommit_def rsSubject_def Let_def bind_eq_Some_conv) meson
qed

lemma newRoundChangeTimer_runs:
  assumes "GetConfig (config c) (Some sq) \<noteq> None" "backlog_inv c"
  shows "\<exists>c'. newRoundChangeTimer (Some sq) (Some rd) c = Some c' \<and> quiet c c' \<and> backlog_inv c' \<and> config c' = config c"
proof -
  have "config (stopTimer c) = config c" "backlogs (stopTimer c) = backlogs c" "backlogKeys (stopTimer c) = backlogKeys c"
    "coreAddress (stopTimer c) = coreAddress c" by (simp_all add: timer_defs split: option.splits)
  with assms obtain c' where "newRoundChangeTimer (Some sq) (Some rd) c = Some c'" "backlog_inv c'" "config c' = config c"
    by (auto simp: newRoundChangeTimer_def Let_def backlog_inv_def)
  then show ?thesis using quiet_newRoundChangeTimer by blast
qed

section \<open>The three phases\<close>

text \<open>A node in a view of a round, in a given phase.\<close>

definition inPhase :: "State \<Rightarrow> roundState \<Rightarrow> defaultSet \<Rightarrow> Core \<Rightarrow> bool" where
  "inPhase st s vs c \<longleftrightarrow> coreState c = st \<and> current c = Some s \<and> valSet c = Some vs \<and> backlog_inv c"

lemma preprepare_runs:
  assumes c: "inPhase StateAcceptRequest s vs c" "GetConfig (config c) (Some (rsSequence s)) \<noteq> None"
    and m: "IsProposer vs (pSource m)" "pSequence m = Block_Number (Proposal m)" "snd (backendVerify backend (Proposal m)) = None"
    and just: "bigUint64 (pRound m) > 0 \<Longrightarrow> isJustified (keccak256 cr) (Proposal m) (payloadView m)
      (JustificationRoundChanges m) (JustificationPrepares m) (QuorumSize vs) = None"
  shows "\<exists>c' xs. handlePreprepareMsg cr backend m c = Some (None, c') \<and> inPhase StatePreprepared (SetPreprepare m s) vs c'
    \<and> outbox c' = outbox c @ SealCall \<lparr>vRound = rsRound s, vSequence = rsSequence s\<rparr> (bHeader (Proposal m)) SealTypePrepare # xs"
proof -
  obtain d where ver: "backendVerify backend (Proposal m) = (d, None)" using m(3) by (metis prod.collapse)
  obtain c1 where c1: "newRoundChangeTimer (Some (rsSequence s)) (Some (rsRound s)) c = Some c1" "quiet c c1" "backlog_inv c1"
    using newRoundChangeTimer_runs [OF c(2)] c(1) by (auto simp: inPhase_def)
  let ?c = "c1\<lparr>current := Some (SetPreprepare m s)\<rparr>"
  have "backlog_inv ?c" using c1(3) by (simp add: backlog_inv_def)
  then obtain c2 where c2: "setState StatePreprepared ?c = Some c2" "quiet (?c\<lparr>coreState := StatePreprepared\<rparr>) c2" "backlog_inv c2"
    using setState_runs [of ?c StatePreprepared] c(1) c1(2) by (auto simp: inPhase_def quiet_def)
  then have cur: "current c2 = Some (SetPreprepare m s)" "valSet c2 = Some vs" "outbox c2 = outbox c"
    using c(1) c1(2) by (simp_all add: inPhase_def quiet_def)
  have "rsProposal (SetPreprepare m s) = Some (Proposal m)" by (simp add: SetPreprepare_def rsProposal_def)
  from broadcast_runs(1) [OF cur(1) this] obtain xs where xs: "broadcastPrepare cr backend c2 = Some (c2\<lparr>outbox := outbox c2
      @ SealCall \<lparr>vRound = rsRound s, vSequence = rsSequence s\<rparr> (bHeader (Proposal m)) SealTypePrepare # xs\<rparr>)"
    using cur(2) by (auto simp: SetPreprepare_def)
  have "handlePreprepareMsg cr backend m c = Some (None, c2\<lparr>outbox := outbox c2
      @ SealCall \<lparr>vRound = rsRound s, vSequence = rsSequence s\<rparr> (bHeader (Proposal m)) SealTypePrepare # xs\<rparr>)"
    using c(1) m(1,2) just ver c1(1) c2(1) xs c1(2) by (auto simp: handlePreprepareMsg_def inPhase_def quiet_def)
  then show ?thesis using cur c2(2,3)
    by (intro exI [of _ "c2\<lparr>outbox := outbox c2 @ SealCall \<lparr>vRound = rsRound s, vSequence = rsSequence s\<rparr> (bHeader (Proposal m))
        SealTypePrepare # xs\<rparr>"] exI [of _ xs]) (simp add: inPhase_def quiet_def backlog_inv_def)
qed

text \<open>A PREPARE of the node's proposal with a valid seal.\<close>

definition goodPrepare :: "Crypto \<Rightarrow> defaultSet \<Rightarrow> Block \<Rightarrow> Prepare \<Rightarrow> bool" where
  "goodPrepare cr vs b m \<longleftrightarrow> Digest m = Block_Hash (keccak256 cr) b
     \<and> verifySeal cr (Some vs) (bHeader b) (sealRound (pRound m)) SealTypePrepare (prSeal m) (pSource m) = Some None"

definition goodCommit :: "Crypto \<Rightarrow> defaultSet \<Rightarrow> Block \<Rightarrow> Commit \<Rightarrow> bool" where
  "goodCommit cr vs b m \<longleftrightarrow> cDigest m = Block_Hash (keccak256 cr) b
     \<and> verifySeal cr (Some vs) (bHeader b) (sealRound (pRound m)) SealTypeCommit (CommitSeal m) (pSource m) = Some None"

definition onlyPrepares :: "wbftMsgSet \<Rightarrow> bool" where
  "onlyPrepares ms \<longleftrightarrow> (\<forall>m \<in> set (Values ms). \<exists>p. m = MPrepare p)"

definition onlyCommits :: "wbftMsgSet \<Rightarrow> bool" where
  "onlyCommits ms \<longleftrightarrow> (\<forall>m \<in> set (Values ms). \<exists>p. m = MCommit p)"

lemma onlyPrepares_add [simp]: "onlyPrepares ms \<Longrightarrow> onlyPrepares (MsgSet_Add (MPrepare m) ms)"
  using Values_AddD by (fastforce simp: onlyPrepares_def)

lemma onlyCommits_add [simp]: "onlyCommits ms \<Longrightarrow> onlyCommits (MsgSet_Add (MCommit m) ms)"
  using Values_AddD by (fastforce simp: onlyCommits_def)

lemma preparedPrepares_runs: "(\<And>m. m \<in> set ms \<Longrightarrow> \<exists>p. m = MPrepare p) \<Longrightarrow> \<exists>ps. preparedPrepares ms = Some ps"
  by (induction ms) (fastforce simp: bind_eq_Some_conv)+

lemma prepare_early:
  assumes "inPhase StatePreprepared s vs c" "rsProposal s = Some b" "goodPrepare cr vs b m"
    and "MsgSet_Size (WBFTPrepares (addPrepareTo m s)) < QuorumSize vs"
  shows "handlePrepareMsg cr backend m c = Some (None, c\<lparr>current := Some (addPrepareTo m s)\<rparr>)"
  using assms by (simp add: handlePrepareMsg_def inPhase_def goodPrepare_def addPrepareTo_def Let_def)

lemma prepare_reaches_quorum:
  assumes c: "inPhase StatePreprepared s vs c" "rsProposal s = Some b" and m: "goodPrepare cr vs b m"
    and q: "QuorumSize vs \<le> MsgSet_Size (WBFTPrepares (addPrepareTo m s))" and all: "onlyPrepares (WBFTPrepares s)"
  shows "\<exists>c' xs. handlePrepareMsg cr backend m c = Some (None, c')
    \<and> inPhase StatePrepared ((addPrepareTo m s)\<lparr>preparedRound := Some (rsRound s), preparedBlock := Some b\<rparr>) vs c'
    \<and> outbox c' = outbox c @ SealCall \<lparr>vRound = rsRound s, vSequence = rsSequence s\<rparr> (bHeader b) SealTypeCommit # xs"
proof -
  let ?s = "(addPrepareTo m s)\<lparr>preparedRound := Some (rsRound s), preparedBlock := Some b\<rparr>"
  obtain ps where ps: "preparedPrepares (Values (WBFTPrepares (addPrepareTo m s))) = Some ps"
    using preparedPrepares_runs [of "Values (WBFTPrepares (addPrepareTo m s))"] onlyPrepares_add [OF all]
    by (auto simp: onlyPrepares_def addPrepareTo_def)
  let ?c = "c\<lparr>current := Some ?s, WBFTPreparedPrepares := Some ps\<rparr>"
  have "backlog_inv ?c" using c(1) by (simp add: backlog_inv_def inPhase_def)
  then obtain c2 where c2: "setState StatePrepared ?c = Some c2" "quiet (?c\<lparr>coreState := StatePrepared\<rparr>) c2" "backlog_inv c2"
    using setState_runs [of ?c StatePrepared] c(1) by (auto simp: inPhase_def)
  then have cur: "current c2 = Some ?s" "valSet c2 = Some vs" "outbox c2 = outbox c"
    using c(1) by (simp_all add: inPhase_def quiet_def)
  have "rsProposal ?s = Some b" using c(2) by (simp add: rsProposal_def addPrepareTo_def)
  from broadcast_runs(2) [OF cur(1) this] obtain xs where xs: "broadcastCommit cr backend c2 = Some (c2\<lparr>outbox := outbox c2
      @ SealCall \<lparr>vRound = rsRound s, vSequence = rsSequence s\<rparr> (bHeader b) SealTypeCommit # xs\<rparr>)"
    using cur(2) by (auto simp: addPrepareTo_def)
  have "handlePrepareMsg cr backend m c = Some (None, c2\<lparr>outbox := outbox c2
      @ SealCall \<lparr>vRound = rsRound s, vSequence = rsSequence s\<rparr> (bHeader b) SealTypeCommit # xs\<rparr>)"
    using c m q ps c2(1) xs by (simp add: handlePrepareMsg_def State_Cmp_def inPhase_def goodPrepare_def addPrepareTo_def Let_def)
  then show ?thesis using cur c2(2,3)
    by (intro exI [of _ "c2\<lparr>outbox := outbox c2 @ SealCall \<lparr>vRound = rsRound s, vSequence = rsSequence s\<rparr> (bHeader b)
        SealTypeCommit # xs\<rparr>"] exI [of _ xs]) (simp add: inPhase_def quiet_def backlog_inv_def)
qed

lemma preparedSealsOf_runs: "(\<And>m. m \<in> set ms \<Longrightarrow> \<exists>p. m = MPrepare p) \<Longrightarrow> \<exists>sds. preparedSealsOf vs ms = Some sds"
  by (induction ms) (fastforce simp: bind_eq_Some_conv)+

lemma committedSealsOf_runs: "(\<And>m. m \<in> set ms \<Longrightarrow> \<exists>p. m = MCommit p) \<Longrightarrow> \<exists>sds. committedSealsOf vs ms = Some sds"
  by (induction ms) (fastforce simp: bind_eq_Some_conv)+

lemma commit_early:
  assumes "inPhase StatePrepared s vs c" "rsProposal s = Some b" "goodCommit cr vs b m"
    and "MsgSet_Size (WBFTCommits (addCommitTo m s)) < QuorumSize vs"
  shows "handleCommitMsg cr backend m c = Some (None, c\<lparr>current := Some (addCommitTo m s)\<rparr>)"
  using assms by (simp add: handleCommitMsg_def inPhase_def goodCommit_def addCommitTo_def Let_def)

lemma commit_reaches_quorum:
  assumes c: "inPhase StatePrepared s vs c" "rsProposal s = Some b" and m: "goodCommit cr vs b m"
    and q: "QuorumSize vs \<le> MsgSet_Size (WBFTCommits (addCommitTo m s))"
    and all: "onlyPrepares (WBFTPrepares s)" "onlyCommits (WBFTCommits s)"
    and accepted: "\<And>ps cs. backendCommit backend b ps cs (rsRound s) = None"
  shows "\<exists>c' ps cs. handleCommitMsg cr backend m c = Some (None, c') \<and> inPhase StateCommitted (addCommitTo m s) vs c'
    \<and> outbox c' = outbox c @ [CommitBlock b ps cs (rsRound s)]"
proof -
  let ?s = "addCommitTo m s"
  obtain ps where ps: "preparedSealsOf vs (Values (WBFTPrepares s)) = Some ps"
    using preparedSealsOf_runs all(1) unfolding onlyPrepares_def by blast
  obtain cs where cs: "committedSealsOf vs (Values (WBFTCommits ?s)) = Some cs"
    using committedSealsOf_runs onlyCommits_add [OF all(2), of m] unfolding onlyCommits_def addCommitTo_def by fastforce
  let ?c = "c\<lparr>current := Some ?s\<rparr>"
  have "backlog_inv ?c" using c(1) by (simp add: backlog_inv_def inPhase_def)
  then obtain c2 where c2: "setState StateCommitted ?c = Some c2" "quiet (?c\<lparr>coreState := StateCommitted\<rparr>) c2" "backlog_inv c2"
    using setState_runs [of ?c StateCommitted] c(1) by (auto simp: inPhase_def)
  then have cur: "current c2 = Some ?s" "valSet c2 = Some vs" "outbox c2 = outbox c"
    using c(1) by (simp_all add: inPhase_def quiet_def)
  have pr: "rsProposal ?s = Some b" "WBFTPrepares ?s = WBFTPrepares s" "rsRound ?s = rsRound s"
    using c(2) by (simp_all add: rsProposal_def addCommitTo_def)
  have "commitWBFT cr backend ?c = Some (emit (CommitBlock b ps cs (rsRound s)) c2)"
    using c2(1) cur pr ps cs accepted by (simp add: commitWBFT_def)
  then have "handleCommitMsg cr backend m c = Some (None, emit (CommitBlock b ps cs (rsRound s)) c2)"
    using c m q by (simp add: handleCommitMsg_def inPhase_def goodCommit_def addCommitTo_def Let_def)
  then show ?thesis using cur c2(2,3)
    by (intro exI [of _ "emit (CommitBlock b ps cs (rsRound s)) c2"] exI [of _ ps] exI [of _ cs])
      (simp add: inPhase_def quiet_def backlog_inv_def emit_def)
qed

section \<open>Sequences of messages\<close>

text \<open>Messages handled one after the other, none of them refused.\<close>

fun deliverAll :: "Crypto \<Rightarrow> Backend \<Rightarrow> WBFTMessage list \<Rightarrow> Core \<Rightarrow> Core option" where
  "deliverAll cr backend [] c = Some c"
| "deliverAll cr backend (m # ms) c = do {
     (err, c) \<leftarrow> handleDecodedMessage cr backend m c;
     if err = None then deliverAll cr backend ms c else None }"

lemma deliverAll_append:
  "deliverAll cr backend (xs @ ys) c = Option.bind (deliverAll cr backend xs c) (deliverAll cr backend ys)"
  by (induction xs arbitrary: c) (auto simp: split_def intro!: Option.bind_cong)

text \<open>The message is of the view the node is in.\<close>

definition viewOf :: "roundState \<Rightarrow> 'a CommonPayload_scheme \<Rightarrow> bool" where
  "viewOf s m \<longleftrightarrow> pSequence m = rsSequence s \<and> pRound m = rsRound s"

lemma handleDecoded_phase:
  assumes "inPhase st s vs c"
  shows "st = StateAcceptRequest \<Longrightarrow> pCode p = PreprepareCode \<Longrightarrow> viewOf s p \<Longrightarrow>
      handleDecodedMessage cr backend (MPreprepare p) c = handlePreprepareMsg cr backend p c"
    "st = StatePreprepared \<Longrightarrow> pCode q = PrepareCode \<Longrightarrow> viewOf s q \<Longrightarrow>
      handleDecodedMessage cr backend (MPrepare q) c = handlePrepareMsg cr backend q c"
    "st = StatePrepared \<Longrightarrow> pCode m = CommitCode \<Longrightarrow> viewOf s m \<Longrightarrow>
      handleDecodedMessage cr backend (MCommit m) c = handleCommitMsg cr backend m c"
  using assms code_order
  by (auto simp: handleDecodedMessage_def checkMessage_def currentView_def inPhase_def viewOf_def msgView_simps Code_def
      payload_defs classify_def tooFar_iff View_Cmp_simps deliverMessage_def code_defs)

lemma length_mapSet_new: "k \<notin> fst ` set xs \<Longrightarrow> length (mapSet k v xs) = Suc (length xs)"
  by (induction xs) auto

lemma MsgSet_Size_Add:
  "Source m \<notin> fst ` set (messages ms) \<Longrightarrow> MsgSet_Size (MsgSet_Add m ms) = MsgSet_Size ms + 1"
  "fst ` set (messages (MsgSet_Add m ms)) = insert (Source m) (fst ` set (messages ms))"
  by (simp_all add: MsgSet_Size_def MsgSet_Add_def length_mapSet_new dom_update)

text \<open>The PREPAREs of the remaining members of a quorum, and then the COMMITs.\<close>

lemma prepares_run:
  assumes "inPhase StatePreprepared s vs c" "rsProposal s = Some b" "onlyPrepares (WBFTPrepares s)"
    and "\<And>m. m \<in> set ps \<Longrightarrow> pCode m = PrepareCode \<and> viewOf s m \<and> goodPrepare cr vs b m"
    and "distinct (map pSource ps)" "pSource ` set ps \<inter> fst ` set (messages (WBFTPrepares s)) = {}"
    and "ps \<noteq> []" "MsgSet_Size (WBFTPrepares s) + int (length ps) = QuorumSize vs"
  shows "\<exists>c' s' xs. deliverAll cr backend (map MPrepare ps) c = Some c' \<and> inPhase StatePrepared s' vs c'
    \<and> rsProposal s' = Some b \<and> rsSequence s' = rsSequence s \<and> rsRound s' = rsRound s \<and> onlyPrepares (WBFTPrepares s')
    \<and> WBFTCommits s' = WBFTCommits s
    \<and> outbox c' = outbox c @ SealCall \<lparr>vRound = rsRound s, vSequence = rsSequence s\<rparr> (bHeader b) SealTypeCommit # xs"
  using assms
proof (induction ps arbitrary: s c)
  case (Cons m ps)
  let ?s = "addPrepareTo m s"
  have m: "goodPrepare cr vs b m" "handleDecodedMessage cr backend (MPrepare m) c = handlePrepareMsg cr backend m c"
    using Cons.prems(4) handleDecoded_phase(2) [OF Cons.prems(1)] by simp_all
  have sz: "MsgSet_Size (WBFTPrepares ?s) = MsgSet_Size (WBFTPrepares s) + 1"
    using MsgSet_Size_Add(1) [of "MPrepare m"] Cons.prems(6) by (simp add: addPrepareTo_def)
  have keep: "rsProposal ?s = Some b" "rsSequence ?s = rsSequence s" "rsRound ?s = rsRound s" "WBFTCommits ?s = WBFTCommits s"
    "onlyPrepares (WBFTPrepares ?s)" using Cons.prems(2,3) by (simp_all add: addPrepareTo_def rsProposal_def)
  show ?case
  proof (cases "ps = []")
    case True
    then have "QuorumSize vs \<le> MsgSet_Size (WBFTPrepares ?s)" using Cons.prems(8) sz by simp
    from prepare_reaches_quorum [OF Cons.prems(1,2) m(1) this Cons.prems(3), of backend] obtain c' xs where
      "handlePrepareMsg cr backend m c = Some (None, c')"
      "inPhase StatePrepared (?s\<lparr>preparedRound := Some (rsRound s), preparedBlock := Some b\<rparr>) vs c'"
      "outbox c' = outbox c @ SealCall \<lparr>vRound = rsRound s, vSequence = rsSequence s\<rparr> (bHeader b) SealTypeCommit # xs" by blast
    then show ?thesis using True m(2) keep
      by (intro exI [of _ c'] exI [of _ "?s\<lparr>preparedRound := Some (rsRound s), preparedBlock := Some b\<rparr>"] exI [of _ xs])
        (simp add: rsProposal_def)
  next
    case False
    let ?c = "c\<lparr>current := Some ?s\<rparr>"
    have lt: "MsgSet_Size (WBFTPrepares ?s) < QuorumSize vs" using Cons.prems(8) sz False by (cases ps) auto
    have "handlePrepareMsg cr backend m c = Some (None, ?c)" by (rule prepare_early [OF Cons.prems(1,2) m(1) lt])
    then have step: "deliverAll cr backend (map MPrepare (m # ps)) c = deliverAll cr backend (map MPrepare ps) ?c"
      using m(2) by simp
    have "inPhase StatePreprepared ?s vs ?c" using Cons.prems(1) by (simp add: inPhase_def backlog_inv_def)
    moreover have "pSource ` set ps \<inter> fst ` set (messages (WBFTPrepares ?s)) = {}"
      using Cons.prems(5,6) MsgSet_Size_Add(2) [of "MPrepare m" "WBFTPrepares s"] by (auto simp: addPrepareTo_def)
    moreover have "pCode x = PrepareCode \<and> viewOf ?s x \<and> goodPrepare cr vs b x" if "x \<in> set ps" for x
      using Cons.prems(4) that by (simp add: viewOf_def keep)
    ultimately have "\<exists>c' s' xs. deliverAll cr backend (map MPrepare ps) ?c = Some c' \<and> inPhase StatePrepared s' vs c'
        \<and> rsProposal s' = Some b \<and> rsSequence s' = rsSequence ?s \<and> rsRound s' = rsRound ?s \<and> onlyPrepares (WBFTPrepares s')
        \<and> WBFTCommits s' = WBFTCommits ?s
        \<and> outbox c' = outbox ?c @ SealCall \<lparr>vRound = rsRound ?s, vSequence = rsSequence ?s\<rparr> (bHeader b) SealTypeCommit # xs"
      using Cons.prems(5,8) sz keep False by (intro Cons.IH) simp_all
    then show ?thesis unfolding step keep by simp
  qed
qed simp

lemma commits_run:
  assumes "inPhase StatePrepared s vs c" "rsProposal s = Some b" "onlyPrepares (WBFTPrepares s)" "onlyCommits (WBFTCommits s)"
    and "\<And>m. m \<in> set cs \<Longrightarrow> pCode m = CommitCode \<and> viewOf s m \<and> goodCommit cr vs b m"
    and "distinct (map pSource cs)" "pSource ` set cs \<inter> fst ` set (messages (WBFTCommits s)) = {}"
    and "cs \<noteq> []" "MsgSet_Size (WBFTCommits s) + int (length cs) = QuorumSize vs"
    and "\<And>ps cs. backendCommit backend b ps cs (rsRound s) = None"
  shows "\<exists>c' s' ps cs'. deliverAll cr backend (map MCommit cs) c = Some c' \<and> inPhase StateCommitted s' vs c'
    \<and> outbox c' = outbox c @ [CommitBlock b ps cs' (rsRound s)]"
  using assms
proof (induction cs arbitrary: s c)
  case (Cons m cs)
  let ?s = "addCommitTo m s"
  have m: "goodCommit cr vs b m" "handleDecodedMessage cr backend (MCommit m) c = handleCommitMsg cr backend m c"
    using Cons.prems(5) handleDecoded_phase(3) [OF Cons.prems(1)] by simp_all
  have sz: "MsgSet_Size (WBFTCommits ?s) = MsgSet_Size (WBFTCommits s) + 1"
    using MsgSet_Size_Add(1) [of "MCommit m"] Cons.prems(7) by (simp add: addCommitTo_def)
  have keep: "rsProposal ?s = Some b" "rsSequence ?s = rsSequence s" "rsRound ?s = rsRound s" "WBFTPrepares ?s = WBFTPrepares s"
    "onlyCommits (WBFTCommits ?s)" using Cons.prems(2,4) by (simp_all add: addCommitTo_def rsProposal_def)
  show ?case
  proof (cases "cs = []")
    case True
    then have "QuorumSize vs \<le> MsgSet_Size (WBFTCommits ?s)" using Cons.prems(9) sz by simp
    from commit_reaches_quorum [OF Cons.prems(1,2) m(1) this Cons.prems(3,4,10)] show ?thesis using True m(2) by fastforce
  next
    case False
    let ?c = "c\<lparr>current := Some ?s\<rparr>"
    have lt: "MsgSet_Size (WBFTCommits ?s) < QuorumSize vs" using Cons.prems(9) sz False by (cases cs) auto
    have "handleCommitMsg cr backend m c = Some (None, ?c)" by (rule commit_early [OF Cons.prems(1,2) m(1) lt])
    then have step: "deliverAll cr backend (map MCommit (m # cs)) c = deliverAll cr backend (map MCommit cs) ?c"
      using m(2) by simp
    have "inPhase StatePrepared ?s vs ?c" using Cons.prems(1) by (simp add: inPhase_def backlog_inv_def)
    moreover have "pSource ` set cs \<inter> fst ` set (messages (WBFTCommits ?s)) = {}"
      using Cons.prems(6,7) MsgSet_Size_Add(2) [of "MCommit m" "WBFTCommits s"] by (auto simp: addCommitTo_def)
    moreover have "pCode x = CommitCode \<and> viewOf ?s x \<and> goodCommit cr vs b x" if "x \<in> set cs" for x
      using Cons.prems(5) that by (simp add: viewOf_def keep)
    ultimately have "\<exists>c' s' ps cs'. deliverAll cr backend (map MCommit cs) ?c = Some c' \<and> inPhase StateCommitted s' vs c'
        \<and> outbox c' = outbox ?c @ [CommitBlock b ps cs' (rsRound ?s)]"
      using Cons.prems(3,6,9,10) sz keep False by (intro Cons.IH) simp_all
    then show ?thesis unfolding step keep by simp
  qed
qed simp

section \<open>A successful round\<close>

text \<open>C5. A round succeeds once its messages arrive: a node in a fresh round that receives a valid proposal from
  the proposer, then PREPAREs of the proposal from a quorum of validators and COMMITs from a quorum, all with
  valid seals, accepts every one of them, whatever its backlog holds, and hands the block to the backend; it
  ends in state Committed.\<close>

theorem proposal_is_committed:
  assumes "inPhase StateAcceptRequest s vs c" "WBFTPrepares s = newWBFTMsgSet vs" "WBFTCommits s = newWBFTMsgSet vs"
    and "GetConfig (config c) (Some (rsSequence s)) \<noteq> None"
    and proposal: "pCode p = PreprepareCode" "viewOf s p" "IsProposer vs (pSource p)" "pSequence p = Block_Number (Proposal p)"
      "snd (backendVerify backend (Proposal p)) = None"
      "bigUint64 (pRound p) > 0 \<Longrightarrow> isJustified (keccak256 cr) (Proposal p) (payloadView p)
        (JustificationRoundChanges p) (JustificationPrepares p) (QuorumSize vs) = None"
    and prepares: "\<And>m. m \<in> set ps \<Longrightarrow> pCode m = PrepareCode \<and> viewOf s m \<and> goodPrepare cr vs (Proposal p) m"
      "distinct (map pSource ps)" "int (length ps) = QuorumSize vs"
    and commits: "\<And>m. m \<in> set cs \<Longrightarrow> pCode m = CommitCode \<and> viewOf s m \<and> goodCommit cr vs (Proposal p) m"
      "distinct (map pSource cs)" "int (length cs) = QuorumSize vs"
    and accepted: "\<And>pss css. backendCommit backend (Proposal p) pss css (rsRound s) = None"
  shows "\<exists>c' pss css. deliverAll cr backend (MPreprepare p # map MPrepare ps @ map MCommit cs) c = Some c'
    \<and> coreState c' = StateCommitted \<and> CommitBlock (Proposal p) pss css (rsRound s) \<in> set (outbox c')"
proof -
  let ?s = "SetPreprepare p s" and ?b = "Proposal p"
  have ne: "ps \<noteq> []" "cs \<noteq> []"
    using prepares(3) commits(3) QuorumSize_pos [of vs] by (auto simp del: QuorumSize_pos)
  obtain c1 where c1: "handlePreprepareMsg cr backend p c = Some (None, c1)" "inPhase StatePreprepared ?s vs c1"
    using preprepare_runs [OF assms(1,4) proposal(3,4,5,6)] by blast
  have s: "rsProposal ?s = Some ?b" "onlyPrepares (WBFTPrepares ?s)" "messages (WBFTPrepares ?s) = []" "WBFTCommits ?s = newWBFTMsgSet vs"
    "rsRound ?s = rsRound s" "rsSequence ?s = rsSequence s" "MsgSet_Size (WBFTPrepares ?s) = 0"
    using assms(2,3) by (simp_all add: SetPreprepare_def rsProposal_def onlyPrepares_def MsgSet_Size_def)
  obtain c2 s2 where c2: "deliverAll cr backend (map MPrepare ps) c1 = Some c2" "inPhase StatePrepared s2 vs c2"
    and s2: "rsProposal s2 = Some ?b" "rsSequence s2 = rsSequence s" "rsRound s2 = rsRound s" "onlyPrepares (WBFTPrepares s2)"
      "WBFTCommits s2 = newWBFTMsgSet vs"
    using prepares_run [OF c1(2) s(1,2) _ prepares(2) _ ne(1), of cr backend] prepares(1,3) s by (auto simp: viewOf_def)
  have "onlyCommits (WBFTCommits s2)" "MsgSet_Size (WBFTCommits s2) = 0" by (simp_all add: s2(5) onlyCommits_def MsgSet_Size_def)
  then obtain c3 s3 pss css where c3: "deliverAll cr backend (map MCommit cs) c2 = Some c3" "inPhase StateCommitted s3 vs c3"
    "outbox c3 = outbox c2 @ [CommitBlock ?b pss css (rsRound s2)]"
    using commits_run [OF c2(2) s2(1,4) _ _ commits(2) _ ne(2), of cr backend] commits(1,3) s2 accepted by (auto simp: viewOf_def)
  have "handleDecodedMessage cr backend (MPreprepare p) c = Some (None, c1)"
    using handleDecoded_phase(1) [OF assms(1)] proposal(1,2) c1(1) by simp
  then have "deliverAll cr backend (MPreprepare p # map MPrepare ps @ map MCommit cs) c = Some c3"
    using c2(1) c3(1) by (simp add: deliverAll_append)
  then show ?thesis using c3(2,3) s2(3) by (auto simp: inPhase_def)
qed

definition exampleCrypto :: Crypto where
  "exampleCrypto = \<lparr>keccak256 = (\<lambda>b. 0), sigToAddress = (\<lambda>h sg. Some 1), blsPublicKeyOk = (\<lambda>k. True),
     blsSignatureOk = (\<lambda>sg. True), blsVerify = (\<lambda>sg k d. True)\<rparr>"

definition exampleProposal :: Preprepare where
  "exampleProposal = (NewPreprepare 5 0 exampleBlock)\<lparr>pSource := 1\<rparr>"

definition examplePrepare :: "address \<Rightarrow> Prepare" where
  "examplePrepare a = (NewPrepare 5 0 0 [])\<lparr>pSource := a\<rparr>"

definition exampleCommit :: "address \<Rightarrow> Commit" where
  "exampleCommit a = (NewCommit 5 0 0 [])\<lparr>pSource := a\<rparr>"

lemma example_facts:
  "pCode exampleProposal = PreprepareCode" "pSource exampleProposal = 1" "pSequence exampleProposal = 5" "pRound exampleProposal = 0"
  "Proposal exampleProposal = exampleBlock" "Block_Number exampleBlock = 5"
  "pCode (examplePrepare a) = PrepareCode" "pSource (examplePrepare a) = a" "pSequence (examplePrepare a) = 5" "pRound (examplePrepare a) = 0"
  "pCode (exampleCommit a) = CommitCode" "pSource (exampleCommit a) = a" "pSequence (exampleCommit a) = 5" "pRound (exampleCommit a) = 0"
  "backendVerify exampleBackend b = (0, None)" "backendCommit exampleBackend b ps cs r = None"
  by (simp_all add: exampleProposal_def examplePrepare_def exampleCommit_def payload_defs exampleBackend_def exampleBlock_def
      exampleHeader_def Block_Number_def)

lemma exampleSet_member: "a \<in> {1, 2, 3} \<Longrightarrow> \<exists>v. snd (GetByAddress (exampleSet 4) a) = Some v"
proof -
  have "snd (GetByAddress (exampleSet 4) 1) \<noteq> None" by code_simp
  moreover have "snd (GetByAddress (exampleSet 4) 2) \<noteq> None" by code_simp
  moreover have "snd (GetByAddress (exampleSet 4) 3) \<noteq> None" by code_simp
  ultimately show "a \<in> {1, 2, 3} \<Longrightarrow> \<exists>v. snd (GetByAddress (exampleSet 4) a) = Some v" by auto
qed

lemma exampleVotes_good:
  assumes "a \<in> {1, 2, 3}"
  shows "goodPrepare exampleCrypto (exampleSet 4) exampleBlock (examplePrepare a)"
    "goodCommit exampleCrypto (exampleSet 4) exampleBlock (exampleCommit a)"
  using exampleSet_member [OF assms]
  by (auto simp: goodPrepare_def goodCommit_def verifySeal_def examplePrepare_def exampleCommit_def payload_defs
      exampleCrypto_def Block_Hash_def Header_Hash_def rlpHash_def exampleBlock_def exampleHeader_def)

theorem proposal_is_committed_witness:
  "\<exists>c' pss css. deliverAll exampleCrypto exampleBackend (MPreprepare exampleProposal #
       map MPrepare [examplePrepare 1, examplePrepare 2, examplePrepare 3] @
       map MCommit [exampleCommit 3, exampleCommit 1, exampleCommit 2]) (exampleCore StateAcceptRequest) = Some c'
     \<and> coreState c' = StateCommitted \<and> CommitBlock exampleBlock pss css 0 \<in> set (outbox c')"
proof -
  let ?s = "newRoundState \<lparr>vRound = 0, vSequence = 5\<rparr> (exampleSet 4) None None None None"
  have s: "rsRound ?s = 0" "rsSequence ?s = 5" "WBFTPrepares ?s = newWBFTMsgSet (exampleSet 4)"
    "WBFTCommits ?s = newWBFTMsgSet (exampleSet 4)" by (simp_all add: newRoundState_def)
  have phase: "inPhase StateAcceptRequest ?s (exampleSet 4) (exampleCore StateAcceptRequest)"
    using exampleCore_backlog(1) by (simp add: inPhase_def exampleCore_def)
  have cfg: "GetConfig (config (exampleCore StateAcceptRequest)) (Some (rsSequence ?s)) \<noteq> None"
    unfolding s by code_simp
  have proposer: "IsProposer (exampleSet 4) (pSource exampleProposal)" unfolding example_facts by code_simp
  have q: "QuorumSize (exampleSet 4) = 3" by (simp add: QuorumSize_closed) code_simp
  have view: "viewOf ?s exampleProposal" "viewOf ?s (examplePrepare a)" "viewOf ?s (exampleCommit a)" for a
    by (simp_all add: viewOf_def s example_facts)
  have votes: "goodPrepare exampleCrypto (exampleSet 4) (Proposal exampleProposal) (examplePrepare a)"
    "goodCommit exampleCrypto (exampleSet 4) (Proposal exampleProposal) (exampleCommit a)" if "a \<in> {1, 2, 3}" for a
    using exampleVotes_good [OF that] by (simp_all add: example_facts)
  have "\<exists>c' pss css. deliverAll exampleCrypto exampleBackend (MPreprepare exampleProposal #
       map MPrepare [examplePrepare 1, examplePrepare 2, examplePrepare 3] @
       map MCommit [exampleCommit 3, exampleCommit 1, exampleCommit 2]) (exampleCore StateAcceptRequest) = Some c'
     \<and> coreState c' = StateCommitted \<and> CommitBlock (Proposal exampleProposal) pss css (rsRound ?s) \<in> set (outbox c')"
  proof (rule proposal_is_committed [OF phase s(3,4) cfg example_facts(1) view(1) proposer])
    show "distinct (map pSource [examplePrepare 1, examplePrepare 2, examplePrepare 3])"
      "distinct (map pSource [exampleCommit 3, exampleCommit 1, exampleCommit 2])" by (simp_all add: example_facts)
  qed (use votes view in \<open>auto simp: example_facts q bigUint64_def\<close>)
  then show ?thesis unfolding s example_facts .
qed

end
