(* ===== verification/Node_Run.thy ===== *)
theory Node_Run
  imports Progress
begin

text \<open>
  The runs of one node: it starts, then handles events one at a time. Nothing is assumed of the events, of
  their order or of what the backend answers, except that the validators of a sequence are a function of its
  number and that the view stays within the range of machine integers. The properties hold of every state of
  every run: the node follows the abstract voter, its view never decreases, it never seals two blocks in
  one view and phase, and it commits and finalises only what a quorum has sealed.
\<close>

section \<open>Runs\<close>

definition knowsValidators :: "(int \<Rightarrow> defaultSet) \<Rightarrow> Backend \<Rightarrow> bool" where
  "knowsValidators Vs bk \<longleftrightarrow> (\<forall>b. sameValidators (Vs (Block_Number b + 1)) (backendValidators bk b))
     \<and> (\<forall>n. validators (Vs n) \<noteq> [])"

inductive node_run :: "Crypto \<Rightarrow> (int \<Rightarrow> defaultSet) \<Rightarrow> Core \<Rightarrow> bool" for cr Vs where
  start: "knowsValidators Vs bk \<Longrightarrow> Start cr bk (NewCore bk cfg) = Some c \<Longrightarrow> node_run cr Vs c"
| event: "node_run cr Vs c \<Longrightarrow> knowsValidators Vs bk \<Longrightarrow> boundedView c \<Longrightarrow> handleEvent cr bk ev c = Some c' \<Longrightarrow>
     node_run cr Vs c'"
| futureBlock: "node_run cr Vs c \<Longrightarrow> futurePreprepareFires c = Some c' \<Longrightarrow> node_run cr Vs c'"

lemma quiet_futurePreprepareFires: "futurePreprepareFires c = Some c' \<Longrightarrow> quiet c c'"
  by (auto simp: futurePreprepareFires_def sendEvent_def quiet_def bind_eq_Some_conv split: option.splits)

section \<open>The first round\<close>

lemma startNewRound_first:
  assumes start: "startNewRound cr backend 0 c = Some c'" and none: "current c = None"
  obtains lp vs where "fst (LastProposal backend) = Some lp" "sameValidators (backendValidators backend lp) vs"
    "roundEntered c 0 vs (newRoundState \<lparr>vRound = 0, vSequence = Block_Number lp + 1\<rparr> (backendValidators backend lp)
       None None None None) c'"
proof -
  obtain lp lpr where lp: "LastProposal backend = (lp, lpr)" by (cases "LastProposal backend")
  have kind: "roundKind lp 0 c = Some NewSequence" using none by (simp add: roundKind_def)
  obtain x c2 vs1 c3 c4 and s1 :: roundState where
    c1: "nextView backend lp 0 False c = Some x"
    and c2: "updateRoundState cr backend (fst (snd x)) (fst x) False (snd (snd x)) = Some c2" "valSet c2 = Some vs1"
    and c3: "setState StateAcceptRequest (c2\<lparr>valSet := Some (CalcProposer vs1 lpr (bigUint64 (vRound (fst x))))\<rparr>) = Some c3"
    and c4: "resetRoundChanges lp 0 c3 = Some c4"
    and c': "newRoundChangeTimer (Some (rsSequence s1)) (Some (rsRound s1)) (emit (NotifyNewRound 0) c4) = Some c'"
    using startNewRound_parts [OF start lp kind] by auto
  obtain b where b: "lp = Some b" "fst x = \<lparr>vRound = 0, vSequence = Block_Number b + 1\<rparr>"
    "fst (snd x) = backendValidators backend b" "addEffectiveSealToExtraSeal c = Some (snd (snd x))"
    using c1 by (auto simp: nextView_def bind_eq_Some_conv)
  note u = updateRoundState_new [OF c2(1)]
  let ?vs = "CalcProposer vs1 lpr (bigUint64 (vRound (fst x)))"
  have vs1: "vs1 = backendValidators backend b" using u(2) c2(2) b(3) by simp
  have "sameValidators vs1 ?vs" by (intro sameValidators_CalcProposer) (simp add: sameValidators_def)
  moreover have "quiet c (c2\<lparr>current := current c, valSet := valSet c\<rparr>)"
    using quiet_addEffectiveSeal [OF b(4)] u(1) by (auto simp: quiet_def)
  then have "roundEntered c 0 ?vs (newRoundState (fst x) (fst (snd x)) None None None None) c'"
    by (rule enterRound [OF _ u(3,2) c3 c4 c'])
  ultimately show thesis using that [of b ?vs] lp b(1-3) vs1 by simp
qed

definition newVoter :: "int \<Rightarrow> Voter" where
  "newVoter n = \<lparr>voSeq = n, voRound = 0, voPhase = StateAcceptRequest, voAccepted = None, voLock = None, voVotes = []\<rparr>"

lemma newVoter_inv: "vote_inv calm (newVoter n)"
  by (simp add: newVoter_def vote_inv_def vote_inv_defs lockOk_def reportsLock_def locksCommitted_def)

lemma Start_ok:
  assumes "Start (wCrypto W) bk (NewCore bk cfg) = Some c" "knowsValidators (wVals W) bk"
  shows "\<exists>s n. core_ok W c s \<and> effectsOk W c
    \<and> voterOf (wCrypto W) c s = newVoter n"
proof -
  obtain lp vs where lp: "fst (LastProposal bk) = Some lp" "sameValidators (backendValidators bk lp) vs"
    "roundEntered (NewCore bk cfg) 0 vs (newRoundState \<lparr>vRound = 0, vSequence = Block_Number lp + 1\<rparr> (backendValidators bk lp)
       None None None None) c"
    by (rule startNewRound_first [OF assms(1) [unfolded Start_def]]) (auto simp: NewCore_def)
  let ?s = "newRoundState \<lparr>vRound = 0, vSequence = Block_Number lp + 1\<rparr> (backendValidators bk lp) None None None None"
  have rcs: "\<exists>rcs. rcSet c = Some rcs \<and> smallRounds rcs"
    using lp(3) smallRounds_NewRound [OF smallRounds_new, of 0] by (auto simp: roundEntered_def NewCore_def)
  have sv: "sameValidators (wVals W (Block_Number lp + 1)) vs"
    using assms(2) lp(2) sameValidators_trans by (auto simp: knowsValidators_def)
  have "core_ok W c ?s"
    using lp(3) sv rcs by (auto simp: core_ok_def proposalOk_def roundEntered_def newRoundState_def)
  moreover have out: "outbox c = [NotifyNewRound 0]" using lp(3) by (simp add: roundEntered_def NewCore_def)
  then have "effectsOk W c" by (simp add: effectsOk_def)
  moreover have "voterOf (wCrypto W) c ?s
      = newVoter (Block_Number lp + 1)"
    using lp(3) out by (simp add: newVoter_def voterOf_def roundEntered_def newRoundState_def lockOf_def coreVotes_def)
  ultimately show ?thesis by blast
qed

section \<open>Every state of a run\<close>

text \<open>The world in which nothing is known of what other nodes send.\<close>

definition anyWorld :: "Crypto \<Rightarrow> (int \<Rightarrow> defaultSet) \<Rightarrow> World" where
  "anyWorld cr Vs = \<lparr>wCrypto = cr, wVals = Vs, wHeader = \<lambda>h. True, wRounds = 2 ^ 62, wSeal = \<lambda>s. True, wRoundChange = \<lambda>m. True, wPrepare = \<lambda>m. True\<rparr>"

lemma anyWorld_simps [simp]:
  "wCrypto (anyWorld cr Vs) = cr" "wVals (anyWorld cr Vs) = Vs" "wHeader (anyWorld cr Vs) h" "wSeal (anyWorld cr Vs) x"
  "wRoundChange (anyWorld cr Vs) rc" "wPrepare (anyWorld cr Vs) p" "wRounds (anyWorld cr Vs) = 2 ^ 62"
  by (simp_all add: anyWorld_def)

lemma authMsg_anyWorld [simp]: "authMsg (anyWorld cr Vs) m"
  by (cases m) simp_all

definition run_ok :: "World \<Rightarrow> bool \<Rightarrow> Core \<Rightarrow> roundState \<Rightarrow> bool" where
  "run_ok W calm c s \<longleftrightarrow> core_ok W c s \<and> effectsOk W c \<and> (\<exists>n. worldSteps W calm
     (newVoter n) (voterOf (wCrypto W) c s))"

lemma run_ok_refines:
  assumes "refines W calm c c'" "run_ok W calm c s"
  shows "\<exists>s'. run_ok W calm c' s' \<and> worldSteps W calm (voterOf (wCrypto W) c s) (voterOf (wCrypto W) c' s')"
  using assms unfolding refines_def run_ok_def by (meson rtranclp_trans)

lemma refines_event_any:
  assumes "knowsValidators Vs bk" "boundedView c" "handleEvent cr bk ev c = Some c'"
  shows "refines (anyWorld cr Vs) False c c'"
  using assms by (intro refines_event [where backend = bk and ev = ev]) (auto simp: knowsValidators_def boundedView_def)

lemma node_run_ok:
  assumes "node_run cr Vs c"
  shows "\<exists>s. run_ok (anyWorld cr Vs) False c s"
  using assms
proof (induction rule: node_run.induct)
  case (start bk cfg c)
  then show ?case using Start_ok [of "anyWorld cr Vs" bk cfg c] unfolding run_ok_def by fastforce
next
  case (event c bk ev c')
  then show ?case using run_ok_refines [OF refines_event_any] by blast
next
  case (futureBlock c c')
  then show ?case using run_ok_refines [OF refines_quiet [OF quiet_futurePreprepareFires]] by blast
qed

lemma node_run_votes:
  assumes "node_run cr Vs c"
  shows "onePrepare (set (coreVotes cr c))" "commitPrepared (set (coreVotes cr c))"
    "x \<in> set (coreVotes cr c) \<Longrightarrow> backed (justifiedProposal (anyWorld cr Vs)) (sealQuorum (anyWorld cr Vs) SealTypePrepare)
       (sealQuorum (anyWorld cr Vs) SealTypeCommit) x"
    "effectsOk (anyWorld cr Vs) c"
proof -
  obtain s where "run_ok (anyWorld cr Vs) False c s" using node_run_ok [OF assms] by blast
  then obtain n where n: "worldSteps (anyWorld cr Vs) False
     (newVoter n) (voterOf cr c s)"
    and "effectsOk (anyWorld cr Vs) c" by (auto simp: run_ok_def)
  then show "effectsOk (anyWorld cr Vs) c" by simp
  have v: "voVotes (voterOf cr c s) = coreVotes cr c" by (simp add: voterOf_def)
  show "onePrepare (set (coreVotes cr c))" "commitPrepared (set (coreVotes cr c))"
    using vote_inv_steps [OF n newVoter_inv] v by (simp_all add: vote_inv_def)
  show "x \<in> set (coreVotes cr c) \<Longrightarrow> backed (justifiedProposal (anyWorld cr Vs)) (sealQuorum (anyWorld cr Vs) SealTypePrepare)
       (sealQuorum (anyWorld cr Vs) SealTypeCommit) x"
    using vsteps_backed [OF n] v by (auto simp: newVoter_def)
qed

section \<open>A run\<close>

lemma processBacklog_empty: "backlogs c = [] \<Longrightarrow> processBacklog c = Some c"
  by (simp add: processBacklog_def)

lemma processPending_empty: "pendingRequests c = NewPrque \<Longrightarrow> processPendingRequests c = Some c"
proof -
  have "Empty (NewPrque :: (int, Request) Prque)" by code_simp
  then show "pendingRequests c = NewPrque \<Longrightarrow> processPendingRequests c = Some c" by (simp add: processPendingRequests_def)
qed

lemmas startNewRound_eval = startNewRound_def roundKind_def nextView_def updateRoundState_def setState_def
  processPending_empty processBacklog_empty resetRoundChanges_def ClearExtraSeals_def emit_def
  newRoundState_def backlog_inv_def addEffectiveSealToExtraSeal_def Let_def

lemma Start_runs:
  assumes "LastProposal bk = (Some lp, a)" "GetConfig cfg (Some (Block_Number lp + 1)) \<noteq> None"
  shows "\<exists>c. Start cr bk (NewCore bk cfg) = Some c
    \<and> inPhase StateAcceptRequest (newRoundState \<lparr>vRound = 0, vSequence = Block_Number lp + 1\<rparr> (backendValidators bk lp)
        None None None None) (CalcProposer (backendValidators bk lp) a 0) c
    \<and> config c = cfg \<and> outbox c = [NotifyNewRound 0] \<and> backlogs c = [] \<and> pendingRequests c = NewPrque \<and> rcSet c \<noteq> None"
proof -
  obtain cfg' where cfg': "GetConfig cfg (Some (Block_Number lp + 1)) = Some cfg'" using assms(2) by blast
  show ?thesis
    using assms(1) cfg'
    by (simp add: Start_def NewCore_def bigUint64_def clearSeals_def inPhase_def startNewRound_eval newRoundChangeTimer_def timer_defs)
qed

text \<open>A node that is the only validator: it prepares and commits block 5.\<close>

definition soloSet :: defaultSet where "soloSet = exampleSet 1"

definition soloParent :: Block where
  "soloParent = exampleBlock\<lparr>bHeader := exampleHeader\<lparr>Number := Some 4\<rparr>\<rparr>"

definition soloBackend :: Backend where
  "soloBackend = exampleBackend\<lparr>backendValidators := (\<lambda>b. soloSet), LastProposal := (Some soloParent, 0)\<rparr>"

abbreviation soloVals :: defaultSet where "soloVals \<equiv> CalcProposer soloSet 0 0"

lemma soloBackend_facts:
  "LastProposal soloBackend = (Some soloParent, 0)" "backendValidators soloBackend b = soloSet" "Block_Number soloParent = 4"
  "backendVerify soloBackend b = (0, None)" "backendCommit soloBackend b ps cs rd = None"
  by (simp_all add: soloBackend_def soloParent_def Block_Number_def exampleBackend_def)

lemma soloSet_nonempty: "validators soloSet \<noteq> []"
  by code_simp

lemma solo_knows: "knowsValidators (\<lambda>n. soloSet) soloBackend"
  using soloSet_nonempty by (simp add: knowsValidators_def soloBackend_facts sameValidators_def)

lemma soloVals_facts:
  "IsProposer soloVals 1" "QuorumSize soloVals = 1" "\<exists>v. snd (GetByAddress soloVals 1) = Some v"
  "\<exists>cfg. GetConfig DefaultConfig (Some 5) = Some cfg"
proof -
  show "IsProposer soloVals 1" by code_simp
  have "Size soloVals = 1" by code_simp
  then show "QuorumSize soloVals = 1" by (simp add: QuorumSize_closed)
  have "snd (GetByAddress soloVals 1) \<noteq> None" "GetConfig DefaultConfig (Some 5) \<noteq> None" by code_simp+
  then show "\<exists>v. snd (GetByAddress soloVals 1) = Some v" "\<exists>cfg. GetConfig DefaultConfig (Some 5) = Some cfg" by auto
qed

lemma solo_votes: "goodPrepare exampleCrypto soloVals exampleBlock (examplePrepare 1)"
  "goodCommit exampleCrypto soloVals exampleBlock (exampleCommit 1)"
  using soloVals_facts(3)
  by (auto simp: goodPrepare_def goodCommit_def verifySeal_def examplePrepare_def exampleCommit_def payload_defs
    exampleCrypto_def Block_Hash_def Header_Hash_def rlpHash_def exampleBlock_def exampleHeader_def)

text \<open>A backlogged message that is handled without error.\<close>

lemma handleEvent_message:
  assumes "handleDecodedMessage cr bk m c = Some (None, c1)" "inPhase st s vs c1"
  shows "\<exists>c2. handleEvent cr bk (BacklogEvent None m) c = Some c2 \<and> inPhase st s vs c2 \<and> set (outbox c1) \<subseteq> set (outbox c2)"
proof (cases "EncodeMsg m")
  case None
  then have "handleEvent cr bk (BacklogEvent None m) c = Some c1" using assms(1) by simp
  then show ?thesis using assms(2) by blast
next
  case (Some data)
  then have "handleEvent cr bk (BacklogEvent None m) c = Some (emit (Gossip (Code m) data) c1)"
    using assms by (simp add: inPhase_def)
  moreover have "inPhase st s vs (emit (Gossip (Code m) data) c1)"
    using assms(2) by (simp add: inPhase_def emit_def backlog_inv_def)
  ultimately show ?thesis by (intro exI [of _ "emit (Gossip (Code m) data) c1"]) (auto simp: emit_def)
qed

lemma node_run_message:
  assumes "node_run cr Vs c" "knowsValidators Vs bk" "handleDecodedMessage cr bk m c = Some (None, c1)" "inPhase st s vs c1"
    and "boundedView c"
  shows "\<exists>c2. node_run cr Vs c2 \<and> inPhase st s vs c2 \<and> set (outbox c1) \<subseteq> set (outbox c2)"
  using handleEvent_message [OF assms(3,4)] node_run.event [OF assms(1,2,5)] by blast

abbreviation soloRound :: roundState where
  "soloRound \<equiv> newRoundState \<lparr>vRound = 0, vSequence = 5\<rparr> soloSet None None None None"

lemma soloRound_facts:
  "rsRound soloRound = 0" "rsSequence soloRound = 5" "WBFTPrepares soloRound = newWBFTMsgSet soloSet"
  "WBFTCommits soloRound = newWBFTMsgSet soloSet"
  by (simp_all add: newRoundState_def)

lemma solo_start: "\<exists>c. node_run exampleCrypto (\<lambda>n. soloSet) c \<and> inPhase StateAcceptRequest soloRound soloVals c
    \<and> config c = DefaultConfig \<and> outbox c = [NotifyNewRound 0] \<and> backlogs c = [] \<and> pendingRequests c = NewPrque \<and> rcSet c \<noteq> None"
  using Start_runs [OF soloBackend_facts(1), of DefaultConfig exampleCrypto] soloVals_facts(4)
    node_run.start [OF solo_knows, of exampleCrypto DefaultConfig] by (auto simp: soloBackend_facts)

lemma solo_proposal_event:
  "\<exists>c c'. node_run exampleCrypto (\<lambda>n. soloSet) c \<and> inPhase StateAcceptRequest soloRound soloVals c \<and> boundedView c
     \<and> handleEvent exampleCrypto soloBackend (BacklogEvent None (MPreprepare exampleProposal)) c = Some c'
     \<and> inPhase StatePreprepared (SetPreprepare exampleProposal soloRound) soloVals c'
     \<and> SealCall \<lparr>vRound = 0, vSequence = 5\<rparr> (bHeader exampleBlock) SealTypePrepare \<in> set (outbox c')"
proof -
  obtain c where c: "node_run exampleCrypto (\<lambda>n. soloSet) c" "inPhase StateAcceptRequest soloRound soloVals c" "config c = DefaultConfig"
    using solo_start by blast
  have v: "viewOf soloRound exampleProposal" by (simp add: viewOf_def soloRound_facts example_facts)
  from preprepare_runs [OF c(2), of exampleProposal soloBackend exampleCrypto] obtain c1 where
    c1: "handlePreprepareMsg exampleCrypto soloBackend exampleProposal c = Some (None, c1)"
      "inPhase StatePreprepared (SetPreprepare exampleProposal soloRound) soloVals c1"
      "SealCall \<lparr>vRound = 0, vSequence = 5\<rparr> (bHeader exampleBlock) SealTypePrepare \<in> set (outbox c1)"
    using soloVals_facts(1,4) c(3) by (auto simp: soloRound_facts example_facts soloBackend_facts bigUint64_def)
  have "handleDecodedMessage exampleCrypto soloBackend (MPreprepare exampleProposal) c = Some (None, c1)"
    using handleDecoded_phase(1) [OF c(2) _ _ v] c1(1) by (simp add: example_facts)
  moreover have "boundedView c" using c(2) by (simp add: inPhase_def boundedView_def soloRound_facts)
  ultimately show ?thesis using handleEvent_message [OF _ c1(2)] c(1,2) c1(3) by blast
qed

lemma solo_prepared:
  "\<exists>c. node_run exampleCrypto (\<lambda>n. soloSet) c \<and> inPhase StatePreprepared (SetPreprepare exampleProposal soloRound) soloVals c
     \<and> SealCall \<lparr>vRound = 0, vSequence = 5\<rparr> (bHeader exampleBlock) SealTypePrepare \<in> set (outbox c)"
  using solo_proposal_event node_run.event [OF _ solo_knows] by blast

lemma solo_run:
  "\<exists>c ps cs. node_run exampleCrypto (\<lambda>n. soloSet) c
     \<and> SealCall \<lparr>vRound = 0, vSequence = 5\<rparr> (bHeader exampleBlock) SealTypePrepare \<in> set (outbox c)
     \<and> SealCall \<lparr>vRound = 0, vSequence = 5\<rparr> (bHeader exampleBlock) SealTypeCommit \<in> set (outbox c)
     \<and> CommitBlock exampleBlock ps cs 0 \<in> set (outbox c)"
proof -
  let ?run = "node_run exampleCrypto (\<lambda>n. soloSet)" and ?s = "SetPreprepare exampleProposal soloRound"
  let ?seal = "SealCall \<lparr>vRound = 0, vSequence = 5\<rparr> (bHeader exampleBlock)"
  let ?s1 = "(addPrepareTo (examplePrepare 1) ?s)\<lparr>preparedRound := Some (rsRound ?s), preparedBlock := Some exampleBlock\<rparr>"
  have s: "rsRound ?s = 0" "rsSequence ?s = 5" "rsProposal ?s = Some exampleBlock" "WBFTPrepares ?s = newWBFTMsgSet soloSet"
    "WBFTCommits ?s = newWBFTMsgSet soloSet"
    by (simp_all add: SetPreprepare_def rsProposal_def soloRound_facts example_facts)
  have s1: "rsRound ?s1 = 0" "rsSequence ?s1 = 5" "rsProposal ?s1 = Some exampleBlock" "onlyPrepares (WBFTPrepares ?s1)"
    "WBFTCommits ?s1 = newWBFTMsgSet soloSet"
    using s onlyPrepares_add [of "newWBFTMsgSet soloSet" "examplePrepare 1"]
    by (simp_all add: addPrepareTo_def rsProposal_def onlyPrepares_def)
  have bounded: "boundedView c" if "inPhase st r soloVals c" "rsRound r = 0" "rsSequence r = 5" for st r c
    using that by (simp add: inPhase_def boundedView_def)
  obtain c where c: "?run c" "inPhase StatePreprepared ?s soloVals c" "?seal SealTypePrepare \<in> set (outbox c)" using solo_prepared by blast
  have "QuorumSize soloVals \<le> MsgSet_Size (WBFTPrepares (addPrepareTo (examplePrepare 1) ?s))"
    using soloVals_facts(2) by (simp add: addPrepareTo_def s MsgSet_Add_def MsgSet_Size_def)
  from prepare_reaches_quorum [OF c(2) s(3) solo_votes(1) this, of soloBackend] obtain c1 where
    c1: "handlePrepareMsg exampleCrypto soloBackend (examplePrepare 1) c = Some (None, c1)" "inPhase StatePrepared ?s1 soloVals c1"
      "set (outbox c) \<union> {?seal SealTypeCommit} \<subseteq> set (outbox c1)" by (auto simp: s onlyPrepares_def) blast
  have "handleDecodedMessage exampleCrypto soloBackend (MPrepare (examplePrepare 1)) c = Some (None, c1)"
    using handleDecoded_phase(2) [OF c(2)] c1(1) by (simp add: example_facts viewOf_def s)
  from node_run_message [OF c(1) solo_knows this c1(2) bounded [OF c(2) s(1,2)]] obtain c2 where
    c2: "?run c2" "inPhase StatePrepared ?s1 soloVals c2" "set (outbox c1) \<subseteq> set (outbox c2)" by blast
  have "QuorumSize soloVals \<le> MsgSet_Size (WBFTCommits (addCommitTo (exampleCommit 1) ?s1))"
    using soloVals_facts(2) by (simp add: addCommitTo_def s1 MsgSet_Add_def MsgSet_Size_def)
  note q = this
  have "onlyCommits (WBFTCommits ?s1)" unfolding s1 by (simp add: onlyCommits_def)
  from commit_reaches_quorum [OF c2(2) s1(3) solo_votes(2) q s1(4) this soloBackend_facts(5)] obtain c3 ps cs where
    c3: "handleCommitMsg exampleCrypto soloBackend (exampleCommit 1) c2 = Some (None, c3)"
      "inPhase StateCommitted (addCommitTo (exampleCommit 1) ?s1) soloVals c3"
      "outbox c3 = outbox c2 @ [CommitBlock exampleBlock ps cs (rsRound ?s1)]" by (elim exE conjE) (rule that)
  have "handleDecodedMessage exampleCrypto soloBackend (MCommit (exampleCommit 1)) c2 = Some (None, c3)"
    using handleDecoded_phase(3) [OF c2(2)] c3(1) by (simp add: example_facts viewOf_def s1)
  from node_run_message [OF c2(1) solo_knows this c3(2) bounded [OF c2(2) s1(1,2)]] obtain c4 where
    c4: "?run c4" "set (outbox c3) \<subseteq> set (outbox c4)" by blast
  have up: "x \<in> set (outbox c4)" if "x \<in> set (outbox c1)" for x
    using subsetD [OF c2(3) that] subsetD [OF c4(2)] c3(3) by simp
  have "?seal SealTypePrepare \<in> set (outbox c4)" "?seal SealTypeCommit \<in> set (outbox c4)"
    using up c1(3) c(3) by (meson Un_upper1 insertI1 subsetD le_sup_iff)+
  moreover have "CommitBlock exampleBlock ps cs 0 \<in> set (outbox c4)" using subsetD [OF c4(2)] c3(3) s1(1) by simp
  ultimately show ?thesis using c4(1) by (intro exI conjI)
qed

section \<open>Properties of every run\<close>

lemma effect_votes: "x \<in> set (outbox c) \<Longrightarrow> set (voteOf cr x) \<subseteq> set (coreVotes cr c)"
  by (auto simp: coreVotes_def)

lemma voteOf_effect:
  "SealCall view h SealTypePrepare \<in> set (outbox c) \<Longrightarrow> VPrepare (vSequence view) (vRound view) (Header_Hash (keccak256 cr) h) \<in> set (coreVotes cr c)"
  "SealCall view h SealTypeCommit \<in> set (outbox c) \<Longrightarrow> VCommit (vSequence view) (vRound view) (Header_Hash (keccak256 cr) h) \<in> set (coreVotes cr c)"
  "CommitBlock b ps cs rd \<in> set (outbox c) \<Longrightarrow> VDecide (Block_Number b) rd (Block_Hash (keccak256 cr) b) \<in> set (coreVotes cr c)"
proof -
  note effect_votes [of "SealCall view h SealTypePrepare" c cr] effect_votes [of "SealCall view h SealTypeCommit" c cr]
    effect_votes [of "CommitBlock b ps cs rd" c cr]
  then
  show "SealCall view h SealTypePrepare \<in> set (outbox c) \<Longrightarrow> VPrepare (vSequence view) (vRound view) (Header_Hash (keccak256 cr) h) \<in> set (coreVotes cr c)"
    "SealCall view h SealTypeCommit \<in> set (outbox c) \<Longrightarrow> VCommit (vSequence view) (vRound view) (Header_Hash (keccak256 cr) h) \<in> set (coreVotes cr c)"
    "CommitBlock b ps cs rd \<in> set (outbox c) \<Longrightarrow> VDecide (Block_Number b) rd (Block_Hash (keccak256 cr) b) \<in> set (coreVotes cr c)"
    by simp_all
qed

lemma sealed_prepared:
  assumes "node_run cr Vs c" "SealCall view h t \<in> set (outbox c)"
  shows "VPrepare (vSequence view) (vRound view) (Header_Hash (keccak256 cr) h) \<in> set (coreVotes cr c)"
  using assms voteOf_effect(1,2) [of view h c cr] node_run_votes(2) [OF assms(1)]
  by (cases t) (auto simp: commitPrepared_def)

text \<open>C2. A validator never equivocates: whatever events it handles, all the seals it ever signs in one view, for
  PREPARE or COMMIT, are seals of blocks with the same hash.\<close>

theorem no_equivocation:
  assumes "node_run cr Vs c" "SealCall view h t \<in> set (outbox c)" "SealCall view h' t' \<in> set (outbox c)"
  shows "Header_Hash (keccak256 cr) h = Header_Hash (keccak256 cr) h'"
  using sealed_prepared [OF assms(1,2)] sealed_prepared [OF assms(1,3)] node_run_votes(1) [OF assms(1)]
  by (simp add: onePrepare_def)

theorem no_equivocation_witness:
  "\<exists>c. node_run exampleCrypto (\<lambda>n. soloSet) c
     \<and> (\<forall>h t. SealCall \<lparr>vRound = 0, vSequence = 5\<rparr> h t \<in> set (outbox c) \<longrightarrow>
          Header_Hash (keccak256 exampleCrypto) h = Header_Hash (keccak256 exampleCrypto) (bHeader exampleBlock))"
proof -
  obtain c where c: "node_run exampleCrypto (\<lambda>n. soloSet) c"
    "SealCall \<lparr>vRound = 0, vSequence = 5\<rparr> (bHeader exampleBlock) SealTypePrepare \<in> set (outbox c)" using solo_run by blast
  then show ?thesis using no_equivocation [OF c(1) _ c(2)] by blast
qed

text \<open>C4. A validator seals a COMMIT only for a block that a quorum has prepared: there are that many validators of
  the sequence with a PREPARE seal that their BLS keys verify, for a block of the same hash in the same round.\<close>

theorem commit_needs_prepare_quorum:
  assumes "node_run cr Vs c" "SealCall view h SealTypeCommit \<in> set (outbox c)"
  shows "\<exists>h' Q. Header_Hash (keccak256 cr) h' = Header_Hash (keccak256 cr) h
    \<and> Q \<subseteq> set (AddressList (Vs (vSequence view))) \<and> QuorumSize (Vs (vSequence view)) \<le> int (card Q)
    \<and> (\<forall>a \<in> Q. \<exists>v \<in> set (validators (Vs (vSequence view))). \<exists>seal. valAddress v = a
         \<and> blsVerify cr seal (valBLSPublicKey v) (PrepareSeal (keccak256 cr) h' (sealRound (vRound view)) SealTypePrepare))"
proof -
  have "sealQuorum (anyWorld cr Vs) SealTypePrepare (vSequence view) (vRound view) (Header_Hash (keccak256 cr) h)"
    using node_run_votes(3) [OF assms(1) voteOf_effect(2) [OF assms(2)]] by simp
  then obtain b Q where b: "Block_Hash (keccak256 cr) b = Header_Hash (keccak256 cr) h"
    and Q: "Q \<subseteq> set (AddressList (Vs (vSequence view)))" "QuorumSize (Vs (vSequence view)) \<le> int (card Q)"
      "\<forall>a \<in> Q. \<exists>seal. sealValid (anyWorld cr Vs) (vSequence view) (bHeader b) (vRound view) SealTypePrepare seal a"
    by (auto simp: sealQuorum_def)
  have "\<exists>v \<in> set (validators (Vs (vSequence view))). \<exists>seal. valAddress v = a
      \<and> blsVerify cr seal (valBLSPublicKey v) (PrepareSeal (keccak256 cr) (bHeader b) (sealRound (vRound view)) SealTypePrepare)"
    if "a \<in> Q" for a using Q(3) that unfolding sealValid_def anyWorld_simps by blast
  then show ?thesis using b Q(1,2) by (intro exI [of _ "bHeader b"] exI [of _ Q]) (simp add: Block_Hash_def)
qed

theorem commit_needs_prepare_quorum_witness:
  "\<exists>c h. node_run exampleCrypto (\<lambda>n. soloSet) c \<and> SealCall \<lparr>vRound = 0, vSequence = 5\<rparr> h SealTypeCommit \<in> set (outbox c)
     \<and> (\<exists>h' Q. Header_Hash (keccak256 exampleCrypto) h' = Header_Hash (keccak256 exampleCrypto) h
          \<and> Q \<subseteq> set (AddressList soloSet) \<and> QuorumSize soloSet \<le> int (card Q))"
proof -
  obtain c where c: "node_run exampleCrypto (\<lambda>n. soloSet) c"
    "SealCall \<lparr>vRound = 0, vSequence = 5\<rparr> (bHeader exampleBlock) SealTypeCommit \<in> set (outbox c)" using solo_run by blast
  then show ?thesis using commit_needs_prepare_quorum [OF c] by blast
qed

text \<open>The seals of a proof, as the index of a validator and its seal.\<close>

lemma sealDataOf_member:
  assumes "valSet_wf vs" "length (validators vs) < 2 ^ 32" "v \<in> set (validators vs)"
  obtains i where "i < length (validators vs)" "validators vs ! i = v" "unat (Sealer (sealDataOf vs (valAddress v) seal)) = i"
    "sdSeal (sealDataOf vs (valAddress v) seal) = sealBytes seal"
proof -
  obtain i where i: "i < length (validators vs)" "validators vs ! i = v" using assms(3) by (auto simp: in_set_conv_nth)
  then have "GetByAddress vs (valAddress v) = (int i, Some v)" using GetByAddress_nth [OF assms(1)] by (auto simp: Size_def)
  moreover have "unat (word_of_int (int i) :: uint32) = i" using i(1) assms(2) by (simp add: unat_of_nat take_bit_nat_eq_self)
  ultimately show thesis using that i by (simp add: sealDataOf_def Let_def)
qed

lemma sealsProve_explicit:
  assumes "sealsProve W sq h rd t sds" "valSet_wf (wVals W sq)" "length (validators (wVals W sq)) < 2 ^ 32"
  shows "QuorumSize (wVals W sq) \<le> int (length sds)" "distinct (map Sealer sds)"
    "sd \<in> set sds \<Longrightarrow> \<exists>seal. unat (Sealer sd) < length (validators (wVals W sq)) \<and> sdSeal sd = sealBytes seal
       \<and> blsVerify (wCrypto W) seal (valBLSPublicKey (validators (wVals W sq) ! unat (Sealer sd)))
           (PrepareSeal (keccak256 (wCrypto W)) h (sealRound rd) t)"
proof -
  let ?vs = "wVals W sq"
  obtain ms where ms: "distinct (map fst ms)" "QuorumSize ?vs \<le> int (length ms)"
    "sds = map (\<lambda>m. sealDataOf ?vs (fst m) (snd m)) ms" "\<forall>m \<in> set ms. sealValid W sq h rd t (snd m) (fst m)"
    using assms(1) unfolding sealsProve_def by blast
  then show "QuorumSize ?vs \<le> int (length sds)" by simp
  have val: "\<exists>v \<in> set (validators ?vs). valAddress v = fst m \<and> blsVerify (wCrypto W) (snd m) (valBLSPublicKey v)
      (PrepareSeal (keccak256 (wCrypto W)) h (sealRound rd) t)" if "m \<in> set ms" for m
    using ms(4) that unfolding sealValid_def by blast
  have idx: "\<exists>i < length (validators ?vs). valAddress (validators ?vs ! i) = fst m \<and> unat (Sealer (sealDataOf ?vs (fst m) (snd m))) = i"
    if "m \<in> set ms" for m using val [OF that] sealDataOf_member [OF assms(2,3)] by metis
  have "inj_on (\<lambda>m. Sealer (sealDataOf ?vs (fst m) (snd m))) (set ms)"
  proof (rule inj_onI)
    fix m m' assume "m \<in> set ms" "m' \<in> set ms" "Sealer (sealDataOf ?vs (fst m) (snd m)) = Sealer (sealDataOf ?vs (fst m') (snd m'))"
    then have "fst m = fst m'" using idx by metis
    then show "m = m'" using ms(1) \<open>m \<in> set ms\<close> \<open>m' \<in> set ms\<close> by (simp add: distinct_map inj_on_def)
  qed
  then show "distinct (map Sealer sds)" using ms(1,3) by (simp add: comp_def distinct_map)
  show "\<exists>seal. unat (Sealer sd) < length (validators ?vs) \<and> sdSeal sd = sealBytes seal
       \<and> blsVerify (wCrypto W) seal (valBLSPublicKey (validators ?vs ! unat (Sealer sd)))
           (PrepareSeal (keccak256 (wCrypto W)) h (sealRound rd) t)" if sd: "sd \<in> set sds"
  proof -
    obtain m where m: "m \<in> set ms" "sd = sealDataOf ?vs (fst m) (snd m)" using sd unfolding ms(3) set_map by blast
    obtain v where v: "v \<in> set (validators ?vs)" "valAddress v = fst m" "blsVerify (wCrypto W) (snd m) (valBLSPublicKey v)
        (PrepareSeal (keccak256 (wCrypto W)) h (sealRound rd) t)" using val [OF m(1)] by blast
    show ?thesis by (rule sealDataOf_member [OF assms(2,3) v(1), of "snd m"]) (use m v in auto)
  qed
qed

text \<open>C3. A block is handed to the backend for insertion only with the seals of two quorums: the prepared and the
  committed seals are each from at least a quorum of distinct validators of the block's sequence, named by
  their index, and each is the BLS signature of that validator over the block's header, the round and the
  phase; and the node has itself sealed a COMMIT for the block in that round.\<close>

theorem committed_block_is_sealed:
  assumes "node_run cr Vs c" "CommitBlock b ps cs rd \<in> set (outbox c)"
    and "valSet_wf (Vs (Block_Number b))" "length (validators (Vs (Block_Number b))) < 2 ^ 32"
    and "(t, sds) \<in> {(SealTypePrepare, ps), (SealTypeCommit, cs)}"
  shows "QuorumSize (Vs (Block_Number b)) \<le> int (length sds) \<and> distinct (map Sealer sds)
    \<and> (\<forall>sd \<in> set sds. \<exists>seal. unat (Sealer sd) < length (validators (Vs (Block_Number b))) \<and> sdSeal sd = sealBytes seal
         \<and> blsVerify cr seal (valBLSPublicKey (validators (Vs (Block_Number b)) ! unat (Sealer sd)))
             (PrepareSeal (keccak256 cr) (bHeader b) (sealRound rd) t))
    \<and> VCommit (Block_Number b) rd (Block_Hash (keccak256 cr) b) \<in> set (coreVotes cr c)"
proof -
  have "effectOk (anyWorld cr Vs) (set (coreVotes cr c)) (CommitBlock b ps cs rd)"
    using node_run_votes(4) [OF assms(1)] assms(2) by (auto simp: effectsOk_def)
  then have "sealsProve (anyWorld cr Vs) (Block_Number b) (bHeader b) rd t sds" using assms(5) by auto
  note ex = sealsProve_explicit [OF this, unfolded anyWorld_simps, OF assms(3,4)]
  have "VCommit (Block_Number b) rd (Block_Hash (keccak256 cr) b) \<in> set (coreVotes cr c)"
    using node_run_votes(2) [OF assms(1)] voteOf_effect(3) [OF assms(2), of cr] by (simp add: commitPrepared_def)
  then show ?thesis using ex by blast
qed

theorem committed_block_is_sealed_witness:
  "\<exists>c ps cs. node_run exampleCrypto (\<lambda>n. soloSet) c \<and> CommitBlock exampleBlock ps cs 0 \<in> set (outbox c)
     \<and> QuorumSize soloSet \<le> int (length cs) \<and> distinct (map Sealer cs)"
proof -
  obtain c ps cs where c: "node_run exampleCrypto (\<lambda>n. soloSet) c" "CommitBlock exampleBlock ps cs 0 \<in> set (outbox c)"
    using solo_run by blast
  have "valSet_wf soloSet" "length (validators soloSet) = 1" by code_simp+
  then have "valSet_wf soloSet" "length (validators soloSet) < 2 ^ 32" by simp_all
  then show ?thesis using committed_block_is_sealed [OF c, of SealTypeCommit cs] c by blast
qed

text \<open>C7. The view of a running node never decreases: handling any event leaves it in the same view, in a later
  round of the same sequence, or in a later sequence.\<close>

theorem view_never_decreases:
  assumes "node_run cr Vs c" "knowsValidators Vs bk" "boundedView c" "handleEvent cr bk ev c = Some c'" "current c = Some s"
  shows "\<exists>s'. current c' = Some s'
    \<and> (rsSequence s < rsSequence s' \<or> rsSequence s = rsSequence s' \<and> rsRound s \<le> rsRound s')"
proof -
  obtain s0 where s0: "run_ok (anyWorld cr Vs) False c s0" using node_run_ok [OF assms(1)] by blast
  then have [simp]: "s0 = s" using assms(5) by (simp add: run_ok_def core_ok_def)
  obtain s' where s': "run_ok (anyWorld cr Vs) False c' s'" "worldSteps (anyWorld cr Vs) False (voterOf cr c s) (voterOf cr c' s')"
    using run_ok_refines [OF refines_event_any [OF assms(2-4)] s0] by auto
  then have "current c' = Some s'" by (simp add: run_ok_def core_ok_def)
  moreover have "rsSequence s < rsSequence s' \<or> rsSequence s = rsSequence s' \<and> rsRound s \<le> rsRound s'"
    using vsteps_view [OF s'(2)] by (simp add: viewLe_def voterOf_def)
  ultimately show ?thesis by blast
qed

theorem view_never_decreases_witness:
  "\<exists>c s c' s'. node_run exampleCrypto (\<lambda>n. soloSet) c \<and> current c = Some s
     \<and> handleEvent exampleCrypto soloBackend (BacklogEvent None (MPreprepare exampleProposal)) c = Some c' \<and> current c' = Some s'
     \<and> (rsSequence s < rsSequence s' \<or> rsSequence s = rsSequence s' \<and> rsRound s \<le> rsRound s')"
proof -
  obtain c c' where c: "node_run exampleCrypto (\<lambda>n. soloSet) c" "inPhase StateAcceptRequest soloRound soloVals c" "boundedView c"
    "handleEvent exampleCrypto soloBackend (BacklogEvent None (MPreprepare exampleProposal)) c = Some c'"
    using solo_proposal_event by blast
  then have "current c = Some soloRound" by (simp add: inPhase_def)
  then show ?thesis using view_never_decreases [OF c(1) solo_knows c(3,4)] c(1,4) by blast
qed



text \<open>C8. The state of a running node is well formed: it has a round, a round change set and the validators of its
  sequence, so none of these is nil when an event is handled; once it has left the first phase it has a
  proposal of its sequence; what it has collected are PREPAREs and COMMITs of different validators, one each;
  it has a prepared block exactly if it has a prepared round.\<close>

theorem running_state_well_formed:
  assumes "node_run cr Vs c"
  shows "\<exists>s vs rcs. current c = Some s \<and> valSet c = Some vs \<and> rcSet c = Some rcs
    \<and> validators vs = validators (Vs (rsSequence s)) \<and> 0 \<le> rsRound s
    \<and> (coreState c \<noteq> StateAcceptRequest \<longrightarrow> (\<exists>b. rsProposal s = Some b \<and> Block_Number b = rsSequence s))
    \<and> onlyPrepares (WBFTPrepares s) \<and> msgSet_wf (WBFTPrepares s) \<and> onlyCommits (WBFTCommits s) \<and> msgSet_wf (WBFTCommits s)
    \<and> (preparedRound s = None \<longleftrightarrow> preparedBlock s = None)"
proof -
  obtain s where s: "core_ok (anyWorld cr Vs) c s" using node_run_ok [OF assms] by (auto simp: run_ok_def)
  have "onlyPrepares (WBFTPrepares s) \<and> msgSet_wf (WBFTPrepares s) \<and> onlyCommits (WBFTCommits s) \<and> msgSet_wf (WBFTCommits s)
    \<and> (coreState c \<noteq> StateAcceptRequest \<longrightarrow> (\<exists>b. rsProposal s = Some b \<and> Block_Number b = rsSequence s))"
    using s by (auto simp: core_ok_def proposalOk_def votesCollected_def onlyPrepares_def onlyCommits_def split: if_splits)
  then show ?thesis using s by (auto simp: core_ok_def sameValidators_def)
qed

theorem running_state_well_formed_witness:
  "\<exists>c s vs rcs. node_run exampleCrypto (\<lambda>n. soloSet) c \<and> current c = Some s \<and> valSet c = Some vs \<and> rcSet c = Some rcs
     \<and> validators vs = validators soloSet"
proof -
  obtain c where "node_run exampleCrypto (\<lambda>n. soloSet) c" using solo_run by blast
  then show ?thesis using running_state_well_formed [of exampleCrypto "\<lambda>n. soloSet" c] by blast
qed

section \<open>A timeout that comes late\<close>

text \<open>C31. A round timeout that is handled after the chain head has reached the node's sequence: the node starts
  round 0 of the next sequence, and signs a ROUND-CHANGE of the new sequence for the round after the one it
  was in before, reporting no prepared block. It can still prepare and commit in the rounds below, so such a
  message does not report the lock that agreement between rounds rests on.\<close>

theorem late_timeout_signs_round_change:
  assumes run: "node_run cr Vs c" "current c = Some s"
    and head: "LastProposal bk = (Some lp, a)" "rsSequence s \<le> Block_Number lp" "0 \<le> Block_Number lp"
    and h: "handleTimeoutMsg cr bk c = Some c'"
  shows "\<exists>s'. current c' = Some s' \<and> coreState c' = StateAcceptRequest \<and> rsSequence s' = Block_Number lp + 1 \<and> rsRound s' = 0
    \<and> VRoundChange (Block_Number lp + 1) (rsRound s + 1) None \<in> set (coreVotes cr c')"
proof -
  let ?s = "newRoundState \<lparr>vRound = 0, vSequence = Block_Number lp + 1\<rparr> (backendValidators bk lp) None None None None"
  let ?rc = "NewRoundChange (keccak256 cr) (Block_Number lp + 1) (rsRound s + 1) None None"
  have r: "0 \<le> rsRound s" using node_run_ok [OF run(1)] run(2) by (auto simp: run_ok_def core_ok_def)
  obtain c1 where c1: "startNewRound cr bk (rsRound s + 1) c = Some c1" "broadcastRoundChange cr bk (rsRound s + 1) c1 = Some c'"
    using h run(2) by (auto simp: handleTimeoutMsg_def bind_eq_Some_conv Let_def)
  from c1(1) run(2) have "current c1 = Some ?s \<and> coreState c1 = StateAcceptRequest"
  proof (cases rule: startNewRound_cases)
    case 1
    then show ?thesis using head run(2) by (simp add: roundKind_def bigCmp_def split: if_splits)
  next
    case (2 lp' vs)
    then show ?thesis using head(1) by (simp add: roundEntered_def)
  next
    case (3 vs0 vs)
    then show ?thesis using head by simp
  qed
  then have c1': "current c1 = Some ?s" "coreState c1 = StateAcceptRequest" by simp_all
  have s: "rsSequence ?s = Block_Number lp + 1" "rsRound ?s = 0" "preparedRound ?s = None" "preparedBlock ?s = None"
    by (simp_all add: newRoundState_def)
  obtain c2 where c2: "newRetrySendingRoundChangeTimer c1 = Some c2" "quiet c1 c2"
    using c1(2) quiet_newRetry by (auto simp: broadcastRoundChange_def bind_eq_Some_conv)
  then have cur2: "current c2 = Some ?s" "coreState c2 = StateAcceptRequest" using c1' by (simp_all add: quiet_def)
  obtain sent where sb: "signAndBroadcast bk (MRoundChange ?rc) (extendRoundChange (WBFTPreparedPrepares c2)) c2 = Some (sent, c')"
    using c1(2) c2(1) cur2(1) r by (auto simp: broadcastRoundChange_def bind_eq_Some_conv s bigCmp_def)
  have "EncodePayloadForSigning (MRoundChange ?rc) \<noteq> None"
    using r head(3) by (simp add: EncodePayloadForSigning_def signPayload_def encodePayloadInternal_def bigItem_def preparedOf_def
      NewRoundChange_def payload_defs)
  then have "SignCall (MRoundChange ?rc) \<in> set (outbox c')" by (rule signAndBroadcast_signed [OF sb])
  from effect_votes [OF this, of cr] have "VRoundChange (Block_Number lp + 1) (rsRound s + 1) None \<in> set (coreVotes cr c')"
    by (simp add: NewRoundChange_def payload_defs)
  moreover have "current c' = Some ?s" "coreState c' = StateAcceptRequest"
    using signAndBroadcast_frame [OF sb] cur2 by auto
  ultimately show ?thesis using s(1,2) by blast
qed

text \<open>The only validator times out in round 0 of sequence 5 when block 5 is already the head.\<close>

definition aheadBackend :: Backend where
  "aheadBackend = soloBackend\<lparr>LastProposal := (Some exampleBlock, 0)\<rparr>"

lemma solo_late_timeout:
  "\<exists>c c'. node_run exampleCrypto (\<lambda>n. soloSet) c \<and> current c = Some soloRound \<and> handleTimeoutMsg exampleCrypto aheadBackend c = Some c'"
proof -
  obtain c where c: "node_run exampleCrypto (\<lambda>n. soloSet) c" "inPhase StateAcceptRequest soloRound soloVals c" "config c = DefaultConfig"
    "backlogs c = []" "pendingRequests c = NewPrque" "rcSet c \<noteq> None" using solo_start by blast
  have "GetConfig DefaultConfig (Some 6) \<noteq> None" by code_simp
  then obtain cfg where cfg: "GetConfig DefaultConfig (Some 6) = Some cfg" by blast
  obtain rcs where "rcSet c = Some rcs" using c(6) by blast
  then obtain x s1 where x: "startNewRound exampleCrypto aheadBackend 1 c = newRoundChangeTimer (Some 6) (Some 0) x"
    "current x = Some s1" "rsSequence s1 = 6" "valSet x \<noteq> None" "config x = DefaultConfig" "backlog_inv x"
    using c(2-5) by (simp add: startNewRound_eval aheadBackend_def soloBackend_facts example_facts inPhase_def bigUint64_def
        updatePriorState_def Values_def newWBFTMsgSet_def bigCmp_def rsProposal_def
        cong: if_cong)
  obtain c1 where c1: "startNewRound exampleCrypto aheadBackend 1 c = Some c1" "current c1 = Some s1" "rsSequence s1 = 6"
    "valSet c1 \<noteq> None" "config c1 = DefaultConfig"
    using newRoundChangeTimer_runs [of x 6 0] x cfg by (auto simp: quiet_def)
  obtain c' where "broadcastRoundChange exampleCrypto aheadBackend 1 c1 = Some c'"
    using broadcastRoundChange_runs [OF c1(2), of exampleCrypto aheadBackend 1] c1(3-5) cfg by auto
  then have "handleTimeoutMsg exampleCrypto aheadBackend c = Some c'"
    using c(2) c1(1) by (simp add: handleTimeoutMsg_def inPhase_def soloRound_facts)
  then show ?thesis using c(1,2) by (auto simp: inPhase_def)
qed

theorem late_timeout_signs_round_change_witness:
  "\<exists>c c' s'. node_run exampleCrypto (\<lambda>n. soloSet) c \<and> handleTimeoutMsg exampleCrypto aheadBackend c = Some c'
     \<and> current c' = Some s' \<and> rsSequence s' = 6 \<and> rsRound s' = 0 \<and> VRoundChange 6 1 None \<in> set (coreVotes exampleCrypto c')"
proof -
  obtain c c' where c: "node_run exampleCrypto (\<lambda>n. soloSet) c" "current c = Some soloRound"
    "handleTimeoutMsg exampleCrypto aheadBackend c = Some c'" using solo_late_timeout by blast
  have "LastProposal aheadBackend = (Some exampleBlock, 0)" by (simp add: aheadBackend_def)
  from late_timeout_signs_round_change [OF c(1,2) this _ _ c(3)] show ?thesis
    using c by (auto simp: example_facts soloRound_facts)
qed

end
