(* ===== verification/Storage.thy ===== *)
theory Storage
  imports Node_Run
begin

text \<open>
  What a node keeps of the messages it has received: in its backlog, in the events it has posted to itself and
  with the timer of a future proposal. \<open>storeOk K ok V\<close> says that each of them satisfies \<open>ok\<close>, that the
  validators of the current and of the previous sequence are those of \<open>V\<close>, and that the calls of \<open>K\<close> are
  recorded. Every event preserves it, so a message that is taken from the store later was checked when it
  arrived, and no recorded call is forgotten.
\<close>

definition storeOk :: "Effect set \<Rightarrow> (WBFTMessage \<Rightarrow> bool) \<Rightarrow> defaultSet \<Rightarrow> Core \<Rightarrow> bool" where
  "storeOk K ok V c \<longleftrightarrow> backlog_inv c
     \<and> (\<forall>a q m. mapGet (backlogs c) a = Some q \<longrightarrow> m \<in> fst ` set_mset (contents q) \<longrightarrow> ok m)
     \<and> (\<forall>src m. BacklogEvent src m \<in> set (posted c) \<longrightarrow> ok m)
     \<and> (\<forall>m d. futurePreprepareTimer c = Some (m, d) \<longrightarrow> ok (MPreprepare m))
     \<and> (\<forall>vs. valSet c = Some vs \<or> priorValidators (priorSt c) = Some vs \<longrightarrow> sameValidators V vs)
     \<and> K \<subseteq> set (outbox c)"

lemma storeOk_mono: "storeOk K ok V c \<Longrightarrow> (\<And>m. ok m \<Longrightarrow> ok' m) \<Longrightarrow> storeOk K ok' V c"
  unfolding storeOk_def by blast

section \<open>Steps that store nothing\<close>

definition lessStored :: "Core \<Rightarrow> Core \<Rightarrow> bool" where
  "lessStored c c' \<longleftrightarrow> backlogs c' = backlogs c \<and> backlogKeys c' = backlogKeys c \<and> coreAddress c' = coreAddress c
     \<and> (\<forall>src m. BacklogEvent src m \<in> set (posted c') \<longrightarrow> BacklogEvent src m \<in> set (posted c))
     \<and> (futurePreprepareTimer c' = None \<or> futurePreprepareTimer c' = futurePreprepareTimer c)
     \<and> valSet c' = valSet c \<and> priorSt c' = priorSt c \<and> set (outbox c) \<subseteq> set (outbox c')"

lemma lessStored_refl [simp]: "lessStored c c"
  by (simp add: lessStored_def)

lemma lessStored_trans: "lessStored c c1 \<Longrightarrow> lessStored c1 c2 \<Longrightarrow> lessStored c c2"
  by (auto simp: lessStored_def)

lemma lessStored_simps [simp]:
  "lessStored c (c\<lparr>current := s\<rparr>)" "lessStored c (c\<lparr>rcSet := r\<rparr>)" "lessStored c (c\<lparr>outbox := outbox c @ xs\<rparr>)"
  "lessStored c (c\<lparr>coreState := st\<rparr>)" "lessStored c (c\<lparr>WBFTPreparedPrepares := ps\<rparr>)" "lessStored c (emit x c)"
  "lessStored c (c\<lparr>pendingRequests := q\<rparr>)" "lessStored c (ClearExtraSeals n c)"
  "lessStored c (c\<lparr>pendingRequests := q, posted := posted c @ [RequestEvent p]\<rparr>)"
  by (auto simp: lessStored_def emit_def ClearExtraSeals_def)

lemma storeOk_less:
  assumes "lessStored c c'" "storeOk K ok V c"
  shows "storeOk K ok V c'"
proof -
  have "ok m" if "BacklogEvent src m \<in> set (posted c')" for src m
    using assms that unfolding lessStored_def storeOk_def by blast
  moreover have "ok (MPreprepare m)" if "futurePreprepareTimer c' = Some (m, d)" for m d
    using assms that unfolding lessStored_def storeOk_def by (metis option.distinct(1))
  moreover have "K \<subseteq> set (outbox c')" using assms unfolding lessStored_def storeOk_def by blast
  ultimately show ?thesis using assms by (simp add: lessStored_def storeOk_def backlog_inv_def)
qed

lemma less_stopTimer: "lessStored c (stopTimer c)"
  by (simp add: lessStored_def timer_defs split: option.splits)

lemma less_newRoundChangeTimer: "newRoundChangeTimer sq rd c = Some c' \<Longrightarrow> lessStored c c'"
  using less_stopTimer [of c]
  by (auto simp: newRoundChangeTimer_def Let_def bind_eq_Some_conv lessStored_def split: option.splits)

lemma less_newRetry: "newRetrySendingRoundChangeTimer c = Some c' \<Longrightarrow> lessStored c c'"
  by (auto simp: newRetrySendingRoundChangeTimer_def timer_defs bind_eq_Some_conv lessStored_def split: option.splits)

lemma less_drainRequests: "drainRequests fuel c = Some c' \<Longrightarrow> lessStored c c'"
proof (induction fuel arbitrary: c)
  case (Suc fuel)
  have upd: "lessStored c (c\<lparr>pendingRequests := q\<rparr>)" "lessStored c (sendEvent (RequestEvent p) (c\<lparr>pendingRequests := q\<rparr>))" for q p
    by (auto simp: lessStored_def sendEvent_def)
  show ?case using Suc.prems
    by (auto simp: bind_eq_Some_conv Let_def split: if_splits intro: upd lessStored_trans [OF upd(1)] lessStored_trans [OF upd(2)]
      dest!: Suc.IH)
qed simp

lemma less_processPendingRequests: "processPendingRequests c = Some c' \<Longrightarrow> lessStored c c'"
  unfolding processPendingRequests_def by (rule less_drainRequests)

lemma less_addPrepareSeals: "addPrepareSeals ms c = Some c' \<Longrightarrow> lessStored c c'"
proof (induction ms c rule: addPrepareSeals.induct)
  case (2 m ms c)
  then obtain p where "asPrepare m = Some p" "addPrepareSeals ms (addToPrepareExtraSeal p c) = Some c'"
    by (auto simp: bind_eq_Some_conv)
  moreover have "lessStored c (addToPrepareExtraSeal p c)" by (simp add: addToPrepareExtraSeal_def lessStored_def)
  ultimately show ?case using 2(1) lessStored_trans by blast
qed simp

lemma less_addCommitSeals: "addCommitSeals ms c = Some c' \<Longrightarrow> lessStored c c'"
proof (induction ms c rule: addCommitSeals.induct)
  case (2 m ms c)
  then obtain p where "asCommit m = Some p" "addCommitSeals ms (addToCommitExtraSeal p c) = Some c'"
    by (auto simp: bind_eq_Some_conv)
  moreover have "lessStored c (addToCommitExtraSeal p c)" by (simp add: addToCommitExtraSeal_def lessStored_def)
  ultimately show ?case using 2(1) lessStored_trans by blast
qed simp

lemma less_addEffectiveSeal: "addEffectiveSealToExtraSeal c = Some c' \<Longrightarrow> lessStored c c'"
  using less_addPrepareSeals less_addCommitSeals
  by (fastforce simp: addEffectiveSealToExtraSeal_def bind_eq_Some_conv split: option.splits intro: lessStored_trans)

lemma less_addToExtraSeal: "addToExtraSeal cr m c = Some (err, c') \<Longrightarrow> lessStored c c'"
  by (cases m) (auto simp: addToExtraSeal_def bind_eq_Some_conv addToPrepareExtraSeal_def addToCommitExtraSeal_def
    lessStored_def split: option.splits if_splits)

lemma less_signAndBroadcast: "signAndBroadcast backend m ext c = Some (sent, c') \<Longrightarrow> lessStored c c'"
  using signAndBroadcast_frame by fastforce

lemma less_broadcasts:
  "broadcastPrepare cr backend c = Some c' \<Longrightarrow> lessStored c c'" "broadcastCommit cr backend c = Some c' \<Longrightarrow> lessStored c c'"
  "broadcastRoundChange cr backend rd c = Some c' \<Longrightarrow> lessStored c c'"
  by (auto simp: broadcastPrepare_def broadcastCommit_def broadcastRoundChange_def bind_eq_Some_conv Let_def
    intro: lessStored_trans lessStored_trans [OF lessStored_simps(6)] dest!: less_signAndBroadcast less_newRetry split: if_splits)

lemma less_sendPreprepareMsg: "sendPreprepareMsg backend r c = Some c' \<Longrightarrow> lessStored c c'"
  by (auto simp: sendPreprepareMsg_def bind_eq_Some_conv Let_def intro: lessStored_trans dest!: less_signAndBroadcast split: if_splits)

lemma less_handleRequest: "handleRequest backend r c = Some (err, c') \<Longrightarrow> lessStored c c'"
  by (auto simp: handleRequest_def bind_eq_Some_conv Let_def intro: lessStored_trans [OF lessStored_simps(1)]
    dest!: less_sendPreprepareMsg split: if_splits option.splits)

lemma less_storeRequestMsg: "storeRequestMsg r c = Some c' \<Longrightarrow> lessStored c c'"
  by (auto simp: storeRequestMsg_def bind_eq_Some_conv)

lemma less_addRoundChange: "addRoundChange cr m c = Some (err, c') \<Longrightarrow> lessStored c c'"
  by (auto simp: addRoundChange_def bind_eq_Some_conv split: if_splits sum.splits)

lemma less_proposeJustified:
  assumes "proposeJustified cr backend c = Some (err, c')"
  shows "lessStored c c'"
proof (cases "c' = c")
  case False
  then obtain r where "sendPreprepareMsg backend r c = Some c'"
    using assms by (auto simp: proposeJustified_def bind_eq_Some_conv Let_def split: option.splits if_splits)
  then show ?thesis by (rule less_sendPreprepareMsg)
qed simp

section \<open>The backlog\<close>

lemma processBacklogs_sub:
  assumes "processBacklogs L c = Some c'" "backlog_inv c" "current c \<noteq> None" "valSet c = Some vs" "goMap L"
    and "\<forall>(a, q) \<in> set L. mapGet (backlogs c) a = Some q" "mapGet (backlogs c') a = Some q'"
  shows "\<exists>q. mapGet (backlogs c) a = Some q \<and> contents q' \<subseteq># contents q"
  using assms
proof (induction L arbitrary: c)
  case (Cons x L)
  obtain b q where x: "x = (b, q)" by (cases x)
  have q: "mapGet (backlogs c) b = Some q" using Cons.prems(6) x by simp
  obtain c1 where c1: "processSource b q c = Some c1" "processed c vs {b} c1"
    "\<forall>a' q'. mapGet (backlogs c1) a' = Some q' \<longrightarrow> (\<exists>q. mapGet (backlogs c) a' = Some q \<and> contents q' \<subseteq># contents q)"
    using processSource_ok [OF Cons.prems(2-4) q] by blast
  have same: "backlog_inv c1" "current c1 = current c" "valSet c1 = valSet c"
    "\<And>a'. a' \<noteq> b \<Longrightarrow> mapGet (backlogs c1) a' = mapGet (backlogs c) a'"
    using c1(2) unfolding processed_def by auto
  have "\<forall>(a', q') \<in> set L. mapGet (backlogs c1) a' = Some q'" using Cons.prems(5,6) same(4) x by force
  then have "\<exists>q. mapGet (backlogs c1) a = Some q \<and> contents q' \<subseteq># contents q"
    using Cons.IH [of c1] Cons.prems same c1(1) x by simp
  then show ?case using c1(3) by (meson subset_mset.order_trans)
qed auto

lemma storeOk_processBacklog:
  assumes run: "processBacklog c = Some c'" and ok: "storeOk K ok V c" "current c \<noteq> None" "valSet c \<noteq> None"
  shows "storeOk K ok V c'"
proof -
  obtain vs where vs: "valSet c = Some vs" using ok(3) by blast
  have inv: "backlog_inv c" using ok(1) by (simp add: storeOk_def)
  obtain b k es where c': "c' = c\<lparr>backlogs := b, backlogKeys := k, posted := posted c @ es\<rparr>" "backlog_inv c'"
    "\<forall>e \<in> set es. postedFrom c vs e" using processBacklog_ok [OF inv ok(2) vs] run by (auto simp: processed_def)
  have g: "goMap (backlogs c)" using inv by (simp add: backlog_inv_def)
  have kept: "ok m" if mem: "mapGet (backlogs c') a = Some q'" "m \<in> fst ` set_mset (contents q')" for a q' m
  proof -
    obtain q where q: "mapGet (backlogs c) a = Some q" "contents q' \<subseteq># contents q"
      using processBacklogs_sub [OF run [unfolded processBacklog_def] inv ok(2) vs g _ mem(1)] mapGet_in [OF g] by auto
    then have "m \<in> fst ` set_mset (contents q)" using mem(2) set_mset_mono [OF q(2)] by auto
    then show ?thesis using ok(1) q(1) by (simp add: storeOk_def)
  qed
  have "ok m" if ev: "BacklogEvent src m \<in> set (posted c')" for src m
  proof (cases "BacklogEvent src m \<in> set (posted c)")
    case False
    then have "postedFrom c vs (BacklogEvent src m)" using ev c' by auto
    then show ?thesis using ok(1) unfolding storeOk_def postedFrom_def by blast
  qed (use ok(1) in \<open>auto simp: storeOk_def\<close>)
  then show ?thesis using ok(1) c'(1,2) kept unfolding storeOk_def by auto
qed

lemma storeOk_addToBacklog:
  assumes "addToBacklog m c = Some c'" "storeOk K ok V c" "ok m"
  shows "storeOk K ok V c'"
proof -
  obtain b k where c': "c' = c\<lparr>backlogs := b, backlogKeys := k\<rparr>" using addToBacklog_frame [OF assms(1)] by blast
  have inv: "backlog_inv c" "backlog_inv c'" using assms(1,2) addToBacklog_inv [of c m] by (auto simp: storeOk_def)
  let ?p = "toNegatePriority (Code m) (msgView m)"
  have "ok x" if x: "mapGet (backlogs c') a = Some q'" "x \<in> fst ` set_mset (contents q')" for a q' x
  proof (cases "mapGet (backlogs c) a = Some q'")
    case False
    then obtain q0 where q0: "Push q0 m ?p = Some q'" "q0 = NewPrque \<or> mapGet (backlogs c) (Source m) = Some q0"
      using assms(1) x(1) by (auto simp: addToBacklog_def Let_def bind_eq_Some_conv update_conv split: if_splits option.splits)
    have "prque_inv q0" using q0(2) inv(1) prq.invar_empty by (auto simp: backlog_inv_def queueOk_def)
    then have "contents q' = add_mset (m, ?p) (contents q0)" using prq.push_ok [of q0 m ?p] q0(1) by auto
    then have "x = m \<or> x \<in> fst ` set_mset (contents q0)" using x(2) by auto
    then show ?thesis
    proof
      assume "x \<in> fst ` set_mset (contents q0)"
      then have "mapGet (backlogs c) (Source m) = Some q0" using q0(2) by (auto simp: prq.contents_empty)
      then show ?thesis using \<open>x \<in> fst ` set_mset (contents q0)\<close> assms(2) unfolding storeOk_def by blast
    qed (use assms(3) in simp)
  qed (use x assms(2) in \<open>auto simp: storeOk_def\<close>)
  then show ?thesis using assms(2) c' inv(2) unfolding storeOk_def by simp
qed

section \<open>Rounds\<close>

lemma storeOk_setState:
  assumes "setState st c = Some c'" "storeOk K ok V c" "current c \<noteq> None" "valSet c \<noteq> None"
  shows "storeOk K ok V c'"
proof -
  let ?c = "c\<lparr>coreState := st\<rparr>"
  obtain c1 where c1: "c1 = ?c \<or> processPendingRequests ?c = Some c1" "processBacklog c1 = Some c'"
    using assms(1) by (auto simp: setState_def bind_eq_Some_conv Let_def split: if_splits)
  then have "lessStored ?c c1" "quiet ?c c1"
    using less_processPendingRequests quiet_processPendingRequests by auto
  moreover from this have "storeOk K ok V c1" using storeOk_less assms(2) lessStored_simps(4) by blast
  ultimately show ?thesis using storeOk_processBacklog [OF c1(2)] assms(3,4) by (simp add: quiet_def)
qed

lemma storeOk_updateRoundState:
  assumes "updateRoundState cr backend vs view rc c = Some c'" "storeOk K ok V c" "sameValidators V vs"
  shows "storeOk K ok V c'"
proof -
  have same: "backlogs c' = backlogs c" "backlogKeys c' = backlogKeys c" "coreAddress c' = coreAddress c"
    "posted c' = posted c" "futurePreprepareTimer c' = futurePreprepareTimer c" "outbox c' = outbox c" "valSet c' = Some vs"
    "priorValidators (priorSt c') = priorValidators (priorSt c) \<or> priorValidators (priorSt c') = valSet c"
    using assms(1) by (auto simp: updateRoundState_def updatePriorState_def bind_eq_Some_conv Let_def
      ClearExtraSeals_def split: option.splits if_splits)
  have "sameValidators V ws" if "valSet c' = Some ws \<or> priorValidators (priorSt c') = Some ws" for ws
    using that same(7,8) assms(2,3) unfolding storeOk_def by force
  then show ?thesis using assms(2) same(1-6) unfolding storeOk_def backlog_inv_def by simp
qed

lemma less_resetRoundChanges: "resetRoundChanges lp rd c = Some c' \<Longrightarrow> lessStored c c'"
  by (auto simp: resetRoundChanges_def bind_eq_Some_conv ClearExtraSeals_def lessStored_def split: if_splits)

lemma storeOk_startNewRound:
  assumes start: "startNewRound cr backend rd c = Some c'" and ok: "storeOk K ok V c"
    and vals: "\<And>b. sameValidators V (backendValidators backend b)"
  shows "storeOk K ok V c'"
proof -
  obtain lp lpr where lp: "LastProposal backend = (lp, lpr)" by (cases "LastProposal backend")
  obtain kind where kind: "roundKind lp rd c = Some kind"
    using start lp by (auto simp: startNewRound_def bind_eq_Some_conv)
  show ?thesis
  proof (cases "kind = NoRound")
    case True
    then show ?thesis using start lp kind ok by (simp add: startNewRound_def)
  next
    case False
    obtain x c2 vs1 c3 c4 and s1 :: roundState where
      c1: "nextView backend lp rd (kind = RoundChangeTo) c = Some x"
      and c2: "updateRoundState cr backend (fst (snd x)) (fst x) (kind = RoundChangeTo) (snd (snd x)) = Some c2" "valSet c2 = Some vs1"
      and c3: "setState StateAcceptRequest (c2\<lparr>valSet := Some (CalcProposer vs1 lpr (bigUint64 (vRound (fst x))))\<rparr>) = Some c3"
      and c4: "resetRoundChanges lp rd c3 = Some c4"
      and c': "newRoundChangeTimer (Some (rsSequence s1)) (Some (rsRound s1)) (emit (NotifyNewRound rd) c4) = Some c'"
      using startNewRound_parts [OF start lp kind False] by (elim exE conjE) (rule that)
    have "lessStored c (snd (snd x))" using c1 less_addEffectiveSeal
      by (auto simp: nextView_def bind_eq_Some_conv split: if_splits)
    then have "storeOk K ok V (snd (snd x))" using storeOk_less ok by blast
    moreover have "sameValidators V (fst (snd x))"
      using c1 vals ok by (auto simp: nextView_def bind_eq_Some_conv storeOk_def split: if_splits)
    ultimately have x: "storeOk K ok V (snd (snd x))" "sameValidators V (fst (snd x))" .
    have s2: "storeOk K ok V c2" by (rule storeOk_updateRoundState [OF c2(1) x])
    let ?c = "c2\<lparr>valSet := Some (CalcProposer vs1 lpr (bigUint64 (vRound (fst x))))\<rparr>"
    have "sameValidators V vs1" using s2 c2(2) by (simp add: storeOk_def)
    then have "storeOk K ok V ?c" using s2 sameValidators_CalcProposer by (simp add: storeOk_def backlog_inv_def)
    moreover have "current c2 \<noteq> None"
      using c2(1) by (auto simp: updateRoundState_def bind_eq_Some_conv Let_def split: option.splits if_splits)
    ultimately have "storeOk K ok V c3" using storeOk_setState [OF c3] by simp
    then show ?thesis
      using less_resetRoundChanges [OF c4] less_newRoundChangeTimer [OF c'] storeOk_less lessStored_simps(6) by blast
  qed
qed

section \<open>Handlers\<close>

lemma storeOk_handlePreprepareMsg:
  assumes run: "handlePreprepareMsg cr backend m c = Some (err, c')" and ok: "storeOk K ok V c" "ok (MPreprepare m)"
  shows "storeOk K ok V c'"
proof -
  consider "c' = c" | d where "c' = (stopFuturePreprepareTimer c)\<lparr>futurePreprepareTimer := Some (m, d)\<rparr>"
  | s c1 c2 where "newRoundChangeTimer (map_option rsSequence (current c)) (map_option rsRound (current c)) c = Some c1"
      "current c1 = Some s" "setState StatePreprepared (c1\<lparr>current := Some (SetPreprepare m s)\<rparr>) = Some c2"
      "broadcastPrepare cr backend c2 = Some c'" "valSet c \<noteq> None"
    using run by (auto simp: handlePreprepareMsg_def bind_eq_Some_conv split: if_splits option.splits prod.splits)
  then show ?thesis
  proof cases
    case 2
    then show ?thesis using ok by (auto simp: storeOk_def backlog_inv_def stopFuturePreprepareTimer_def)
  next
    case 3
    let ?c = "c1\<lparr>current := Some (SetPreprepare m s)\<rparr>"
    have "lessStored c ?c" using lessStored_trans [OF less_newRoundChangeTimer [OF 3(1)]] by simp
    then have "storeOk K ok V ?c" "valSet ?c = valSet c" using storeOk_less ok(1) by (blast, simp add: lessStored_def)
    then have "storeOk K ok V c2" using storeOk_setState [OF 3(3)] 3(5) by simp
    then show ?thesis using less_broadcasts(1) [OF 3(4)] storeOk_less by blast
  qed (use ok in simp)
qed

lemma storeOk_handlePrepareMsg:
  assumes run: "handlePrepareMsg cr backend m c = Some (err, c')" and ok: "storeOk K ok V c"
  shows "storeOk K ok V c'"
proof -
  consider "c' = c" | s where "c' = c\<lparr>current := Some s\<rparr>"
  | s ps c2 where "setState StatePrepared (c\<lparr>current := Some s, WBFTPreparedPrepares := Some ps\<rparr>) = Some c2"
      "broadcastCommit cr backend c2 = Some c'" "valSet c \<noteq> None"
    using run by (auto simp: handlePrepareMsg_def bind_eq_Some_conv Let_def split: if_splits)
  then show ?thesis
  proof cases
    case 3
    let ?c = "c\<lparr>current := Some s, WBFTPreparedPrepares := Some ps\<rparr>"
    have "storeOk K ok V ?c" using ok by (simp add: storeOk_def backlog_inv_def)
    then have "storeOk K ok V c2" using storeOk_setState [OF 3(1)] 3(3) by simp
    then show ?thesis using less_broadcasts(2) [OF 3(2)] storeOk_less by blast
  qed (use ok in \<open>simp_all add: storeOk_def backlog_inv_def\<close>)
qed

lemma storeOk_broadcastNext:
  assumes "broadcastNextRoundChange cr backend c = Some c'" "storeOk K ok V c"
  shows "storeOk K ok V c'"
proof -
  obtain rd where "broadcastRoundChange cr backend rd c = Some c'"
    using assms(1) by (auto simp: broadcastNextRoundChange_def bind_eq_Some_conv)
  then show ?thesis using less_broadcasts(3) storeOk_less assms(2) by blast
qed

lemma storeOk_commitWBFT:
  assumes run: "commitWBFT cr backend c = Some c'" and ok: "storeOk K ok V c" "current c \<noteq> None" "valSet c \<noteq> None"
  shows "storeOk K ok V c'"
proof -
  obtain c1 where c1: "setState StateCommitted c = Some c1"
    using run by (auto simp: commitWBFT_def bind_eq_Some_conv)
  then have out: "c' = c1 \<or> (\<exists>x. c' = emit x c1) \<or> (\<exists>x. broadcastNextRoundChange cr backend (emit x c1) = Some c')"
    using run by (auto simp: commitWBFT_def bind_eq_Some_conv Let_def split: if_splits option.splits)
  have s1: "storeOk K ok V (emit x c1)" "storeOk K ok V c1" for x
    using storeOk_setState [OF c1 ok] storeOk_less lessStored_simps(6) by blast+
  then show ?thesis using out storeOk_broadcastNext by blast
qed

lemma storeOk_handleCommitMsg:
  assumes run: "handleCommitMsg cr backend m c = Some (err, c')" and ok: "storeOk K ok V c"
  shows "storeOk K ok V c'"
proof -
  consider "c' = c" | s where "c' = c\<lparr>current := Some s\<rparr>"
  | s where "commitWBFT cr backend (c\<lparr>current := Some s\<rparr>) = Some c'" "valSet c \<noteq> None"
    using run by (auto simp: handleCommitMsg_def bind_eq_Some_conv Let_def split: if_splits)
  then show ?thesis
  proof cases
    case 3
    have "storeOk K ok V (c\<lparr>current := Some s\<rparr>)" using ok by (simp add: storeOk_def backlog_inv_def)
    then show ?thesis using storeOk_commitWBFT [OF 3(1)] 3(2) by simp
  qed (use ok in \<open>simp_all add: storeOk_def backlog_inv_def\<close>)
qed

lemma storeOk_handleRoundChangeMsg:
  assumes run: "handleRoundChangeMsg cr backend m c = Some (err, c')" and ok: "storeOk K ok V c"
    and vals: "\<And>b. sameValidators V (backendValidators backend b)"
  shows "storeOk K ok V c'"
proof -
  obtain e c1 where c1: "addRoundChange cr m c = Some (e, c1)"
    and out: "c' = c1 \<or> (\<exists>rd c2. startNewRound cr backend rd c1 = Some c2 \<and> broadcastRoundChange cr backend rd c2 = Some c')
      \<or> proposeJustified cr backend c1 = Some (err, c')"
    using run by (auto simp: handleRoundChangeMsg_def bind_eq_Some_conv Let_def split: if_splits prod.splits)
  have s1: "storeOk K ok V c1" using less_addRoundChange [OF c1] storeOk_less ok by blast
  show ?thesis using out
  proof (elim disjE exE conjE)
    fix rd c2 assume "startNewRound cr backend rd c1 = Some c2" "broadcastRoundChange cr backend rd c2 = Some c'"
    then show ?thesis using storeOk_startNewRound s1 vals less_broadcasts(3) storeOk_less by blast
  qed (use s1 less_proposeJustified storeOk_less in blast)+
qed

section \<open>Events\<close>

lemma storeOk_deliverMessage:
  assumes run: "deliverMessage cr backend m c = Some (err, c')" and ok: "storeOk K ok V c" "ok m"
    and vals: "\<And>b. sameValidators V (backendValidators backend b)"
  shows "storeOk K ok V c'"
  using run
proof (cases rule: deliverMessage_cases)
  case (2 p)
  then show ?thesis using storeOk_handlePreprepareMsg ok by blast
next
  case (3 p)
  then show ?thesis using storeOk_handlePrepareMsg ok(1) by blast
next
  case (4 p)
  then show ?thesis using storeOk_handleCommitMsg ok(1) by blast
next
  case (5 p)
  then show ?thesis using storeOk_handleRoundChangeMsg [OF _ ok(1) vals] by blast
qed (use ok(1) in simp)

lemma storeOk_handleDecodedMessage:
  assumes run: "handleDecodedMessage cr backend m c = Some (err, c')" and ok: "storeOk K ok V c" "ok m"
    and vals: "\<And>b. sameValidators V (backendValidators backend b)"
  shows "storeOk K ok V c'"
proof -
  consider "deliverMessage cr backend m c = Some (err, c')" | "addToBacklog m c = Some c'"
  | "addToExtraSeal cr m c = Some (err, c')" | "c' = c"
    using run by (auto simp: handleDecodedMessage_def bind_eq_Some_conv split: option.splits if_splits)
  then show ?thesis
  proof cases
    case 1
    then show ?thesis using storeOk_deliverMessage ok vals by blast
  next
    case 2
    then show ?thesis using storeOk_addToBacklog ok by blast
  next
    case 3
    then show ?thesis using less_addToExtraSeal storeOk_less ok(1) by blast
  qed (use ok(1) in simp)
qed

lemma storeOk_handleTimeoutMsg:
  assumes "handleTimeoutMsg cr backend c = Some c'" "storeOk K ok V c" "\<And>b. sameValidators V (backendValidators backend b)"
  shows "storeOk K ok V c'"
proof -
  obtain rd c1 where "startNewRound cr backend rd c = Some c1" "broadcastRoundChange cr backend rd c1 = Some c'"
    using assms(1) by (auto simp: handleTimeoutMsg_def bind_eq_Some_conv Let_def)
  then show ?thesis using storeOk_startNewRound assms(2,3) less_broadcasts(3) storeOk_less by blast
qed

lemma storeOk_handleEvent:
  assumes run: "handleEvent cr backend ev c = Some c'" and ok: "storeOk K ok V c"
    and new: "\<And>m. eventMsg cr c ev = Some m \<Longrightarrow> ok m" and vals: "\<And>b. sameValidators V (backendValidators backend b)"
  shows "storeOk K ok V c'"
proof (cases ev)
  case (RequestEvent p)
  then obtain err c1 r where c1: "handleRequest backend r c = Some (err, c1)" "c' = c1 \<or> storeRequestMsg r c1 = Some c'"
    using run by (auto simp: bind_eq_Some_conv Let_def split: if_splits)
  then have "lessStored c1 c'" using less_storeRequestMsg by auto
  then show ?thesis using less_handleRequest [OF c1(1)] lessStored_trans storeOk_less ok by blast
next
  case (MessageEvent code payload)
  then obtain err c1 where c1: "handleEncodedMsg cr backend code payload c = Some (err, c1)"
    "c' = c1 \<or> c' = emit (Gossip code payload) c1" using run by (auto simp: bind_eq_Some_conv split: if_splits)
  have "storeOk K ok V c1"
    using handleEncodedMsg_received [OF c1(1)] storeOk_handleDecodedMessage [OF _ ok _ vals] new MessageEvent ok by auto
  then show ?thesis using c1(2) lessStored_simps(6) storeOk_less by blast
next
  case (BacklogEvent src m)
  then obtain err c1 data where c1: "handleDecodedMessage cr backend m c = Some (err, c1)"
    "c' = c1 \<or> c' = emit (Gossip (Code m) data) c1" using run by (auto simp: bind_eq_Some_conv split: if_splits option.splits)
  have "ok m" using new BacklogEvent by simp
  from storeOk_handleDecodedMessage [OF c1(1) ok this vals] show ?thesis using c1(2) lessStored_simps(6) storeOk_less by blast
next
  case (TimeoutEvent x)
  then show ?thesis using run ok storeOk_handleTimeoutMsg vals by (auto split: if_splits)
next
  case (RetryTimeoutEvent rd)
  then show ?thesis using run less_broadcasts(3) storeOk_less ok by simp blast
next
  case FinalCommittedEvent
  then show ?thesis using run storeOk_startNewRound ok vals by (simp add: handleFinalCommittedMsg_def)
qed

lemma storeOk_futurePreprepareFires:
  assumes "futurePreprepareFires c = Some c'" "storeOk K ok V c"
  shows "storeOk K ok V c'"
proof (cases "futurePreprepareTimer c")
  case (Some x)
  obtain m d where x: "x = (m, d)" by (cases x)
  then obtain src where c': "c' = c\<lparr>futurePreprepareTimer := None, posted := posted c @ [BacklogEvent src (MPreprepare m)]\<rparr>"
    using assms(1) Some by (auto simp: futurePreprepareFires_def sendEvent_def bind_eq_Some_conv)
  have "ok (MPreprepare m)" using assms(2) Some x by (simp add: storeOk_def)
  then have "ok y" if "BacklogEvent src' y \<in> set (posted c')" for src' y
    using that assms(2) c' unfolding storeOk_def by auto
  then show ?thesis using assms(2) c' unfolding storeOk_def backlog_inv_def by simp
qed (use assms in \<open>simp add: futurePreprepareFires_def\<close>)

lemma storeOk_Start:
  assumes "Start cr backend (NewCore backend cfg) = Some c" "\<And>b. sameValidators V (backendValidators backend b)"
  shows "storeOk {} ok V c"
proof -
  have "storeOk {} ok V (NewCore backend cfg)" by (simp add: storeOk_def NewCore_def backlog_inv_def)
  then show ?thesis using assms(1) storeOk_startNewRound [OF _ _ assms(2)] by (simp add: Start_def)
qed

end
