(* ===== verification/Consensus_System.thy ===== *)
theory Consensus_System
  imports Storage Agreement
begin

text \<open>
  A network of nodes that run the consensus core. The correct validators are cores that handle events one at
  a time, in any interleaving; the others may send any bytes at any time. What the network does to
  messages is unrestricted: they may be lost, delayed, repeated and reordered. Of the cryptography it is assumed that a
  signature or seal that verifies under the key of a correct validator is one that its core has asked for, and
  that the hashes of the headers in circulation do not collide.

  The votes of the correct validators, in the order in which they are cast, satisfy the laws of \<open>vote_logs\<close>; so no
  two correct validators finalise different blocks of the same number.
\<close>

section \<open>The network\<close>

record Net =
  nCrypto :: Crypto
  nVals :: defaultSet
  nCorrect :: "address set"
  nHeaders :: "Header set"
  nRounds :: int

type_synonym System = "address \<Rightarrow> Core option"

definition calls :: "System \<Rightarrow> address \<Rightarrow> Effect set" where
  "calls S a = (case S a of None \<Rightarrow> {} | Some c \<Rightarrow> set (outbox c))"

text \<open>A seal that verifies under the key of a correct validator is over data which that validator has sealed.\<close>

definition sealGenuine :: "Net \<Rightarrow> System \<Rightarrow> bytes \<Rightarrow> bool" where
  "sealGenuine N S seal \<longleftrightarrow> (\<forall>v \<in> set (validators (nVals N)). \<forall>x. valAddress v \<in> nCorrect N \<longrightarrow>
     blsVerify (nCrypto N) seal (valBLSPublicKey v) x \<longrightarrow>
     (\<exists>view h t. SealCall view h t \<in> calls S (valAddress v)
        \<and> PrepareSeal (keccak256 (nCrypto N)) h (sealRound (vRound view)) t = x))"

text \<open>A statement whose signature yields a correct validator has the bytes of one which that validator has signed.\<close>

definition signedFits :: "WBFTMessage \<Rightarrow> bool" where
  "signedFits m \<longleftrightarrow> length (encodeItem (Lst [uintItem (Code m), the (signedPayload m)])) < 2 ^ 64"

definition signatureGenuine :: "Net \<Rightarrow> System \<Rightarrow> WBFTMessage \<Rightarrow> bool" where
  "signatureGenuine N S m \<longleftrightarrow> (Source m \<in> nCorrect N \<longrightarrow>
     (\<exists>m'. SignCall m' \<in> calls S (Source m) \<and> EncodePayloadForSigning m' = EncodePayloadForSigning m
        \<and> signedFits m \<and> signedFits m'))"

definition fullRoundChange :: "SignedRoundChangePayload \<Rightarrow> RoundChange" where
  "fullRoundChange rc = SignedRoundChangePayload.extend rc (RoundChange.fields None [])"

fun genuine :: "Net \<Rightarrow> System \<Rightarrow> WBFTMessage \<Rightarrow> bool" where
  "genuine N S (MPreprepare m) \<longleftrightarrow> bHeader (Proposal m) \<in> nHeaders N
     \<and> (\<forall>rc \<in> set (JustificationRoundChanges m). signatureGenuine N S (MRoundChange (fullRoundChange rc)))
     \<and> (\<forall>p \<in> set (JustificationPrepares m). signatureGenuine N S (MPrepare p))"
| "genuine N S (MPrepare m) \<longleftrightarrow> sealGenuine N S (prSeal m)"
| "genuine N S (MCommit m) \<longleftrightarrow> sealGenuine N S (CommitSeal m)"
| "genuine N S (MRoundChange m) \<longleftrightarrow> True"

text \<open>The events that a node may handle: messages that are genuine, what it has posted to itself, and timeouts,
  requests and chain heads; in a round within the bound, while the network is calm.\<close>

definition admissibleEvent :: "Net \<Rightarrow> System \<Rightarrow> Backend \<Rightarrow> CoreEvent \<Rightarrow> Core \<Rightarrow> bool" where
  "admissibleEvent N S bk ev c \<longleftrightarrow> knowsValidators (\<lambda>n. nVals N) bk \<and> boundedView c
     \<and> (\<forall>s. current c = Some s \<longrightarrow> rsRound s < nRounds N) \<and> calmEvent (nCrypto N) bk c ev
     \<and> (\<forall>code payload m. ev = MessageEvent code payload \<longrightarrow> received (nCrypto N) c code payload = Some m \<longrightarrow> genuine N S m)
     \<and> (\<forall>src m. ev = BacklogEvent src m \<longrightarrow> ev \<in> set (posted c))"

definition newVotes :: "Crypto \<Rightarrow> address \<Rightarrow> Core \<Rightarrow> Core \<Rightarrow> vote_log" where
  "newVotes cr a c c' = map (Pair a) (drop (length (coreVotes cr c)) (coreVotes cr c'))"

inductive sys_run :: "Net \<Rightarrow> System \<Rightarrow> vote_log \<Rightarrow> bool" for N where
  empty: "sys_run N (\<lambda>a. None) []"
| join: "sys_run N S lg \<Longrightarrow> a \<in> nCorrect N \<Longrightarrow> S a = None \<Longrightarrow> knowsValidators (\<lambda>n. nVals N) bk \<Longrightarrow>
     Start (nCrypto N) bk (NewCore bk cfg) = Some c \<Longrightarrow> sys_run N (S(a := Some c)) lg"
| event: "sys_run N S lg \<Longrightarrow> S a = Some c \<Longrightarrow> admissibleEvent N S bk ev c \<Longrightarrow> handleEvent (nCrypto N) bk ev c = Some c' \<Longrightarrow>
     sys_run N (S(a := Some c')) (lg @ newVotes (nCrypto N) a c c')"
| futureBlock: "sys_run N S lg \<Longrightarrow> S a = Some c \<Longrightarrow> futurePreprepareFires c = Some c' \<Longrightarrow> sys_run N (S(a := Some c')) lg"

text \<open>What is assumed of a network: at most \<open>F\<close> validators are not correct, and hashes do not collide.\<close>

definition collisionFree :: "Net \<Rightarrow> bool" where
  "collisionFree N \<longleftrightarrow> (\<forall>h \<in> nHeaders N. Header_Hash (keccak256 (nCrypto N)) h \<noteq> 0
     \<and> (\<forall>h' \<in> nHeaders N. (Header_Hash (keccak256 (nCrypto N)) h = Header_Hash (keccak256 (nCrypto N)) h' \<longrightarrow>
            headerNumber h = headerNumber h')
         \<and> (\<forall>r r' t t'. 0 \<le> r \<longrightarrow> r < nRounds N \<longrightarrow> 0 \<le> r' \<longrightarrow> r' < nRounds N \<longrightarrow>
              PrepareSeal (keccak256 (nCrypto N)) h (sealRound r) t = PrepareSeal (keccak256 (nCrypto N)) h' (sealRound r') t' \<longrightarrow>
              Header_Hash (keccak256 (nCrypto N)) h = Header_Hash (keccak256 (nCrypto N)) h' \<and> sealRound r = sealRound r' \<and> t = t')))"

definition netOk :: "Net \<Rightarrow> bool" where
  "netOk N \<longleftrightarrow> valSet_wf (nVals N) \<and> validators (nVals N) \<noteq> [] \<and> nCorrect N \<subseteq> set (AddressList (nVals N))
     \<and> of_nat (card (set (AddressList (nVals N)) - nCorrect N)) \<le> F (nVals N) \<and> nRounds N \<le> 2 ^ 32 \<and> collisionFree N"

section \<open>What a received message proves\<close>

definition netWorld :: "Net \<Rightarrow> System \<Rightarrow> World" where
  "netWorld N S = \<lparr>wCrypto = nCrypto N, wVals = \<lambda>n. nVals N, wHeader = \<lambda>h. h \<in> nHeaders N, wRounds = nRounds N,
     wSeal = sealGenuine N S,
     wRoundChange = \<lambda>rc. pSource rc \<in> set (AddressList (nVals N)) \<and> (pSource rc \<in> nCorrect N \<longrightarrow>
       (\<exists>m. SignCall (MRoundChange m) \<in> calls S (pSource rc) \<and> payloadView m = payloadView rc \<and> preparedOf m = preparedOf rc)),
     wPrepare = \<lambda>p. pSource p \<in> set (AddressList (nVals N)) \<and> (pSource p \<in> nCorrect N \<longrightarrow>
       (\<exists>m. SignCall (MPrepare m) \<in> calls S (pSource p) \<and> payloadView m = payloadView p \<and> Digest m = Digest p))\<rparr>"

lemma netWorld_simps [simp]:
  "wCrypto (netWorld N S) = nCrypto N" "wVals (netWorld N S) = (\<lambda>n. nVals N)" "wHeader (netWorld N S) h \<longleftrightarrow> h \<in> nHeaders N"
  "wRounds (netWorld N S) = nRounds N" "wSeal (netWorld N S) = sealGenuine N S"
  by (simp_all add: netWorld_def)

lemma fullRoundChange_fields [simp]:
  "pCode (fullRoundChange rc) = pCode rc" "pSource (fullRoundChange rc) = pSource rc" "pSequence (fullRoundChange rc) = pSequence rc"
  "pRound (fullRoundChange rc) = pRound rc" "PreparedRound (fullRoundChange rc) = PreparedRound rc"
  "PreparedDigest (fullRoundChange rc) = PreparedDigest rc"
  by (simp_all add: fullRoundChange_def payload_defs)

lemma fullRoundChange_simps [simp]:
  "payloadView (fullRoundChange rc) = payloadView rc" "preparedOf (fullRoundChange rc) = preparedOf rc"
  "encodePayloadInternal (fullRoundChange rc) = encodePayloadInternal rc"
proof -
  show p: "preparedOf (fullRoundChange rc) = preparedOf rc" by (simp add: preparedOf_def split: option.split)
  show "payloadView (fullRoundChange rc) = payloadView rc" by (simp add: payloadView_def)
  show "encodePayloadInternal (fullRoundChange rc) = encodePayloadInternal rc" by (simp add: encodePayloadInternal_def p)
qed

lemma genuine_statement:
  assumes "signatureGenuine N S m" "Source m \<in> nCorrect N" "Code m = kindCode m" "EncodePayloadForSigning m \<noteq> None"
    and "\<And>m'. SignCall m' \<in> calls S (Source m) \<Longrightarrow> Code m' = kindCode m'"
  shows "\<exists>m'. SignCall m' \<in> calls S (Source m) \<and> sameStatement m' m"
proof -
  obtain m' where m': "SignCall m' \<in> calls S (Source m)" "EncodePayloadForSigning m' = EncodePayloadForSigning m"
    "signedFits m" "signedFits m'" using assms(1,2) by (auto simp: signatureGenuine_def)
  then have "signable m" "signable m'" using assms(3,5) by (simp_all add: signable_def signedFits_def)
  moreover obtain b where "EncodePayloadForSigning m = Some b" using assms(4) by blast
  ultimately have "sameStatement m' m" using same_signed_bytes [of m' m b] m'(2) by simp
  then show ?thesis using m'(1) by blast
qed

lemma sum_cases_Inr:
  "(case r of Inl e \<Rightarrow> Some (Inl (g e)) | Inr x \<Rightarrow> f x) = Some (Inr y) \<longleftrightarrow> (\<exists>x. r = Inr x \<and> f x = Some (Inr y))"
  "(case q of Inl e \<Rightarrow> Inl (h e) | Inr x \<Rightarrow> Inr (k x)) = Inr z \<longleftrightarrow> (\<exists>x. q = Inr x \<and> z = k x)"
  by (auto split: sum.split)

lemma member_received:
  assumes "verifyPart cr c x sig view = Some (Inr a)"
    and "\<And>vs. valSet c = Some vs \<or> priorValidators (priorSt c) = Some vs \<Longrightarrow> sameValidators V vs"
  shows "x \<noteq> None \<and> a \<in> set (AddressList V)"
proof -
  obtain payload where x: "x = Some payload" using assms(1) by (cases x) (auto simp: verifyPart_def)
  then obtain ws where ws: "ws = valSet c \<or> ws = priorValidators (priorSt c)" "CheckValidatorSignature cr ws payload sig = Some (Inr a)"
    using assms(1) by (auto simp: verifyPart_def checkValidatorSignature_def bind_eq_Some_conv sum_cases_Inr split: if_splits)
  then obtain vs b v where v: "ws = Some vs" "snd (GetByAddress vs b) = Some v" "a = valAddress v"
    by (auto simp: CheckValidatorSignature_def bind_eq_Some_conv split: sum.splits option.splits)
  then have "sameValidators V vs" using assms(2) ws(1) by auto
  then show ?thesis using v(3) GetByAddress_snd_SomeD(1) [OF v(2)] x by (auto simp: sameValidators_def AddressList_def)
qed

lemma verifyPrepares_parts:
  "verifyPrepares cr c ps = Some (Inr qs) \<Longrightarrow> q \<in> set qs \<Longrightarrow>
     \<exists>p \<in> set ps. q = p\<lparr>pSource := pSource q\<rparr> \<and> verifyPart cr c (Prepare_signing p) (pSignature p) (payloadView p) = Some (Inr (pSource q))"
proof (induction ps arbitrary: qs)
  case (Cons p ps)
  then obtain a rest where "verifyPart cr c (Prepare_signing p) (pSignature p) (payloadView p) = Some (Inr a)"
    "verifyPrepares cr c ps = Some (Inr rest)" "qs = p\<lparr>pSource := a\<rparr> # rest"
    by (auto simp: bind_eq_Some_conv sum_cases_Inr)
  with Cons show ?case by auto
qed simp

lemma verifyRoundChanges_parts:
  "verifyRoundChanges cr c ps = Some (Inr qs) \<Longrightarrow> q \<in> set qs \<Longrightarrow>
     \<exists>p \<in> set ps. q = p\<lparr>pSource := pSource q\<rparr>
       \<and> verifyPart cr c (SignedRoundChange_signing p) (pSignature p) (payloadView p) = Some (Inr (pSource q))"
proof (induction ps arbitrary: qs)
  case (Cons p ps)
  then obtain a rest where "verifyPart cr c (SignedRoundChange_signing p) (pSignature p) (payloadView p) = Some (Inr a)"
    "verifyRoundChanges cr c ps = Some (Inr rest)" "qs = p\<lparr>pSource := a\<rparr> # rest"
    by (auto simp: bind_eq_Some_conv sum_cases_Inr)
  with Cons show ?case by auto
qed simp

text \<open>The code of a part of a message is that of its kind.\<close>

lemma those_dec:
  "those (map dec xs) = Some ys \<Longrightarrow> y \<in> set ys \<Longrightarrow> \<exists>x. dec x = Some y"
  by (induction xs arbitrary: ys) (auto split: option.splits)

lemma decList_dec: "decList dec x = Some ys \<Longrightarrow> y \<in> set ys \<Longrightarrow> \<exists>x. dec x = Some y"
  using those_dec by (cases x) auto

lemma decPrepare_code: "decPrepare x = Some p \<Longrightarrow> pCode p = PrepareCode"
  by (cases x rule: decPrepare.cases) (auto simp: bind_eq_Some_conv payload_defs)

lemma decSignedRoundChange_code: "decSignedRoundChange x = Some p \<Longrightarrow> pCode p = RoundChangeCode"
  by (cases x rule: decSignedRoundChange.cases) (auto simp: bind_eq_Some_conv payload_defs)

lemma decPreprepare_codes:
  assumes "decPreprepare x = Some m"
  shows "rc \<in> set (JustificationRoundChanges m) \<Longrightarrow> pCode rc = RoundChangeCode" "p \<in> set (JustificationPrepares m) \<Longrightarrow> pCode p = PrepareCode"
  using assms decList_dec [of decPrepare] decList_dec [of decSignedRoundChange] decPrepare_code decSignedRoundChange_code
  by (cases x rule: decPreprepare.cases; fastforce simp: bind_eq_Some_conv)+

lemma received_preprepare:
  assumes "received cr c code payload = Some (MPreprepare m)"
  obtains x m0 rcs ps where "decPreprepare x = Some m0" "verifyRoundChanges cr c (JustificationRoundChanges m0) = Some (Inr rcs)"
    "verifyPrepares cr c (JustificationPrepares m0) = Some (Inr ps)" "JustificationRoundChanges m = rcs" "JustificationPrepares m = ps"
proof -
  obtain m0 where m0: "Decode (keccak256 cr) code payload = Inr m0" "verifySignatures cr c m0 = Some (Inr (MPreprepare m))"
    using assms by (auto simp: received_def split: if_splits sum.splits option.splits)
  then obtain a where a: "verifyJustification cr c (SetSource a m0) = Some (Inr (MPreprepare m))"
    by (auto simp: verifySignatures_def bind_eq_Some_conv sum_cases_Inr)
  then obtain p where p: "m0 = MPreprepare p"
    by (cases m0) (auto simp: verifyJustification_def bind_eq_Some_conv sum_cases_Inr)
  then obtain x where "decPreprepare x = Some p"
    using m0(1) by (auto simp: Decode_def DecodeBytes_def split: if_splits option.splits list.splits)
  moreover obtain rcs ps where "verifyRoundChanges cr c (JustificationRoundChanges p) = Some (Inr rcs)"
    "verifyPrepares cr c (JustificationPrepares p) = Some (Inr ps)" "JustificationRoundChanges m = rcs" "JustificationPrepares m = ps"
    using a p by (auto simp: verifyJustification_def bind_eq_Some_conv sum_cases_Inr)
  ultimately show thesis by (rule that)
qed

lemma genuine_prepare:
  assumes "signatureGenuine N S (MPrepare q)" "q = p\<lparr>pSource := pSource q\<rparr>" "pCode p = PrepareCode" "Prepare_signing p \<noteq> None"
    and "pSource q \<in> nCorrect N" "\<And>a m'. SignCall m' \<in> calls S a \<Longrightarrow> Code m' = kindCode m'"
  shows "\<exists>m. SignCall (MPrepare m) \<in> calls S (pSource q) \<and> payloadView m = payloadView q \<and> Digest m = Digest q"
proof -
  have q: "pCode q = pCode p" "preparePayload q = preparePayload p"
    by (subst assms(2), simp add: preparePayload_def)+
  then have "EncodePayloadForSigning (MPrepare q) \<noteq> None" "Code (MPrepare q) = kindCode (MPrepare q)"
    using assms(3,4) by (simp_all add: EncodePayloadForSigning_def Prepare_signing_def)
  then obtain m' where "SignCall m' \<in> calls S (pSource q)" "sameStatement m' (MPrepare q)"
    using genuine_statement [OF assms(1)] assms(5,6) by auto
  then show ?thesis by (cases m') auto
qed

lemma genuine_roundChange:
  assumes "signatureGenuine N S (MRoundChange (fullRoundChange q))" "q = p\<lparr>pSource := pSource q\<rparr>" "pCode p = RoundChangeCode"
    and "SignedRoundChange_signing p \<noteq> None" "pSource q \<in> nCorrect N" "\<And>a m'. SignCall m' \<in> calls S a \<Longrightarrow> Code m' = kindCode m'"
  shows "\<exists>m. SignCall (MRoundChange m) \<in> calls S (pSource q) \<and> payloadView m = payloadView q \<and> preparedOf m = preparedOf q"
proof -
  have pr: "preparedOf (p\<lparr>pSource := a\<rparr>) = preparedOf p" for a by (simp add: preparedOf_def split: option.split)
  have q: "pCode q = pCode p" "encodePayloadInternal q = encodePayloadInternal p"
    by (subst assms(2), simp add: encodePayloadInternal_def pr)+
  then have "EncodePayloadForSigning (MRoundChange (fullRoundChange q)) \<noteq> None"
    "Code (MRoundChange (fullRoundChange q)) = kindCode (MRoundChange (fullRoundChange q))"
    using assms(3,4) by (simp_all add: EncodePayloadForSigning_def SignedRoundChange_signing_def)
  then obtain m' where "SignCall m' \<in> calls S (pSource q)" "sameStatement m' (MRoundChange (fullRoundChange q))"
    using genuine_statement [OF assms(1)] assms(5,6) by auto
  then show ?thesis by (cases m') auto
qed

lemma received_auth:
  assumes m: "received (nCrypto N) c code payload = Some m" and g: "genuine N S m" and ok: "storeOk K ok (nVals N) c"
    and codes: "\<And>a m'. SignCall m' \<in> calls S a \<Longrightarrow> Code m' = kindCode m'"
  shows "authMsg (netWorld N S) m"
proof (cases m)
  case (MPreprepare p)
  have vals: "sameValidators (nVals N) vs" if "valSet c = Some vs \<or> priorValidators (priorSt c) = Some vs" for vs
    using ok that unfolding storeOk_def by blast
  obtain x m0 rcs ps where d: "decPreprepare x = Some m0"
    and v: "verifyRoundChanges (nCrypto N) c (JustificationRoundChanges m0) = Some (Inr rcs)"
      "verifyPrepares (nCrypto N) c (JustificationPrepares m0) = Some (Inr ps)"
      "JustificationRoundChanges p = rcs" "JustificationPrepares p = ps"
    by (rule received_preprepare [OF m [unfolded MPreprepare]])
  note gp = g [unfolded MPreprepare genuine.simps]
  have "wRoundChange (netWorld N S) q" if q: "q \<in> set (JustificationRoundChanges p)" for q
  proof -
    obtain p' where p': "p' \<in> set (JustificationRoundChanges m0)" "q = p'\<lparr>pSource := pSource q\<rparr>"
      "verifyPart (nCrypto N) c (SignedRoundChange_signing p') (pSignature p') (payloadView p') = Some (Inr (pSource q))"
      using verifyRoundChanges_parts [OF v(1)] q v(3) by blast
    note mem = member_received [OF p'(3) vals]
    have "signatureGenuine N S (MRoundChange (fullRoundChange q))" using gp q by blast
    from genuine_roundChange [OF this p'(2) decPreprepare_codes(1) [OF d p'(1)] _ _ codes] show ?thesis
      using mem by (simp add: netWorld_def)
  qed
  moreover have "wPrepare (netWorld N S) q" if q: "q \<in> set (JustificationPrepares p)" for q
  proof -
    obtain p' where p': "p' \<in> set (JustificationPrepares m0)" "q = p'\<lparr>pSource := pSource q\<rparr>"
      "verifyPart (nCrypto N) c (Prepare_signing p') (pSignature p') (payloadView p') = Some (Inr (pSource q))"
      using verifyPrepares_parts [OF v(2)] q v(4) by blast
    note mem = member_received [OF p'(3) vals]
    have "signatureGenuine N S (MPrepare q)" using gp q by blast
    from genuine_prepare [OF this p'(2) decPreprepare_codes(2) [OF d p'(1)] _ _ codes] show ?thesis
      using mem by (simp add: netWorld_def)
  qed
  ultimately show ?thesis using MPreprepare gp by simp
qed (use g in simp_all)

section \<open>More is known as the run goes on\<close>

definition grows :: "System \<Rightarrow> System \<Rightarrow> bool" where
  "grows S S' \<longleftrightarrow> (\<forall>a. calls S a \<subseteq> calls S' a)"

lemma sealGenuine_grows: "grows S S' \<Longrightarrow> sealGenuine N S seal \<Longrightarrow> sealGenuine N S' seal"
  unfolding sealGenuine_def grows_def by blast

lemma netWorld_grows:
  assumes "grows S S'"
  shows "wSeal (netWorld N S) x \<Longrightarrow> wSeal (netWorld N S') x" "wRoundChange (netWorld N S) rc \<Longrightarrow> wRoundChange (netWorld N S') rc"
    "wPrepare (netWorld N S) p \<Longrightarrow> wPrepare (netWorld N S') p"
  using assms sealGenuine_grows by (auto simp: netWorld_def grows_def)

lemma authMsg_grows: "grows S S' \<Longrightarrow> authMsg (netWorld N S) m \<Longrightarrow> authMsg (netWorld N S') m"
  using netWorld_grows [of S S' N] by (cases m) auto

lemma sealValid_grows:
  "grows S S' \<Longrightarrow> sealValid (netWorld N S) sq h rd t seal a \<Longrightarrow> sealValid (netWorld N S') sq h rd t seal a"
  using sealGenuine_grows by (auto simp: sealValid_def)

lemma sealsProve_grows:
  assumes "grows S S'" "sealsProve (netWorld N S) sq h rd t sds"
  shows "sealsProve (netWorld N S') sq h rd t sds"
  using assms(2) sealValid_grows [OF assms(1)] unfolding sealsProve_def netWorld_simps by blast

lemma effectOk_grows: "grows S S' \<Longrightarrow> effectOk (netWorld N S) X x \<Longrightarrow> effectOk (netWorld N S') X x"
  using sealsProve_grows by (cases x) auto

lemma core_ok_grows:
  assumes "grows S S'" "core_ok (netWorld N S) c s"
  shows "core_ok (netWorld N S') c s"
proof -
  have "votesCollected (netWorld N S') s b" if "votesCollected (netWorld N S) s b" for b
    using that sealValid_grows [OF assms(1)] unfolding votesCollected_def by blast
  then have "proposalOk (netWorld N S') (coreState c) s"
    using assms(2) unfolding core_ok_def proposalOk_def netWorld_simps by (auto split: if_splits)
  then show ?thesis using assms(2) unfolding core_ok_def netWorld_simps by blast
qed

lemma effectsOk_grows: "grows S S' \<Longrightarrow> effectsOk (netWorld N S) c \<Longrightarrow> effectsOk (netWorld N S') c"
  using effectOk_grows unfolding effectsOk_def netWorld_simps by blast

section \<open>From evidence to votes\<close>

definition nodeOk :: "Net \<Rightarrow> System \<Rightarrow> Core \<Rightarrow> bool" where
  "nodeOk N S c \<longleftrightarrow> (\<exists>s. core_ok (netWorld N S) c s \<and> effectsOk (netWorld N S) c \<and> vote_inv True (voterOf (nCrypto N) c s))
     \<and> storeOk {} (authMsg (netWorld N S)) (nVals N) c"

text \<open>Every node is as its invariant says, and the log has exactly the votes of the nodes.\<close>

definition sysOk :: "Net \<Rightarrow> System \<Rightarrow> vote_log \<Rightarrow> bool" where
  "sysOk N S lg \<longleftrightarrow> netOk N \<and> (\<forall>a c. S a = Some c \<longrightarrow> a \<in> nCorrect N \<and> nodeOk N S c)
     \<and> (\<forall>a x. (a, x) \<in> set lg \<longleftrightarrow> (\<exists>c. S a = Some c \<and> x \<in> set (coreVotes (nCrypto N) c)))"

fun sealVote :: "SealType \<Rightarrow> int \<Rightarrow> int \<Rightarrow> hash \<Rightarrow> Vote" where
  "sealVote SealTypePrepare = VPrepare"
| "sealVote SealTypeCommit = VCommit"

lemma nodeOk_grows:
  assumes "grows S S'" "nodeOk N S c"
  shows "nodeOk N S' c"
proof -
  have "storeOk {} (authMsg (netWorld N S')) (nVals N) c"
    by (rule storeOk_mono [of _ "authMsg (netWorld N S)"]) (use assms authMsg_grows in \<open>auto simp: nodeOk_def\<close>)
  then show ?thesis using assms(2) core_ok_grows [OF assms(1)] effectsOk_grows [OF assms(1)] unfolding nodeOk_def by blast
qed

lemma sysOk_call:
  assumes "sysOk N S lg" "x \<in> calls S a"
  obtains c where "S a = Some c" "x \<in> set (outbox c)" "effectOk (netWorld N S) (set (coreVotes (nCrypto N) c)) x"
    "set (voteOf (nCrypto N) x) \<subseteq> set (coreVotes (nCrypto N) c)"
proof -
  obtain c where c: "S a = Some c" "x \<in> set (outbox c)" using assms(2) by (auto simp: calls_def split: option.splits)
  then have "nodeOk N S c" using assms(1) by (simp add: sysOk_def)
  then show thesis using that c effect_votes by (fastforce simp: nodeOk_def effectsOk_def)
qed

lemma sysOk_vote: "sysOk N S lg \<Longrightarrow> S a = Some c \<Longrightarrow> x \<in> set (coreVotes (nCrypto N) c) \<Longrightarrow> (a, x) \<in> set lg"
  by (auto simp: sysOk_def)

lemma sysOk_seal:
  assumes ok: "sysOk N S lg" and x: "SealCall view h t \<in> calls S a"
  shows "h \<in> nHeaders N" "headerNumber h = vSequence view" "0 \<le> vRound view" "vRound view < nRounds N"
    "(a, sealVote t (vSequence view) (vRound view) (Header_Hash (keccak256 (nCrypto N)) h)) \<in> set lg"
proof -
  obtain c where c: "S a = Some c" "effectOk (netWorld N S) (set (coreVotes (nCrypto N) c)) (SealCall view h t)"
    "set (voteOf (nCrypto N) (SealCall view h t)) \<subseteq> set (coreVotes (nCrypto N) c)" by (rule sysOk_call [OF ok x])
  then show "h \<in> nHeaders N" "headerNumber h = vSequence view" "0 \<le> vRound view" "vRound view < nRounds N" by simp_all
  have "sealVote t (vSequence view) (vRound view) (Header_Hash (keccak256 (nCrypto N)) h) \<in> set (coreVotes (nCrypto N) c)"
    using c(3) by (cases t) simp_all
  then show "(a, sealVote t (vSequence view) (vRound view) (Header_Hash (keccak256 (nCrypto N)) h)) \<in> set lg"
    by (rule sysOk_vote [OF ok c(1)])
qed

lemma vote_sealed:
  assumes "sealVote t s r d \<in> set (coreVotes cr c)"
  shows "\<exists>view h. SealCall view h t \<in> set (outbox c) \<and> s = vSequence view \<and> d = Header_Hash (keccak256 cr) h"
proof -
  obtain x where x: "x \<in> set (outbox c)" "sealVote t s r d \<in> set (voteOf cr x)" using assms by (auto simp: coreVotes_def)
  then show ?thesis by (cases t; cases "(cr, x)" rule: voteOf.cases) auto
qed

lemma sysOk_sealed:
  assumes ok: "sysOk N S lg" and x: "(a, sealVote t s r d) \<in> set lg"
  shows "\<exists>h \<in> nHeaders N. d = Header_Hash (keccak256 (nCrypto N)) h \<and> headerNumber h = s"
proof -
  obtain c where c: "S a = Some c" "sealVote t s r d \<in> set (coreVotes (nCrypto N) c)" using assms by (auto simp: sysOk_def)
  then obtain view h where h: "SealCall view h t \<in> calls S a" "s = vSequence view" "d = Header_Hash (keccak256 (nCrypto N)) h"
    using vote_sealed [OF c(2)] by (auto simp: calls_def)
  then show ?thesis using sysOk_seal(1,2) [OF ok h(1)] by auto
qed

lemma sealRound_inj: "sealRound r = sealRound r' \<Longrightarrow> 0 \<le> r \<Longrightarrow> r < 2 ^ 32 \<Longrightarrow> 0 \<le> r' \<Longrightarrow> r' < 2 ^ 32 \<Longrightarrow> r = r'"
proof -
  have "uint (sealRound x) = x" if "0 \<le> x" "x < 2 ^ 32" for x
    using that by (simp add: sealRound_def bigUint64_def unsigned_ucast_eq take_bit_int_eq_self unsigned_of_int)
  then show "sealRound r = sealRound r' \<Longrightarrow> 0 \<le> r \<Longrightarrow> r < 2 ^ 32 \<Longrightarrow> 0 \<le> r' \<Longrightarrow> r' < 2 ^ 32 \<Longrightarrow> r = r'" by metis
qed

abbreviation netQuorum :: "Net \<Rightarrow> address set \<Rightarrow> bool" where
  "netQuorum N \<equiv> isQuorum (set (AddressList (nVals N))) (QuorumSize (nVals N))"

lemma seal_vote:
  assumes ok: "sysOk N S lg" and valid: "sealValid (netWorld N S) sq (bHeader b) rd t seal a" and a: "a \<in> nCorrect N"
    and b: "bHeader b \<in> nHeaders N" "Block_Number b = sq" and rd: "0 \<le> rd" "rd < nRounds N"
  shows "(a, sealVote t sq rd (Block_Hash (keccak256 (nCrypto N)) b)) \<in> set lg"
proof -
  let ?k = "keccak256 (nCrypto N)"
  obtain view h t' where h: "SealCall view h t' \<in> calls S a"
    "PrepareSeal ?k h (sealRound (vRound view)) t' = PrepareSeal ?k (bHeader b) (sealRound rd) t"
    using valid a unfolding sealValid_def sealGenuine_def netWorld_simps by blast
  note c = sysOk_seal [OF ok h(1)]
  have net: "collisionFree N" "nRounds N \<le> 2 ^ 32" using ok by (simp_all add: sysOk_def netOk_def)
  then have eq: "Header_Hash ?k h = Header_Hash ?k (bHeader b)" "sealRound (vRound view) = sealRound rd" "t' = t"
    using h(2) c(1,3,4) b(1) rd unfolding collisionFree_def by blast+
  have "vRound view = rd" using sealRound_inj [OF eq(2)] c(3,4) rd net(2) by simp
  moreover have "headerNumber h = headerNumber (bHeader b)" using net(1) c(1) b(1) eq(1) unfolding collisionFree_def by blast
  ultimately show ?thesis using c(2,5) eq b(2) by (simp add: Block_Hash_def)
qed

lemma sealQuorum_votes:
  assumes ok: "sysOk N S lg" and q: "sealQuorum (netWorld N S) t sq rd d"
  shows "\<exists>Q. netQuorum N Q \<and> (\<forall>a \<in> Q \<inter> nCorrect N. (a, sealVote t sq rd d) \<in> set lg)"
proof -
  obtain b Q where b: "Block_Hash (keccak256 (nCrypto N)) b = d" "Block_Number b = sq" "bHeader b \<in> nHeaders N"
    and Q: "Q \<subseteq> set (AddressList (nVals N))" "QuorumSize (nVals N) \<le> int (card Q)"
      "\<forall>a \<in> Q. \<exists>seal. sealValid (netWorld N S) sq (bHeader b) rd t seal a"
    and rd: "0 \<le> rd" "rd < nRounds N"
    using q by (auto simp: sealQuorum_def)
  have "(a, sealVote t sq rd d) \<in> set lg" if "a \<in> Q \<inter> nCorrect N" for a
    using that Q(3) seal_vote [OF ok _ _ b(3,2) rd, of t _ a] b(1) by auto
  then show ?thesis using Q(1,2) unfolding isQuorum_def by blast
qed

text \<open>A ROUND-CHANGE of a correct validator reports a lock on a block that has been committed to, or none.\<close>

lemma roundChange_vote:
  assumes ok: "sysOk N S lg" and rc: "wRoundChange (netWorld N S) rc" "pSource rc \<in> nCorrect N"
  shows "\<exists>l. (pSource rc, VRoundChange (pSequence rc) (pRound rc) l) \<in> set lg \<and> l = preparedOf rc"
proof -
  let ?a = "pSource rc"
  obtain m where m: "SignCall (MRoundChange m) \<in> calls S ?a" "payloadView m = payloadView rc" "preparedOf m = preparedOf rc"
    using rc by (auto simp: netWorld_def)
  obtain c where c: "S ?a = Some c"
    "set (voteOf (nCrypto N) (SignCall (MRoundChange m))) \<subseteq> set (coreVotes (nCrypto N) c)" by (rule sysOk_call [OF ok m(1)])
  let ?l = "map_option (\<lambda>pr. (pr, PreparedDigest m)) (PreparedRound m)"
  have vote: "VRoundChange (pSequence rc) (pRound rc) ?l \<in> set (coreVotes (nCrypto N) c)"
    using c(2) m(2) by (simp add: payloadView_def)
  have "PreparedDigest m \<noteq> 0" if "PreparedRound m = Some pr" for pr
  proof -
    have "nodeOk N S c" using ok c(1) by (simp add: sysOk_def)
    then have "locksCommitted (set (coreVotes (nCrypto N) c))" by (auto simp: nodeOk_def vote_inv_def voterOf_def)
    then have "VCommit (pSequence rc) pr (PreparedDigest m) \<in> set (coreVotes (nCrypto N) c)"
      using vote that by (simp add: locksCommitted_def)
    then have "(?a, sealVote SealTypeCommit (pSequence rc) pr (PreparedDigest m)) \<in> set lg" using sysOk_vote [OF ok c(1)] by simp
    then obtain h where "h \<in> nHeaders N" "PreparedDigest m = Header_Hash (keccak256 (nCrypto N)) h"
      using sysOk_sealed [OF ok] by blast
    then show ?thesis using ok unfolding sysOk_def netOk_def collisionFree_def by simp
  qed
  then have "?l = preparedOf m" by (simp add: preparedOf_def split: option.split)
  then show ?thesis using sysOk_vote [OF ok c(1) vote] m(3) by simp
qed

lemma prepare_vote:
  assumes ok: "sysOk N S lg" and p: "wPrepare (netWorld N S) p" "pSource p \<in> nCorrect N"
    and b: "Digest p = Block_Hash (keccak256 (nCrypto N)) b" "bHeader b \<in> nHeaders N"
  shows "(pSource p, VPrepare (Block_Number b) (pRound p) (Digest p)) \<in> set lg"
proof -
  obtain m where m: "SignCall (MPrepare m) \<in> calls S (pSource p)" "payloadView m = payloadView p" "Digest m = Digest p"
    using p by (auto simp: netWorld_def)
  obtain c where c: "S (pSource p) = Some c"
    "effectOk (netWorld N S) (set (coreVotes (nCrypto N) c)) (SignCall (MPrepare m))" by (rule sysOk_call [OF ok m(1)])
  then have "VPrepare (pSequence p) (pRound p) (Digest p) \<in> set (coreVotes (nCrypto N) c)"
    using m(2,3) by (simp add: payloadView_def)
  then have vote: "(pSource p, sealVote SealTypePrepare (pSequence p) (pRound p) (Digest p)) \<in> set lg"
    using sysOk_vote [OF ok c(1)] by simp
  then obtain h where "h \<in> nHeaders N" "Digest p = Header_Hash (keccak256 (nCrypto N)) h" "headerNumber h = pSequence p"
    using sysOk_sealed [OF ok] by blast
  then have "pSequence p = headerNumber (bHeader b)"
    using ok b unfolding sysOk_def netOk_def collisionFree_def Block_Hash_def by metis
  then show ?thesis using vote by simp
qed

lemma justified_votes:
  assumes ok: "sysOk N S lg" and j: "justifiedProposal (netWorld N S) sq rd d"
  shows "logJ (set (AddressList (nVals N))) (nCorrect N) (QuorumSize (nVals N)) lg sq rd d"
proof (cases "rd = 0")
  case False
  let ?V = "set (AddressList (nVals N))" and ?q = "QuorumSize (nVals N)"
  obtain b rcs ps where b: "Block_Hash (keccak256 (nCrypto N)) b = d" "Block_Number b = sq" "bHeader b \<in> nHeaders N"
    and js: "justifiedSpec d \<lparr>vRound = rd, vSequence = sq\<rparr> rcs ps ?q"
    and auth: "\<And>rc. rc \<in> set rcs \<Longrightarrow> wRoundChange (netWorld N S) rc" "\<And>p. p \<in> set ps \<Longrightarrow> wPrepare (netWorld N S) p"
    using j False isJustified_iff [of ?q] by (auto simp: justifiedProposal_def)
  have sub: "set (deduplicateRoundChanges rcs) \<subseteq> set rcs" "set (deduplicatePrepares ps) \<subseteq> set ps"
    using set_dedupFrom by (auto simp: deduplicateRoundChanges_def deduplicatePrepares_def)
  have senders: "isQuorum ?V ?q (sendersWith P rcs)" if "?q \<le> int (card (sendersWith P rcs))" for P
    using that auth(1) sub(1) by (auto simp: isQuorum_def sendersWith_def netWorld_def)
  have vote: "\<exists>rc. P rc \<and> (a, VRoundChange sq rd (preparedOf rc)) \<in> set lg" if a: "a \<in> sendersWith P rcs \<inter> nCorrect N" for P a
  proof -
    obtain rc where rc: "rc \<in> set (deduplicateRoundChanges rcs)" "P rc" "a = pSource rc" using a by (auto simp: sendersWith_def)
    then have "payloadView rc = \<lparr>vRound = rd, vSequence = sq\<rparr>" using js by (simp add: justifiedSpec_def)
    moreover have "wRoundChange (netWorld N S) rc" "pSource rc \<in> nCorrect N" using rc a sub(1) auth(1) by auto
    ultimately show ?thesis using roundChange_vote [OF ok] rc(2,3) by (auto simp: payloadView_def)
  qed
  show ?thesis
  proof (cases "ps = []")
    case True
    then have "isQuorum ?V ?q (sendersWith nilPrepared rcs)" using js senders by (auto simp: justifiedSpec_def prepareQuorum_def)
    moreover have "preparedOf rc = None" if "nilPrepared rc" for rc :: SignedRoundChangePayload
      using that by (auto simp: nilPrepared_def preparedOf_def split: option.split)
    ultimately have "logNil ?V (nCorrect N) ?q lg sq rd" unfolding logNil_def using vote [of _ nilPrepared] by metis
    then show ?thesis by (simp add: logJ_def)
  next
    case False
    then obtain pr where pr: "prepareQuorum pr d ps ?q" "?q \<le> int (card (sendersWith (lowerOrEqual pr) rcs))"
      using js by (auto simp: justifiedSpec_def)
    have "p0 \<le> pr" if "lowerOrEqual pr rc" "preparedOf rc = Some (p0, d0)" for rc :: SignedRoundChangePayload and p0 d0
      using that by (auto simp: lowerOrEqual_def preparedOf_def bigCmp_def split: option.splits if_splits)
    then have "logLocked ?V (nCorrect N) ?q lg sq rd pr"
      unfolding logLocked_def using senders [OF pr(2)] vote [of _ "lowerOrEqual pr"] by metis
    moreover have "isQuorum ?V ?q (pSource ` set ps)" using pr(1) auth(2) by (auto simp: isQuorum_def prepareQuorum_def netWorld_def)
    then have "isQuorum ?V ?q (pSource ` set (deduplicatePrepares ps))"
      using sources_dedupFrom [of "{}" ps] by (simp add: deduplicatePrepares_def)
    moreover have "(pSource p, VPrepare sq pr d) \<in> set lg" if "p \<in> set (deduplicatePrepares ps)" "pSource p \<in> nCorrect N" for p
      using prepare_vote [OF ok auth(2) that(2) _ b(3)] that(1) sub(2) pr(1) b(1,2) by (auto simp: prepareQuorum_def)
    then have "\<forall>a \<in> pSource ` set (deduplicatePrepares ps) \<inter> nCorrect N. (a, VPrepare sq pr d) \<in> set lg" by auto
    ultimately show ?thesis unfolding logJ_def logP_def by blast
  qed
qed (simp add: logJ_def)

section \<open>Every state of a run\<close>

lemma evidence_logged:
  assumes "sysOk N S lg"
    and "backed (justifiedProposal (netWorld N S)) (sealQuorum (netWorld N S) SealTypePrepare) (sealQuorum (netWorld N S) SealTypeCommit) x"
  shows "logBacked (set (AddressList (nVals N))) (nCorrect N) (QuorumSize (nVals N)) lg x"
  using assms justified_votes [OF assms(1)] sealQuorum_votes [OF assms(1)]
  by (cases x) (fastforce simp: logBacked_def logP_def logC_def)+

lemma logBacked_mono:
  assumes "set lg \<subseteq> set lg'" "logBacked V H q lg x"
  shows "logBacked V H q lg' x"
proof -
  have P: "logP V H q lg s r d \<Longrightarrow> logP V H q lg' s r d" "logC V H q lg s r d \<Longrightarrow> logC V H q lg' s r d" for s r d
    using assms(1) unfolding logP_def logC_def by blast+
  have "logNil V H q lg s r \<Longrightarrow> logNil V H q lg' s r" "logLocked V H q lg s r pr \<Longrightarrow> logLocked V H q lg' s r pr" for s r pr
    using assms(1) unfolding logNil_def logLocked_def by blast+
  then have "logJ V H q lg s r d \<Longrightarrow> logJ V H q lg' s r d" for s r d using P(1) unfolding logJ_def by blast
  then show ?thesis using assms(2) P by (cases x) (simp_all add: logBacked_def)
qed

definition allBacked :: "Net \<Rightarrow> vote_log \<Rightarrow> bool" where
  "allBacked N lg \<longleftrightarrow> (\<forall>i < length lg.
     logBacked (set (AddressList (nVals N))) (nCorrect N) (QuorumSize (nVals N)) (take i lg) (snd (lg ! i)))"

lemma allBacked_append:
  assumes "allBacked N lg" "\<And>x. x \<in> set new \<Longrightarrow>
    logBacked (set (AddressList (nVals N))) (nCorrect N) (QuorumSize (nVals N)) lg (snd x)"
  shows "allBacked N (lg @ new)"
  unfolding allBacked_def
proof (intro allI impI)
  fix i assume i: "i < length (lg @ new)"
  show "logBacked (set (AddressList (nVals N))) (nCorrect N) (QuorumSize (nVals N)) (take i (lg @ new)) (snd ((lg @ new) ! i))"
  proof (cases "i < length lg")
    case True
    then show ?thesis using assms(1) by (simp add: allBacked_def nth_append)
  next
    case False
    then have "(lg @ new) ! i \<in> set new" using i by (simp add: nth_append)
    from logBacked_mono [OF _ assms(2) [OF this]] show ?thesis using False by simp
  qed
qed

text \<open>A step of one node: what the others have is kept, and its new votes are backed.\<close>

lemma sysOk_step:
  assumes ok: "sysOk N S lg" "allBacked N lg" and a: "S a = Some c"
    and step: "refines (netWorld N S) True c c'" and store: "storeOk (set (outbox c)) (authMsg (netWorld N S)) (nVals N) c'"
  shows "sysOk N (S(a := Some c')) (lg @ newVotes (nCrypto N) a c c') \<and> allBacked N (lg @ newVotes (nCrypto N) a c c')"
proof -
  let ?W = "netWorld N S" and ?cr = "nCrypto N" and ?S = "S(a := Some c')"
  obtain s where s: "core_ok ?W c s" "effectsOk ?W c" "vote_inv True (voterOf ?cr c s)"
    using ok(1) a unfolding sysOk_def nodeOk_def by blast
  then obtain s' where s': "core_ok ?W c' s'" "effectsOk ?W c'" "worldSteps ?W True (voterOf ?cr c s) (voterOf ?cr c' s')"
    using step unfolding refines_def netWorld_simps by blast
  have inv: "vote_inv True (voterOf ?cr c' s')" by (rule vote_inv_steps [OF s'(3) s(3)])
  obtain new where new: "coreVotes ?cr c' = coreVotes ?cr c @ new"
    "\<forall>x \<in> set new. backed (justifiedProposal ?W) (sealQuorum ?W SealTypePrepare) (sealQuorum ?W SealTypeCommit) x"
    using vsteps_backed [OF s'(3)] by (auto simp: voterOf_def)
  have log: "newVotes ?cr a c c' = map (Pair a) new" by (simp add: newVotes_def new(1))
  have "storeOk {} (authMsg ?W) (nVals N) c'" "set (outbox c) \<subseteq> set (outbox c')" using store by (simp_all add: storeOk_def)
  then have "nodeOk N S c'" "grows S ?S" using s' inv a unfolding nodeOk_def by (blast, auto simp: grows_def calls_def)
  then have "nodeOk N ?S c'" "\<And>b d. S b = Some d \<Longrightarrow> nodeOk N ?S d" using nodeOk_grows ok(1) by (auto simp: sysOk_def)
  moreover have "(b, x) \<in> set (lg @ newVotes ?cr a c c') \<longleftrightarrow> (\<exists>d. ?S b = Some d \<and> x \<in> set (coreVotes ?cr d))" for b x
    using ok(1) a new(1) log by (auto simp: sysOk_def)
  ultimately have "sysOk N ?S (lg @ newVotes ?cr a c c')" using ok(1) a unfolding sysOk_def by auto
  moreover have "allBacked N (lg @ newVotes ?cr a c c')"
    by (rule allBacked_append [OF ok(2)]) (use log new(2) evidence_logged [OF ok(1)] in auto)
  ultimately show ?thesis ..
qed

lemma sysOk_join:
  assumes ok: "sysOk N S lg" and a: "a \<in> nCorrect N" "S a = None" and bk: "knowsValidators (\<lambda>n. nVals N) bk"
    and start: "Start (nCrypto N) bk (NewCore bk cfg) = Some c"
  shows "sysOk N (S(a := Some c)) lg"
proof -
  let ?W = "netWorld N S" and ?S = "S(a := Some c)"
  obtain s n where s: "core_ok ?W c s" "effectsOk ?W c" "voterOf (nCrypto N) c s = newVoter n"
    using Start_ok [of ?W bk cfg c] start bk by auto
  have "storeOk {} (authMsg ?W) (nVals N) c" using storeOk_Start [OF start] bk by (simp add: knowsValidators_def)
  moreover have "vote_inv True (voterOf (nCrypto N) c s)" using s(3) newVoter_inv by simp
  ultimately have "nodeOk N S c" using s unfolding nodeOk_def by blast
  moreover have grows: "grows S ?S" using a(2) by (auto simp: grows_def calls_def)
  ultimately have "nodeOk N ?S c" "\<And>b d. S b = Some d \<Longrightarrow> nodeOk N ?S d" using nodeOk_grows ok by (auto simp: sysOk_def)
  moreover have "coreVotes (nCrypto N) c = []" using arg_cong [OF s(3), of voVotes] by (simp add: voterOf_def newVoter_def)
  then have "(b, x) \<in> set lg \<longleftrightarrow> (\<exists>d. ?S b = Some d \<and> x \<in> set (coreVotes (nCrypto N) d))" for b x
    using ok a(2) by (auto simp: sysOk_def)
  ultimately show ?thesis using ok a(1) unfolding sysOk_def by auto
qed

lemma event_auth:
  assumes ok: "sysOk N S lg" and c: "S a = Some c" and adm: "admissibleEvent N S bk ev c" and m: "eventMsg (nCrypto N) c ev = Some m"
  shows "authMsg (netWorld N S) m"
proof -
  have store: "storeOk {} (authMsg (netWorld N S)) (nVals N) c" using ok c by (simp add: sysOk_def nodeOk_def)
  have codes: "Code m' = kindCode m'" if "SignCall m' \<in> calls S b" for b m'
    by (rule sysOk_call [OF ok that]) simp
  show ?thesis
  proof (cases ev)
    case (MessageEvent code payload)
    then show ?thesis using received_auth [OF _ _ store codes] m adm by (auto simp: admissibleEvent_def)
  next
    case (BacklogEvent src x)
    then have "BacklogEvent src m \<in> set (posted c)" using m adm by (auto simp: admissibleEvent_def)
    then show ?thesis using store unfolding storeOk_def by blast
  qed (use m in simp_all)
qed

lemma sys_run_ok:
  assumes "sys_run N S lg" "netOk N"
  shows "sysOk N S lg \<and> allBacked N lg"
  using assms
proof (induction rule: sys_run.induct)
  case empty
  then show ?case by (simp add: sysOk_def allBacked_def)
next
  case (join S lg a bk cfg c)
  then show ?case using sysOk_join by blast
next
  case (event S lg a c bk ev c')
  then have ok: "sysOk N S lg" "allBacked N lg" by blast+
  note auth = event_auth [OF ok(1) event.hyps(2,3)]
  have adm: "\<And>b. sameValidators (nVals N) (backendValidators bk b)" "validators (nVals N) \<noteq> []" "boundedView c"
    "\<And>s. current c = Some s \<Longrightarrow> rsRound s < nRounds N" "calmEvent (nCrypto N) bk c ev"
    using event.hyps(3) by (simp_all add: admissibleEvent_def knowsValidators_def)
  have "refines (netWorld N S) True c c'"
    using event.hyps(4) auth adm by (intro refines_event [where backend = bk and ev = ev]) simp_all
  moreover have "storeOk {} (authMsg (netWorld N S)) (nVals N) c" using ok(1) event.hyps(2) by (simp add: sysOk_def nodeOk_def)
  then have "storeOk (set (outbox c)) (authMsg (netWorld N S)) (nVals N) c" by (simp add: storeOk_def)
  then have "storeOk (set (outbox c)) (authMsg (netWorld N S)) (nVals N) c'"
    using storeOk_handleEvent [OF event.hyps(4)] auth adm(1) by blast
  ultimately show ?case by (intro sysOk_step [OF ok event.hyps(2)])
next
  case (futureBlock S lg a c c')
  then have ok: "sysOk N S lg" "allBacked N lg" by blast+
  note q = quiet_futurePreprepareFires [OF futureBlock.hyps(3)]
  have "storeOk {} (authMsg (netWorld N S)) (nVals N) c" using ok(1) futureBlock.hyps(2) by (simp add: sysOk_def nodeOk_def)
  then have "storeOk (set (outbox c)) (authMsg (netWorld N S)) (nVals N) c" by (simp add: storeOk_def)
  note step = sysOk_step [OF ok futureBlock.hyps(2) refines_quiet [OF q] storeOk_futurePreprepareFires [OF futureBlock.hyps(3) this]]
  have "newVotes (nCrypto N) a c c' = []" using q by (simp add: newVotes_def quiet_def coreVotes_def)
  then show ?case using step by (simp only: append_Nil2)
qed

section \<open>Agreement\<close>

lemma correct_rules:
  assumes "sysOk N S lg"
  shows "onePrepare (votesOf lg a) \<and> commitPrepared (votesOf lg a) \<and> reportsLock (votesOf lg a)"
proof (cases "S a")
  case None
  then have "votesOf lg a = {}" using assms by (auto simp: sysOk_def votesOf_def)
  then show ?thesis by (simp add: onePrepare_def commitPrepared_def reportsLock_def)
next
  case (Some c)
  then have "votesOf lg a = set (coreVotes (nCrypto N) c)" using assms by (auto simp: sysOk_def votesOf_def)
  moreover have "nodeOk N S c" using assms Some by (simp add: sysOk_def)
  ultimately show ?thesis by (auto simp: nodeOk_def vote_inv_def voterOf_def)
qed

interpretation wbft: vote_logs "\<lambda>N. {lg. netOk N \<and> (\<exists>S. sys_run N S lg)}" "\<lambda>N. set (AddressList (nVals N))" nCorrect
  "\<lambda>N. QuorumSize (nVals N)"
proof
  fix N lg Q Q'
  assume N: "lg \<in> {lg. netOk N \<and> (\<exists>S. sys_run N S lg)}" and Q: "isQuorum (set (AddressList (nVals N))) (QuorumSize (nVals N)) Q"
    "isQuorum (set (AddressList (nVals N))) (QuorumSize (nVals N)) Q'"
  then obtain a where "a \<in> Q" "a \<in> Q'" "a \<notin> set (AddressList (nVals N)) - nCorrect N"
    using wbft_quorum.correct_in_common [of "nVals N" Q Q' "set (AddressList (nVals N)) - nCorrect N"]
    by (auto simp: isQuorum_def netOk_def)
  then show "\<exists>a \<in> nCorrect N. a \<in> Q \<and> a \<in> Q'" using Q(1) by (auto simp: isQuorum_def)
next
  fix N lg i assume "lg \<in> {lg. netOk N \<and> (\<exists>S. sys_run N S lg)}" "i < length lg"
  then show "logBacked (set (AddressList (nVals N))) (nCorrect N) (QuorumSize (nVals N)) (take i lg) (snd (lg ! i))"
    using sys_run_ok by (auto simp: allBacked_def)
next
  fix N lg a x assume "lg \<in> {lg. netOk N \<and> (\<exists>S. sys_run N S lg)}" "(a, x) \<in> set lg"
  then show "a \<in> nCorrect N" using sys_run_ok by (fastforce simp: sysOk_def)
next
  fix N lg a assume "lg \<in> {lg. netOk N \<and> (\<exists>S. sys_run N S lg)}"
  then show "onePrepare (votesOf lg a) \<and> commitPrepared (votesOf lg a) \<and> reportsLock (votesOf lg a)"
    using sys_run_ok correct_rules by blast
qed

end
