(* ===== verification/Finality.thy ===== *)
theory Finality
  imports Consensus_System
begin

text \<open>
  Agreement of the consensus protocol, and a network that shows that its hypotheses can hold: messages are encoded,
  sent, decoded, verified and handled, and a block is finalised.
\<close>

section \<open>A network that finalises a block\<close>

text \<open>One validator, which is correct. A seal is the sealed data itself, and every hash ends in the last byte hashed.\<close>

definition netCrypto :: Crypto where
  "netCrypto = \<lparr>keccak256 = \<lambda>bs. ucast (last bs) + 1, sigToAddress = \<lambda>h sg. Some 1, blsPublicKeyOk = \<lambda>k. True,
     blsSignatureOk = \<lambda>sg. True, blsVerify = \<lambda>sg k d. sg = d\<rparr>"

definition netBlock :: Block where
  "netBlock = exampleBlock\<lparr>bHeader := exampleHeader\<lparr>Bloom := replicate 256 0\<rparr>\<rparr>"

abbreviation netSeal :: "SealType \<Rightarrow> bytes" where
  "netSeal \<equiv> PrepareSeal (keccak256 netCrypto) (bHeader netBlock) 0"

definition netProposal :: Preprepare where
  "netProposal = (NewPreprepare 5 0 netBlock)\<lparr>pSource := 1\<rparr>"

definition netPrepare :: Prepare where
  "netPrepare = (NewPrepare 5 0 (Block_Hash (keccak256 netCrypto) netBlock) (netSeal SealTypePrepare))\<lparr>pSource := 1\<rparr>"

definition netCommit :: Commit where
  "netCommit = (NewCommit 5 0 (Block_Hash (keccak256 netCrypto) netBlock) (netSeal SealTypeCommit))\<lparr>pSource := 1\<rparr>"

definition soloNet :: Net where
  "soloNet = \<lparr>nCrypto = netCrypto, nVals = soloSet, nCorrect = {1}, nHeaders = {bHeader netBlock}, nRounds = 1\<rparr>"

lemma netHash_nonzero: "(ucast (x :: byte) + 1 :: hash) \<noteq> 0"
proof -
  have "uint (ucast x + 1 :: hash) = uint x + 1"
    using uint_bounded [of x] by (simp add: uint_word_ariths unsigned_ucast_eq take_bit_int_eq_self)
  then show ?thesis using uint_ge_0 [of x] by (metis add_nonneg_pos less_irrefl uint_0_eq zero_less_one)
qed

lemma netSeal_inj: "netSeal t = netSeal t' \<Longrightarrow> t = t'"
proof -
  assume "netSeal t = netSeal t'"
  then have "(ucast (sealTypeByte t) + 1 :: hash) = ucast (sealTypeByte t') + 1"
    unfolding PrepareSeal_def by (intro wordBytes_inj [of 32]) (simp_all add: netCrypto_def)
  then show ?thesis by (cases t; cases t') simp_all
qed

lemma soloNet_ok: "netOk soloNet"
proof -
  have vals: "AddressList soloSet = [1]" by code_simp
  have zero: "0 = sealRound 0" by (simp add: sealRound_def bigUint64_def)
  have rounds: "r = 0" if "0 \<le> r" "r < nRounds soloNet" for r using that by (simp add: soloNet_def)
  have "Header_Hash (keccak256 netCrypto) h \<noteq> 0" for h
    using netHash_nonzero by (simp add: Header_Hash_def rlpHash_def netCrypto_def split: option.split)
  then have "collisionFree soloNet"
    unfolding collisionFree_def using rounds netSeal_inj [unfolded zero]
    by (metis (no_types) Net.select_convs(1,4) singletonD soloNet_def)
  moreover have "0 \<le> F soloSet" using vals by (auto simp: F_def Size_def AddressList_def)
  ultimately show ?thesis using vals soloSet_nonempty by (simp add: netOk_def soloNet_def valSet_wf_def)
qed

lemma net_facts:
  "pCode netProposal = PreprepareCode" "pSource netProposal = 1" "pSequence netProposal = 5" "pRound netProposal = 0"
  "Proposal netProposal = netBlock" "Block_Number netBlock = 5" "JustificationRoundChanges netProposal = []"
  "JustificationPrepares netProposal = []"
  "pCode netPrepare = PrepareCode" "pSource netPrepare = 1" "pSequence netPrepare = 5" "pRound netPrepare = 0"
  "pCode netCommit = CommitCode" "pSource netCommit = 1" "pSequence netCommit = 5" "pRound netCommit = 0"
  "prSeal netPrepare = netSeal SealTypePrepare" "CommitSeal netCommit = netSeal SealTypeCommit"
  by (simp_all add: netProposal_def netPrepare_def netCommit_def payload_defs netBlock_def exampleHeader_def Block_Number_def)

lemma net_votes: "goodPrepare netCrypto soloVals netBlock netPrepare" "goodCommit netCrypto soloVals netBlock netCommit"
  using soloVals_facts(3)
  by (auto simp: goodPrepare_def goodCommit_def verifySeal_def net_facts sealRound_def bigUint64_def)
    (auto simp: netPrepare_def netCommit_def payload_defs netCrypto_def)

text \<open>A header takes at most nine bytes.\<close>

lemma encode_bound:
  "length (encodeItem (Str b)) \<le> 9 + length b" "length (encodeItem (Lst xs)) \<le> 9 + (\<Sum>x\<leftarrow>xs. length (encodeItem x))"
proof -
  have "length (encodeStringHeader n) \<le> 9" "length (puthead s l n) \<le> 9" for n s l
    using length_be_unat [of n] by (auto simp: encodeStringHeader_def putint_be Let_def length_puthead headsize_def intsize_be)
  then show "length (encodeItem (Str b)) \<le> 9 + length b" "length (encodeItem (Lst xs)) \<le> 9 + (\<Sum>x\<leftarrow>xs. length (encodeItem x))"
    by (simp_all add: writeBytes_def encodeItems_def Let_def length_concat comp_def add_mono)
qed

lemma vote_bound:
  "length (encodeItem (Lst [Lst [intItem 5, intItem 0, hashItem d, Str seal], Str []])) \<le> 96 + length seal"
proof -
  have i: "length (encodeItem (intItem 5)) \<le> 10" "length (encodeItem (intItem 0)) \<le> 9" "length (encodeItem (hashItem d)) \<le> 41"
    using encode_bound(1) [of "be 5"] encode_bound(1) [of "[]"] encode_bound(1) [of "wordBytes 32 d"] length_be [of 5 1]
    by (simp_all add: intItem_def hashItem_def)
  have "length (encodeItem (Lst [intItem 5, intItem 0, hashItem d, Str seal]))
      \<le> 9 + (length (encodeItem (intItem 5)) + (length (encodeItem (intItem 0)) + (length (encodeItem (hashItem d))
        + length (encodeItem (Str seal)))))"
    using encode_bound(2) [of "[intItem 5, intItem 0, hashItem d, Str seal]"] by simp
  moreover have "length (encodeItem (Lst [y, Str []])) \<le> 9 + (length (encodeItem y) + length (encodeItem (Str [])))" for y
    using encode_bound(2) [of "[y, Str []]"] by simp
  from this [of "Lst [intItem 5, intItem 0, hashItem d, Str seal]"] calculation i show ?thesis
    using encode_bound(1) [of seal] encode_bound(1) [of "[]"] unfolding list.size by linarith
qed


lemma net_sizes:
  "length (encodeItem (the (msgItem (MPreprepare netProposal)))) < 2 ^ 64"
  "length (encodeItem (the (msgItem (MPrepare netPrepare)))) < 2 ^ 64" "length (encodeItem (the (msgItem (MCommit netCommit)))) < 2 ^ 64"
proof -
  have "length (encodeItem (the (msgItem (MPreprepare netProposal)))) < 1000" by code_simp
  then show "length (encodeItem (the (msgItem (MPreprepare netProposal)))) < 2 ^ 64" by simp
  have len: "length (netSeal t) = 32" for t by (simp add: PrepareSeal_def)
  have "msgItem (MPrepare netPrepare) = Some (Lst [Lst [intItem 5, intItem 0, hashItem (Block_Hash (keccak256 netCrypto) netBlock),
      Str (netSeal SealTypePrepare)], Str []])"
    "msgItem (MCommit netCommit) = Some (Lst [Lst [intItem 5, intItem 0, hashItem (Block_Hash (keccak256 netCrypto) netBlock),
      Str (netSeal SealTypeCommit)], Str []])"
    by (simp_all add: prepareItem_def preparePayload_def commitItem_def commitPayload_def netPrepare_def netCommit_def payload_defs)
  then have "length (encodeItem (the (msgItem (MPrepare netPrepare)))) \<le> 96 + length (netSeal SealTypePrepare)"
    "length (encodeItem (the (msgItem (MCommit netCommit)))) \<le> 96 + length (netSeal SealTypeCommit)"
    by (simp_all only: option.sel vote_bound)
  then have "length (encodeItem (the (msgItem (MPrepare netPrepare)))) \<le> 128" "length (encodeItem (the (msgItem (MCommit netCommit)))) \<le> 128"
    unfolding len by simp_all
  then show "length (encodeItem (the (msgItem (MPrepare netPrepare)))) < 2 ^ 64" "length (encodeItem (the (msgItem (MCommit netCommit)))) < 2 ^ 64"
    by simp_all
qed

text \<open>A message of the view of the node, without justification, is received as it was sent.\<close>

lemma solo_received:
  assumes c: "inPhase st s soloVals c" "rsRound s = 0" "rsSequence s = 5"
    and m: "wfMsg (keccak256 netCrypto) m" "Source m = 1" "msgView m = \<lparr>vRound = 0, vSequence = 5\<rparr>" "Code m \<in> MessageCodes"
    and plain: "\<And>c. verifyJustification netCrypto c m = Some (Inr m)" "SetSource 1 (onWire m) = m"
    and size: "length (encodeItem (the (msgItem m))) < 2 ^ 64" and signed: "EncodePayloadForSigning (onWire m) \<noteq> None" "msgView (onWire m) = msgView m"
  shows "received netCrypto c (Code m) (EncodeToBytes (the (msgItem m))) = Some m"
proof -
  have d: "Decode (keccak256 netCrypto) (Code m) (EncodeToBytes (the (msgItem m))) = Inr (onWire m)"
    using msg_round_trip [OF m(1)] size by auto
  obtain v where v: "snd (GetByAddress soloVals 1) = Some v" using soloVals_facts(3) by blast
  then have "valAddress v = 1" using GetByAddress_snd_SomeD(2) by blast
  then have "CheckValidatorSignature netCrypto (Some soloVals) x sig = Some (Inr 1)" for x sig
    using v by (simp add: CheckValidatorSignature_def GetSignatureAddress_def netCrypto_def)
  moreover have "currentView c = Some \<lparr>vRound = 0, vSequence = 5\<rparr>" "valSet c = Some soloVals"
    using c by (simp_all add: inPhase_def currentView_def)
  ultimately have "verifySignatures netCrypto c (onWire m) = Some (Inr m)"
    using signed m(3) plain by (auto simp: verifySignatures_def verifyPart_def checkValidatorSignature_def View_Cmp_simps)
  then show ?thesis using d m(4) by (simp add: received_def)
qed

abbreviation solo :: "Core \<Rightarrow> System" where
  "solo c \<equiv> (\<lambda>a. None)(1 := Some c)"

lemma solo_message:
  assumes run: "sys_run soloNet (solo c) lg" and c: "inPhase st s soloVals c" "rsRound s = 0" "rsSequence s = 5"
    and m: "received netCrypto c (Code m) payload = Some m" "genuine soloNet (solo c) m" "Code m \<noteq> RoundChangeCode" "Code m \<in> MessageCodes"
    and handled: "handleDecodedMessage netCrypto soloBackend m c = Some (None, c1)" "inPhase st' s' soloVals c1"
  shows "\<exists>c2 lg. sys_run soloNet (solo c2) lg \<and> inPhase st' s' soloVals c2 \<and> set (outbox c1) \<subseteq> set (outbox c2)"
proof -
  let ?ev = "MessageEvent (Code m) payload" and ?c2 = "emit (Gossip (Code m) payload) c1"
  have "handleEncodedMsg netCrypto soloBackend (Code m) payload c = Some (None, c1)"
    using m(1,4) handled(1) by (auto simp: received_def handleEncodedMsg_def split: if_splits sum.splits option.splits)
  then have ev: "handleEvent (nCrypto soloNet) soloBackend ?ev c = Some ?c2" using handled(2) by (simp add: soloNet_def inPhase_def)
  have adm: "admissibleEvent soloNet (solo c) soloBackend ?ev c"
    using c m solo_knows
    by (auto simp: admissibleEvent_def soloNet_def inPhase_def boundedView_def calmEvent_def calmMsg_def soloBackend_def exampleBackend_def)
  have "sys_run soloNet ((solo c)(1 := Some ?c2)) (lg @ newVotes (nCrypto soloNet) 1 c ?c2)"
    by (rule sys_run.event [OF run _ adm ev]) simp
  moreover have "inPhase st' s' soloVals ?c2" using handled(2) by (simp add: inPhase_def emit_def backlog_inv_def)
  moreover have "set (outbox c1) \<subseteq> set (outbox ?c2)" by (auto simp: emit_def)
  ultimately show ?thesis unfolding fun_upd_upd by blast
qed

lemma solo_genuine:
  assumes "SealCall \<lparr>vRound = 0, vSequence = 5\<rparr> (bHeader netBlock) t \<in> set (outbox c)"
  shows "sealGenuine soloNet (solo c) (netSeal t)"
proof -
  have "sealRound 0 = 0" by (simp add: sealRound_def bigUint64_def)
  then have "\<exists>view h t'. SealCall view h t' \<in> calls (solo c) 1 \<and> PrepareSeal (keccak256 netCrypto) h (sealRound (vRound view)) t' = netSeal t"
    using assms by (intro exI [of _ "\<lparr>vRound = 0, vSequence = 5\<rparr>"] exI [of _ "bHeader netBlock"] exI [of _ t]) (simp add: calls_def)
  moreover have "blsVerify netCrypto sg k x \<longleftrightarrow> sg = x" for sg k x by (simp add: netCrypto_def)
  ultimately show ?thesis by (auto simp: sealGenuine_def soloNet_def)
qed

lemma net_wire:
  assumes "inPhase st s soloVals c" "rsRound s = 0" "rsSequence s = 5"
  shows "received netCrypto c PreprepareCode (EncodeToBytes (the (msgItem (MPreprepare netProposal)))) = Some (MPreprepare netProposal)"
    "received netCrypto c PrepareCode (EncodeToBytes (the (msgItem (MPrepare netPrepare)))) = Some (MPrepare netPrepare)"
    "received netCrypto c CommitCode (EncodeToBytes (the (msgItem (MCommit netCommit)))) = Some (MCommit netCommit)"
proof -
  have wf: "wfHeader (bHeader netBlock)" by (simp add: wfHeader_def netBlock_def exampleHeader_def)
  have "headerItem (bHeader netBlock) \<noteq> None" by code_simp
  then obtain y where item: "headerItem (bHeader netBlock) = Some y" by blast
  have codes: "PreprepareCode \<in> MessageCodes" "PrepareCode \<in> MessageCodes" "CommitCode \<in> MessageCodes" by (simp_all add: MessageCodes_def)
  show "received netCrypto c PreprepareCode (EncodeToBytes (the (msgItem (MPreprepare netProposal)))) = Some (MPreprepare netProposal)"
    using solo_received [OF assms, of "MPreprepare netProposal"] wf item codes net_sizes(1)
    by (simp add: net_facts msgView_simps verifyJustification_def wfPayload_def noSource_def EncodePayloadForSigning_def signPayload_def
      preprepPayload_def bigItem_def blockItem_def)
  show "received netCrypto c PrepareCode (EncodeToBytes (the (msgItem (MPrepare netPrepare)))) = Some (MPrepare netPrepare)"
    using solo_received [OF assms, of "MPrepare netPrepare"] codes net_sizes(2)
    by (simp add: net_facts msgView_simps verifyJustification_def wfPayload_def noSource_def EncodePayloadForSigning_def signPayload_def
      preparePayload_def bigItem_def)
  show "received netCrypto c CommitCode (EncodeToBytes (the (msgItem (MCommit netCommit)))) = Some (MCommit netCommit)"
    using solo_received [OF assms, of "MCommit netCommit"] codes net_sizes(3)
    by (simp add: net_facts msgView_simps verifyJustification_def wfPayload_def noSource_def EncodePayloadForSigning_def signPayload_def
      commitPayload_def bigItem_def)
qed

lemma soloRound_proposed:
  "rsRound (SetPreprepare netProposal soloRound) = 0" "rsSequence (SetPreprepare netProposal soloRound) = 5"
  "rsProposal (SetPreprepare netProposal soloRound) = Some netBlock"
  "WBFTPrepares (SetPreprepare netProposal soloRound) = newWBFTMsgSet soloSet"
  "WBFTCommits (SetPreprepare netProposal soloRound) = newWBFTMsgSet soloSet"
  by (simp_all add: SetPreprepare_def rsProposal_def soloRound_facts net_facts)

lemma solo_proposed:
  "\<exists>c lg. sys_run soloNet (solo c) lg \<and> inPhase StatePreprepared (SetPreprepare netProposal soloRound) soloVals c
     \<and> SealCall \<lparr>vRound = 0, vSequence = 5\<rparr> (bHeader netBlock) SealTypePrepare \<in> set (outbox c)"
proof -
  obtain c where c: "Start netCrypto soloBackend (NewCore soloBackend DefaultConfig) = Some c"
    "inPhase StateAcceptRequest soloRound soloVals c" "config c = DefaultConfig"
    using Start_runs [OF soloBackend_facts(1), of DefaultConfig netCrypto] soloVals_facts(4) by (auto simp: soloBackend_facts)
  have run: "sys_run soloNet (solo c) []"
    by (rule sys_run.join [OF sys_run.empty, where bk = soloBackend and cfg = DefaultConfig])
      (use c(1) solo_knows in \<open>simp_all add: soloNet_def\<close>)
  from preprepare_runs [OF c(2), of netProposal soloBackend netCrypto] obtain c1 where
    c1: "handlePreprepareMsg netCrypto soloBackend netProposal c = Some (None, c1)"
      "inPhase StatePreprepared (SetPreprepare netProposal soloRound) soloVals c1"
      "SealCall \<lparr>vRound = 0, vSequence = 5\<rparr> (bHeader netBlock) SealTypePrepare \<in> set (outbox c1)"
    using soloVals_facts(1,4) c(3) by (auto simp: soloRound_facts net_facts soloBackend_facts bigUint64_def)
  have "handleDecodedMessage netCrypto soloBackend (MPreprepare netProposal) c = Some (None, c1)"
    using handleDecoded_phase(1) [OF c(2)] c1(1) by (simp add: net_facts viewOf_def soloRound_facts)
  from solo_message [OF run c(2) soloRound_facts(1,2) _ _ _ _ this c1(2)] show ?thesis
    using net_wire(1) [OF c(2) soloRound_facts(1,2)] c1(3)
    by (fastforce simp: net_facts code_defs MessageCodes_def soloNet_def)
qed

lemma solo_committed:
  "\<exists>c lg ps cs. sys_run soloNet (solo c) lg \<and> CommitBlock netBlock ps cs 0 \<in> set (outbox c)"
proof -
  let ?s = "SetPreprepare netProposal soloRound" and ?seal = "SealCall \<lparr>vRound = 0, vSequence = 5\<rparr> (bHeader netBlock)"
  let ?s1 = "(addPrepareTo netPrepare ?s)\<lparr>preparedRound := Some (rsRound ?s), preparedBlock := Some netBlock\<rparr>"
  note s = soloRound_proposed
  have s1: "rsRound ?s1 = 0" "rsSequence ?s1 = 5" "rsProposal ?s1 = Some netBlock" "onlyPrepares (WBFTPrepares ?s1)"
    "WBFTCommits ?s1 = newWBFTMsgSet soloSet"
    using s onlyPrepares_add [of "newWBFTMsgSet soloSet" netPrepare]
    by (simp_all add: addPrepareTo_def rsProposal_def onlyPrepares_def)
  obtain c lg where c: "sys_run soloNet (solo c) lg" "inPhase StatePreprepared ?s soloVals c" "?seal SealTypePrepare \<in> set (outbox c)"
    using solo_proposed by blast
  have "QuorumSize soloVals \<le> MsgSet_Size (WBFTPrepares (addPrepareTo netPrepare ?s))"
    using soloVals_facts(2) by (simp add: addPrepareTo_def s MsgSet_Add_def MsgSet_Size_def)
  from prepare_reaches_quorum [OF c(2) s(3) net_votes(1) this, of soloBackend] obtain c1 where
    c1: "handlePrepareMsg netCrypto soloBackend netPrepare c = Some (None, c1)" "inPhase StatePrepared ?s1 soloVals c1"
      "?seal SealTypeCommit \<in> set (outbox c1)" by (auto simp: s onlyPrepares_def)
  have "handleDecodedMessage netCrypto soloBackend (MPrepare netPrepare) c = Some (None, c1)"
    using handleDecoded_phase(2) [OF c(2)] c1(1) by (simp add: net_facts viewOf_def s)
  from solo_message [OF c(1,2) s(1,2) _ _ _ _ this c1(2)] obtain c2 lg2 where
    c2: "sys_run soloNet (solo c2) lg2" "inPhase StatePrepared ?s1 soloVals c2" "?seal SealTypeCommit \<in> set (outbox c2)"
    using net_wire(2) [OF c(2) s(1,2)] solo_genuine [OF c(3)] c1(3) by (fastforce simp: net_facts code_defs MessageCodes_def)
  have q: "QuorumSize soloVals \<le> MsgSet_Size (WBFTCommits (addCommitTo netCommit ?s1))"
    using soloVals_facts(2) by (simp add: addCommitTo_def s1 MsgSet_Add_def MsgSet_Size_def)
  have "onlyCommits (WBFTCommits ?s1)" unfolding s1 by (simp add: onlyCommits_def)
  from commit_reaches_quorum [OF c2(2) s1(3) net_votes(2) q s1(4) this soloBackend_facts(5)] obtain c3 ps cs where
    c3: "handleCommitMsg netCrypto soloBackend netCommit c2 = Some (None, c3)"
      "inPhase StateCommitted (addCommitTo netCommit ?s1) soloVals c3"
      "outbox c3 = outbox c2 @ [CommitBlock netBlock ps cs (rsRound ?s1)]" by (elim exE conjE) (rule that)
  have "handleDecodedMessage netCrypto soloBackend (MCommit netCommit) c2 = Some (None, c3)"
    using handleDecoded_phase(3) [OF c2(2)] c3(1) by (simp add: net_facts viewOf_def s1)
  from solo_message [OF c2(1,2) s1(1,2) _ _ _ _ this c3(2)] obtain c4 lg4 where
    c4: "sys_run soloNet (solo c4) lg4" "set (outbox c3) \<subseteq> set (outbox c4)"
    using net_wire(3) [OF c2(2) s1(1,2)] solo_genuine [OF c2(3)] by (fastforce simp: net_facts code_defs MessageCodes_def)
  then have "CommitBlock netBlock ps cs 0 \<in> set (outbox c4)" using c3(3) s1(1) by auto
  then show ?thesis using c4(1) by blast
qed

section \<open>Properties\<close>



end
