(* ===== verification/Spec2Isabelle.thy ===== *)
theory Spec2Isabelle
  imports Prelude Validator_Set Prque Wbft_Config Rlp Block_Types Messages Justification
    Round_Change_Set Core_State Timers Backlog Extra_Seal Core_Rounds Core_Handlers Core_Frames
    Voter Agreement Core_Refinement Round_Refinement Progress Node_Run Storage Consensus_System Finality
begin

text \<open>
  \<^bold>\<open>WBFT consensus of go-stablenet.\<close> This library models the consensus engine under
  \<open>src/consensus/wbft\<close> and proves the properties that make it correct.

  \<^item> \<open>Prelude\<close>: types, arithmetic and map lemmas shared by all components.
  \<^item> \<open>Validator_Set\<close>: \<open>validator/default.go\<close> and \<open>validator/validator.go\<close>.
\<close>

end
